(* ===== verification/Prelude.thy ===== *)
theory Prelude
  imports Main "HOL-Library.Word" "HOL-Library.Monad_Syntax"
begin

text \<open>
  Shared by every theory of the development: the machine types of the driver (an LP64,
  little-endian build), the error numbers it returns, byte layouts in memory, and the
  collections of proof rules.
\<close>

unbundle bit_operations_syntax

section \<open>Machine types\<close>

type_synonym u8 = "8 word"
type_synonym u16 = "16 word"
type_synonym u32 = "32 word"
type_synonym u64 = "64 word"

text \<open>Pointers, kernel and user, are 64-bit; \<open>NULL\<close> is zero.\<close>

type_synonym addr = "64 word"

abbreviation NULL :: addr where
  "NULL \<equiv> 0"

text \<open>Error numbers, positive as in \<open>errno.h\<close>; the code returns them negated.\<close>

abbreviation EAGAIN :: int where "EAGAIN \<equiv> 11"
abbreviation ENOMEM :: int where "ENOMEM \<equiv> 12"
abbreviation EACCES :: int where "EACCES \<equiv> 13"
abbreviation EFAULT :: int where "EFAULT \<equiv> 14"
abbreviation EINVAL :: int where "EINVAL \<equiv> 22"
abbreviation ENOSYS :: int where "ENOSYS \<equiv> 38"

section \<open>Proof rule collections\<close>

named_theorems queue_simps \<open>what the queue operations compute on a well-formed queue\<close>
named_theorems kmem_simps \<open>field-by-field effect of the kernel boundary on the driver's memory\<close>
named_theorems drv_simps \<open>field-by-field effect of the driver's accessors\<close>
named_theorems lock_simps \<open>what an operation does to the state of the queue lock\<close>

section \<open>Bytes\<close>

text \<open>Value of a byte string, least significant byte first, and most significant first.\<close>

fun le_val :: "u8 list \<Rightarrow> nat" where
  "le_val [] = 0"
| "le_val (b # bs) = unat b + 256 * le_val bs"

definition be_val :: "u8 list \<Rightarrow> nat" where
  "be_val bs = le_val (rev bs)"

text \<open>The \<open>n\<close> bytes that store a value, least significant first.\<close>

fun le_bytes :: "nat \<Rightarrow> nat \<Rightarrow> u8 list" where
  "le_bytes 0 v = []"
| "le_bytes (Suc n) v = of_nat (v mod 256) # le_bytes n (v div 256)"

lemma length_le_bytes [simp]: "length (le_bytes n v) = n"
  by (induction n arbitrary: v) auto

lemma unat_of_nat_u8 [simp]: "unat (of_nat n :: u8) = n mod 256"
  by (simp add: unsigned_of_nat take_bit_eq_mod)

lemma le_val_bytes: "le_val (le_bytes n v) = v mod 256 ^ n"
proof (induction n arbitrary: v)
  case 0
  then show ?case by simp
next
  case (Suc n)
  have "v mod 256 ^ Suc n = v mod 256 + 256 * (v div 256 mod 256 ^ n)"
    by (simp add: mod_mult2_eq)
  with Suc show ?case by simp
qed

lemma le_val_bound: "le_val bs < 256 ^ length bs"
proof (induction bs)
  case Nil
  then show ?case by simp
next
  case (Cons b bs)
  have "unat b < 256" using unsigned_less [of b] by simp
  with Cons show ?case by simp
qed

lemma le_val_append: "le_val (xs @ ys) = le_val xs + 256 ^ length xs * le_val ys"
  by (induction xs) (auto simp: algebra_simps)

section \<open>Reading and writing a block of memory\<close>

text \<open>
  A block is a list of cells; a cell is \<open>None\<close> until it is written. \<open>bytes_at\<close> reads
  \<open>n\<close> bytes at an offset; it is \<open>None\<close> when the access leaves the block or meets a cell
  that was never written.
\<close>

type_synonym block = "u8 option list"

definition bytes_at :: "block \<Rightarrow> int \<Rightarrow> nat \<Rightarrow> u8 list option" where
  "bytes_at m off n =
     (if 0 \<le> off \<and> nat off + n \<le> length m then those (take n (drop (nat off) m)) else None)"

definition write_at :: "block \<Rightarrow> int \<Rightarrow> u8 list \<Rightarrow> block option" where
  "write_at m off bs =
     (if 0 \<le> off \<and> nat off + length bs \<le> length m
      then Some (take (nat off) m @ map Some bs @ drop (nat off + length bs) m) else None)"

lemma those_map_Some [simp]: "those (map Some xs) = Some xs"
  by (induction xs) auto

lemma those_Some_iff: "(those xs = Some ys) = (xs = map Some ys)"
proof (induction xs arbitrary: ys)
  case Nil
  then show ?case by auto
next
  case (Cons x xs)
  then show ?case by (cases x; cases ys) auto
qed

lemma write_at_length: "write_at m off bs = Some m' \<Longrightarrow> length m' = length m"
  by (auto simp: write_at_def split: if_splits)

lemma bytes_at_length: "bytes_at m off n = Some bs \<Longrightarrow> length bs = n"
  by (auto simp: bytes_at_def those_Some_iff split: if_splits dest: arg_cong [where f = length])

lemma bytes_at_written:
  assumes "length bs \<le> length m" and "0 \<le> off" and "nat off + n \<le> length bs"
  shows "bytes_at (map Some bs @ drop (length bs) m) off n = Some (take n (drop (nat off) bs))"
proof -
  have "take n (drop (nat off) (map Some bs @ drop (length bs) m))
      = map Some (take n (drop (nat off) bs))"
    using assms(3) by (simp add: take_map drop_map)
  with assms show ?thesis by (simp add: bytes_at_def)
qed

section \<open>Words\<close>

lemma unat_of_nat_small:
  "n < 2 ^ LENGTH('a) \<Longrightarrow> unat (of_nat n :: 'a::len word) = n"
  by (simp add: unsigned_of_nat take_bit_nat_eq_self)

lemma sint_of_nat_u32:
  "n < 2 ^ 31 \<Longrightarrow> sint (of_nat n :: u32) = int n"
  by (simp add: signed_of_nat signed_take_bit_int_eq_self)

lemma sint_of_nat_u64:
  "n < 2 ^ 31 \<Longrightarrow> sint (of_nat n :: u64) = int n"
  by (simp add: signed_of_nat signed_take_bit_int_eq_self)

lemma scast_of_nat_small:
  assumes "n < 2 ^ 31"
  shows "(scast (of_nat n :: u32) :: u64) = of_nat n"
  using assms by (simp add: signed_of_nat signed_take_bit_int_eq_self)

lemma of_nat_eq_0_u32: "n < 2 ^ 32 \<Longrightarrow> ((of_nat n :: u32) = 0) = (n = 0)"
  by (simp add: word_of_nat_eq_0_iff nat_dvd_not_less)
    (metis gr_zeroI nat_dvd_not_less dvd_0_right)

end
