(* ===== verification/Kernel.thy ===== *)
theory Kernel
  imports Prelude
begin

text \<open>
  The boundary between the driver and the Linux kernel. The kernel is not part of the
  sources: it is the record \<open>kernel\<close> of its answers, a parameter of every operation that
  calls it, and each answer may depend on the whole history of calls made so far. A call
  is an event \<open>kcall\<close> appended to the driver's trace \<open>ktrace\<close>, with its arguments and its
  answer. What the driver owns in kernel memory is explicit: the socket buffers that were
  handed to it and not yet given back (\<open>skbs\<close>) and the net devices it allocated
  (\<open>netdevs\<close>). Touching anything else is a kernel fault: the operation is \<open>None\<close>.
\<close>

section \<open>Kernel objects\<close>

text \<open>A socket buffer: the fields the driver reads or writes (\<open>lin_specific.h\<close> uses \<open>next\<close>).\<close>

record sk_buff =
  skb_next :: addr
  skb_len :: u32
  skb_data :: "u8 list"
  skb_protocol :: u16
  skb_mac_len :: u16
  skb_dev :: addr

text \<open>Traffic counters: 32-bit in \<open>struct vnet\<close>, \<open>unsigned long\<close> in \<open>net_device_stats\<close>.\<close>

record 'w net_stats =
  rx_packets :: 'w
  tx_packets :: 'w
  rx_errors :: 'w
  tx_errors :: 'w
  rx_dropped :: 'w
  tx_dropped :: 'w
  rx_bytes :: 'w
  tx_bytes :: 'w
  rx_fifo_errors :: 'w
  tx_fifo_errors :: 'w

definition zero_stats :: "'w::zero net_stats" where
  "zero_stats = \<lparr>rx_packets = 0, tx_packets = 0, rx_errors = 0, tx_errors = 0,
     rx_dropped = 0, tx_dropped = 0, rx_bytes = 0, tx_bytes = 0,
     rx_fifo_errors = 0, tx_fifo_errors = 0\<rparr>"

record net_device =
  nd_kvnet_ops :: bool
  nd_kvnet_ethtool_ops :: bool
  nd_kvnet_destructor :: bool
  nd_hard_header_len :: u16
  nd_addr_len :: u8
  nd_mtu :: u32
  nd_tx_queue_len :: u64
  nd_flags :: u32
  nd_dev_addr :: "u8 list"
  nd_trans_start :: u64
  nd_last_rx :: u64
  nd_priv :: "u64 net_stats"

text \<open>A pointer that may carry an error number (\<open>ERR_PTR\<close>, \<open>IS_ERR\<close>, \<open>PTR_ERR\<close>).\<close>

datatype errptr = ERR_PTR int | KPtr addr

fun IS_ERR :: "errptr \<Rightarrow> bool" where
  "IS_ERR (ERR_PTR e) = True"
| "IS_ERR (KPtr p) = False"

fun PTR_ERR :: "errptr \<Rightarrow> int" where
  "PTR_ERR (ERR_PTR e) = e"
| "PTR_ERR (KPtr p) = sint p"

text \<open>The driver's only \<open>K_LOCK\<close> is the one inside the packet queue of \<open>struct vnet\<close>.\<close>

datatype lock_ptr = Null_lock | Queue_lock

text \<open>The operations of \<open>kvnet_netdev_ops\<close> the kernel may call back, and the destructor.\<close>

datatype ndo = Ndo_init | Ndo_uninit | Ndo_open | Ndo_stop | Ndo_destructor

section \<open>Calls into the kernel\<close>

datatype kcall =
    Spin_lock_init lock_ptr
  | Spin_lock_bh lock_ptr
  | Spin_unlock_bh lock_ptr
  | Kmalloc u64 addr
  | Kfree addr
  | Kfree_skb addr
  | Dev_alloc_skb u32 addr
  | Skb_reserve addr u32
  | Skb_put addr u32
  | Netif_rx_ni addr sk_buff
  | Init_waitqueue_head
  | Wake_up_interruptible
  | Poll_wait
  | Netif_start_queue addr
  | Netif_stop_queue addr
  | Netif_wake_queue addr
  | Get_user addr "u32 option"
  | Put_user addr u32 bool
  | Copy_to_user addr "u8 list" nat
  | Copy_from_user addr u32 "u8 list option"
  | Memcpy_fromiovecend u64 "u8 list option"
  | Memcpy_toiovec "u8 list" bool
  | Alloc_netdev addr
  | Register_netdev addr int
  | Unregister_netdev addr
  | Free_netdev addr
  | Alloc_chrdev_region int
  | Unregister_chrdev_region int int
  | Cdev_init
  | Cdev_add int
  | Cdev_del
  | Class_create errptr
  | Class_destroy errptr
  | Device_create errptr errptr
  | Device_destroy errptr int int
  | Debug_dump addr

text \<open>
  The kernel's answers. \<open>k_kmalloc\<close> and \<open>k_dev_alloc_skb\<close> return \<open>NULL\<close> when there is no
  memory, \<open>k_copy_to_user\<close> the number of bytes it could not copy, \<open>k_get_user\<close>,
  \<open>k_copy_from_user\<close> and \<open>k_memcpy_fromiovecend\<close> the bytes read or \<open>None\<close> for a fault,
  \<open>k_put_user\<close> and \<open>k_memcpy_toiovec\<close> whether the store succeeded; registering and
  unregistering a net device also say which callbacks the kernel runs meanwhile.
  \<open>k_sizeof_vnet\<close> is the size of \<open>struct vnet\<close>, which embeds kernel structures;
  \<open>k_net_ip_align\<close> is \<open>NET_IP_ALIGN\<close>. \<open>k_skb_put_fits\<close> says whether a buffer has room for the
  bytes (the kernel panics otherwise); \<open>k_eth_type_trans\<close> gives the protocol and what is
  left of the frame.
\<close>

record kernel =
  k_sizeof_vnet :: u32
  k_net_ip_align :: u32
  k_kmalloc :: "kcall list \<Rightarrow> u64 \<Rightarrow> addr"
  k_dev_alloc_skb :: "kcall list \<Rightarrow> u32 \<Rightarrow> addr"
  k_skb_put_fits :: "kcall list \<Rightarrow> addr \<Rightarrow> u32 \<Rightarrow> bool"
  k_eth_type_trans :: "kcall list \<Rightarrow> u8 list \<Rightarrow> u16 \<times> u8 list"
  k_get_user :: "kcall list \<Rightarrow> addr \<Rightarrow> u32 option"
  k_put_user :: "kcall list \<Rightarrow> addr \<Rightarrow> u32 \<Rightarrow> bool"
  k_copy_to_user :: "kcall list \<Rightarrow> addr \<Rightarrow> u8 list \<Rightarrow> nat"
  k_copy_from_user :: "kcall list \<Rightarrow> addr \<Rightarrow> u32 \<Rightarrow> u8 list option"
  k_memcpy_fromiovecend :: "kcall list \<Rightarrow> u64 \<Rightarrow> u8 list option"
  k_memcpy_toiovec :: "kcall list \<Rightarrow> u8 list \<Rightarrow> bool"
  k_alloc_netdev :: "kcall list \<Rightarrow> addr \<times> net_device"
  k_ether_setup :: "net_device \<Rightarrow> net_device"
  k_register_netdev :: "kcall list \<Rightarrow> int \<times> ndo list"
  k_unregister_netdev :: "kcall list \<Rightarrow> ndo list"
  k_alloc_chrdev_region :: "kcall list \<Rightarrow> int \<times> int \<times> int"
  k_cdev_add :: "kcall list \<Rightarrow> int"
  k_class_create :: "kcall list \<Rightarrow> errptr"
  k_device_create :: "kcall list \<Rightarrow> errptr"
  k_jiffies :: "kcall list \<Rightarrow> u64"

section \<open>The driver's view of kernel memory\<close>

record kmem =
  skbs :: "addr \<rightharpoonup> sk_buff"
  netdevs :: "addr \<rightharpoonup> net_device"
  ktrace :: "kcall list"

definition log :: "kcall \<Rightarrow> 'z kmem_scheme \<Rightarrow> 'z kmem_scheme" where
  "log e s = s\<lparr>ktrace := ktrace s @ [e]\<rparr>"

lemma log_simps [simp, kmem_simps]:
  "skbs (log e s) = skbs s"
  "netdevs (log e s) = netdevs s"
  "ktrace (log e s) = ktrace s @ [e]"
  "kmem.more (log e s) = kmem.more s"
  by (simp_all add: log_def)

text \<open>Dereferencing a socket buffer or a net device; a bad pointer is a fault.\<close>

definition skb_at :: "addr \<Rightarrow> 'z kmem_scheme \<Rightarrow> sk_buff option" where
  "skb_at p s = (if p = NULL then None else skbs s p)"

definition skb_update :: "addr \<Rightarrow> (sk_buff \<Rightarrow> sk_buff) \<Rightarrow> 'z kmem_scheme \<Rightarrow> 'z kmem_scheme option" where
  "skb_update p f s = do { b \<leftarrow> skb_at p s; Some (s\<lparr>skbs := (skbs s)(p \<mapsto> f b)\<rparr>) }"

definition netdev_at :: "addr \<Rightarrow> 'z kmem_scheme \<Rightarrow> net_device option" where
  "netdev_at p s = (if p = NULL then None else netdevs s p)"

definition netdev_update ::
    "addr \<Rightarrow> (net_device \<Rightarrow> net_device) \<Rightarrow> 'z kmem_scheme \<Rightarrow> 'z kmem_scheme option" where
  "netdev_update p f s = do { d \<leftarrow> netdev_at p s; Some (s\<lparr>netdevs := (netdevs s)(p \<mapsto> f d)\<rparr>) }"

text \<open>The link field of a queued packet (\<open>lin_specific.h\<close>).\<close>

definition SET_NEXT_PKT :: "addr \<Rightarrow> addr \<Rightarrow> 'z kmem_scheme \<Rightarrow> 'z kmem_scheme option" where
  "SET_NEXT_PKT pkt nextpkt s = skb_update pkt (\<lambda>b. b\<lparr>skb_next := nextpkt\<rparr>) s"

definition GET_NEXT_PKT :: "addr \<Rightarrow> 'z kmem_scheme \<Rightarrow> addr option" where
  "GET_NEXT_PKT pkt s = do { b \<leftarrow> skb_at pkt s; Some (skb_next b) }"

text \<open>
  Giving a socket buffer back to the kernel ends the driver's ownership of it; giving back
  one the driver does not own (a double free) is a fault.
\<close>

definition kfree_skb :: "addr \<Rightarrow> 'z kmem_scheme \<Rightarrow> 'z kmem_scheme option" where
  "kfree_skb p s = do {
     _ \<leftarrow> skb_at p s;
     Some (log (Kfree_skb p) (s\<lparr>skbs := (skbs s)(p := None)\<rparr>)) }"

lemma skb_at_SomeD: "skb_at p s = Some b \<Longrightarrow> p \<noteq> NULL \<and> skbs s p = Some b"
  by (simp add: skb_at_def split: if_splits)

section \<open>The lock as the trace shows it\<close>

text \<open>
  Reading the trace tells whether the queue lock is held: \<open>Some b\<close> says it is held iff
  \<open>b\<close>; \<open>None\<close> says the driver has locked up (it took the lock it holds, a self-deadlock
  on a spin lock), released a lock it does not hold, or made a call that may sleep while
  it held the lock.
\<close>

fun may_sleep :: "kcall \<Rightarrow> bool" where
  "may_sleep (Kmalloc n p) = True"
| "may_sleep (Get_user a r) = True"
| "may_sleep (Put_user a v r) = True"
| "may_sleep (Copy_to_user a bs r) = True"
| "may_sleep (Copy_from_user a n r) = True"
| "may_sleep (Memcpy_fromiovecend n r) = True"
| "may_sleep (Memcpy_toiovec bs r) = True"
| "may_sleep (Alloc_netdev p) = True"
| "may_sleep (Register_netdev p r) = True"
| "may_sleep (Unregister_netdev p) = True"
| "may_sleep (Free_netdev p) = True"
| "may_sleep (Alloc_chrdev_region r) = True"
| "may_sleep (Unregister_chrdev_region a b) = True"
| "may_sleep (Cdev_add r) = True"
| "may_sleep Cdev_del = True"
| "may_sleep (Class_create p) = True"
| "may_sleep (Class_destroy p) = True"
| "may_sleep (Device_create p q) = True"
| "may_sleep (Device_destroy p a b) = True"
| "may_sleep Poll_wait = True"
| "may_sleep e = False"

fun lock_step :: "kcall \<Rightarrow> bool \<Rightarrow> bool option" where
  "lock_step (Spin_lock_init l) held = Some False"
| "lock_step (Spin_lock_bh l) held = (if held then None else Some True)"
| "lock_step (Spin_unlock_bh l) held = (if held then Some False else None)"
| "lock_step e held = (if held \<and> may_sleep e then None else Some held)"

fun lock_run :: "kcall list \<Rightarrow> bool \<Rightarrow> bool option" where
  "lock_run [] held = Some held"
| "lock_run (e # es) held = do { b \<leftarrow> lock_step e held; lock_run es b }"

definition lock_of :: "'z kmem_scheme \<Rightarrow> bool option" where
  "lock_of s = lock_run (ktrace s) False"

lemma lock_run_append: "lock_run (xs @ ys) b = do { c \<leftarrow> lock_run xs b; lock_run ys c }"
  by (induction xs arbitrary: b) (auto split: bind_splits)

lemma lock_of_log [lock_simps]: "lock_of (log e s) = do { b \<leftarrow> lock_of s; lock_step e b }"
  by (simp add: lock_of_def lock_run_append split: bind_splits)

lemma lock_of_trace: "ktrace s = ktrace t \<Longrightarrow> lock_of s = lock_of t"
  by (simp add: lock_of_def)

text \<open>
  Whether the interface is up, as the trace shows it: the driver starts the transmit queue
  when the interface is opened and stops it when it is closed.
\<close>

fun up_step :: "kcall \<Rightarrow> bool \<Rightarrow> bool" where
  "up_step (Netif_start_queue p) up = True"
| "up_step (Netif_stop_queue p) up = False"
| "up_step e up = up"

definition up_in :: "kcall list \<Rightarrow> bool" where
  "up_in h = fold up_step h False"

definition up_of :: "'z kmem_scheme \<Rightarrow> bool" where
  "up_of s = up_in (ktrace s)"

lemma up_of_log [lock_simps]: "up_of (log e s) = up_step e (up_of s)"
  by (simp add: up_of_def up_in_def)

text \<open>
  What the driver holds of the kernel, newest first: the blocks it allocated and the
  registrations of its character device. \<open>None\<close> says that it released something that was
  not the newest thing it held: a block freed twice or never allocated, a class destroyed
  under its device, a region given back twice.
\<close>

datatype held = Block addr | Region | Cdev | Class errptr | Device errptr

fun held_pop :: "held \<Rightarrow> held list \<Rightarrow> held list option" where
  "held_pop r [] = None"
| "held_pop r (x # xs) = (if x = r then Some xs else None)"

fun held_step :: "kcall \<Rightarrow> held list \<Rightarrow> held list option" where
  "held_step (Kmalloc n p) rs = Some (if p = NULL then rs else Block p # rs)"
| "held_step (Kfree p) rs = held_pop (Block p) rs"
| "held_step (Alloc_chrdev_region r) rs = Some (if r = 0 then Region # rs else rs)"
| "held_step (Unregister_chrdev_region a b) rs = held_pop Region rs"
| "held_step (Cdev_add r) rs = Some (if r = 0 then Cdev # rs else rs)"
| "held_step Cdev_del rs = held_pop Cdev rs"
| "held_step (Class_create p) rs = Some (if IS_ERR p then rs else Class p # rs)"
| "held_step (Class_destroy p) rs = held_pop (Class p) rs"
| "held_step (Device_create c p) rs = Some (if IS_ERR p then rs else Device c # rs)"
| "held_step (Device_destroy c a b) rs = held_pop (Device c) rs"
| "held_step e rs = Some rs"

fun held_run :: "kcall list \<Rightarrow> held list \<Rightarrow> held list option" where
  "held_run [] rs = Some rs"
| "held_run (e # es) rs = do { rs \<leftarrow> held_step e rs; held_run es rs }"

definition held_of :: "'z kmem_scheme \<Rightarrow> held list option" where
  "held_of s = held_run (ktrace s) []"

lemma held_run_append: "held_run (xs @ ys) rs = do { rs \<leftarrow> held_run xs rs; held_run ys rs }"
  by (induction xs arbitrary: rs) (auto split: bind_splits)

lemma held_of_log [lock_simps]: "held_of (log e s) = do { rs \<leftarrow> held_of s; held_step e rs }"
  by (simp add: held_of_def held_run_append split: bind_splits)

text \<open>
  The calls that are not about the queue itself: all but taking and releasing its lock and
  freeing packets. What the trace says about the interface and about memory depends on
  these alone.
\<close>

fun queue_call :: "kcall \<Rightarrow> bool" where
  "queue_call (Spin_lock_bh l) = True"
| "queue_call (Spin_unlock_bh l) = True"
| "queue_call (Kfree_skb p) = True"
| "queue_call e = False"

definition calls_of :: "'z kmem_scheme \<Rightarrow> kcall list" where
  "calls_of s = filter (\<lambda>e. \<not> queue_call e) (ktrace s)"

lemma calls_of_log [simp]: "calls_of (log e s) = calls_of s @ (if queue_call e then [] else [e])"
  by (simp add: calls_of_def)

lemma fold_filter_neutral:
  "(\<And>e. \<not> P e \<Longrightarrow> f e = (\<lambda>x. x)) \<Longrightarrow> fold f (filter P es) x = fold f es x"
  by (induction es arbitrary: x) auto

lemma up_of_calls: "up_of s = up_in (calls_of s)"
  unfolding up_of_def up_in_def calls_of_def
  by (rule fold_filter_neutral [symmetric]) (auto simp: fun_eq_iff elim!: queue_call.elims)

lemma held_run_filter:
  "(\<And>e rs. \<not> P e \<Longrightarrow> held_step e rs = Some rs) \<Longrightarrow> held_run (filter P es) rs = held_run es rs"
  by (induction es arbitrary: rs) (auto cong: Option.bind_cong)

lemma held_of_calls: "held_of s = held_run (calls_of s) []"
  unfolding held_of_def calls_of_def
  by (rule held_run_filter [symmetric]) (auto elim!: queue_call.elims)

lemma calls_of_cong:
  "calls_of s = calls_of t \<Longrightarrow> up_of s = up_of t \<and> held_of s = held_of t"
  by (simp add: up_of_calls held_of_calls)

section \<open>Facts shared by the components\<close>

lemma skb_at_log [simp]: "skb_at p (log e s) = skb_at p s"
  and netdev_at_log [simp]: "netdev_at p (log e s) = netdev_at p s"
  by (simp_all add: skb_at_def netdev_at_def)

lemma SET_NEXT_PKT_Some [simp]:
  "p \<noteq> NULL \<Longrightarrow> skbs s p = Some b \<Longrightarrow>
   SET_NEXT_PKT p n s = Some (s\<lparr>skbs := (skbs s)(p \<mapsto> b\<lparr>skb_next := n\<rparr>)\<rparr>)"
  by (simp add: SET_NEXT_PKT_def skb_update_def skb_at_def)

lemma GET_NEXT_PKT_Some [simp]:
  "p \<noteq> NULL \<Longrightarrow> skbs s p = Some b \<Longrightarrow> GET_NEXT_PKT p s = Some (skb_next b)"
  by (simp add: GET_NEXT_PKT_def skb_at_def)

lemma kfree_skb_Some [simp]:
  "p \<noteq> NULL \<Longrightarrow> skbs s p = Some b \<Longrightarrow>
   kfree_skb p s = Some (log (Kfree_skb p) (s\<lparr>skbs := (skbs s)(p := None)\<rparr>))"
  by (simp add: kfree_skb_def skb_at_def)

end
