(* ===== verification/Utils.thy ===== *)
theory Utils
  imports Kernel
begin

text \<open>
  The locks and the memory of \<open>utils.c\<close>, and \<open>trace\<close>, which formats a log line into two
  256-byte buffers on the stack.
\<close>

section \<open>Locks\<close>

definition IS_PTR_VALID :: "addr \<Rightarrow> bool" where
  "IS_PTR_VALID x \<longleftrightarrow> x \<noteq> NULL"

definition alloc_lock :: "lock_ptr \<Rightarrow> 'z kmem_scheme \<Rightarrow> int \<times> 'z kmem_scheme" where
  "alloc_lock lock s =
     (if lock = Null_lock then (- EINVAL, s) else (0, log (Spin_lock_init lock) s))"

definition free_lock :: "lock_ptr \<Rightarrow> 'z kmem_scheme \<Rightarrow> 'z kmem_scheme" where
  "free_lock lock s = s"

definition acquire_lock :: "lock_ptr \<Rightarrow> 'z kmem_scheme \<Rightarrow> 'z kmem_scheme" where
  "acquire_lock lock s = (if lock = Null_lock then s else log (Spin_lock_bh lock) s)"

definition release_lock :: "lock_ptr \<Rightarrow> 'z kmem_scheme \<Rightarrow> 'z kmem_scheme" where
  "release_lock lock s = (if lock = Null_lock then s else log (Spin_unlock_bh lock) s)"

lemma lock_ops_simps [simp, kmem_simps]:
  "skbs (acquire_lock l s) = skbs s" "netdevs (acquire_lock l s) = netdevs s"
  "kmem.more (acquire_lock l s) = kmem.more s"
  "skbs (release_lock l s) = skbs s" "netdevs (release_lock l s) = netdevs s"
  "kmem.more (release_lock l s) = kmem.more s"
  by (simp_all add: acquire_lock_def release_lock_def)

lemma lock_of_lock_ops [lock_simps]:
  "lock_of (acquire_lock Queue_lock s) = do { b \<leftarrow> lock_of s; if b then None else Some True }"
  "lock_of (release_lock Queue_lock s) = do { b \<leftarrow> lock_of s; if b then Some False else None }"
  by (simp_all add: acquire_lock_def release_lock_def lock_of_log)

lemma up_of_lock_ops [simp, lock_simps]:
  "up_of (acquire_lock l s) = up_of s" "up_of (release_lock l s) = up_of s"
  "held_of (acquire_lock l s) = held_of s" "held_of (release_lock l s) = held_of s"
  "calls_of (acquire_lock l s) = calls_of s" "calls_of (release_lock l s) = calls_of s"
  by (simp_all add: acquire_lock_def release_lock_def up_of_log held_of_log)

section \<open>Memory\<close>

text \<open>
  The size is an \<open>int\<close>: a 64-bit length passed by a caller is cut to 32 bits, and the
  result is sign-extended to the \<open>size_t\<close> of \<open>kmalloc\<close>. A fresh block holds no
  initialised byte. The block's address is what \<open>kfree\<close> later gets.
\<close>

record kblock =
  kb_addr :: addr
  kb_mem :: block

definition alloc_size :: "u32 \<Rightarrow> u64" where
  "alloc_size sz = scast sz"

definition alloc_mem :: "kernel \<Rightarrow> u32 \<Rightarrow> 'z kmem_scheme \<Rightarrow> kblock \<times> 'z kmem_scheme" where
  "alloc_mem K sz s =
     (let p = k_kmalloc K (ktrace s) (alloc_size sz)
      in (\<lparr>kb_addr = p, kb_mem = replicate (unat (alloc_size sz)) None\<rparr>,
          log (Kmalloc (alloc_size sz) p) s))"

definition alloc_paged_mem :: "kernel \<Rightarrow> u32 \<Rightarrow> 'z kmem_scheme \<Rightarrow> kblock \<times> 'z kmem_scheme" where
  "alloc_paged_mem K sz s = alloc_mem K sz s"

definition alloc_nonpaged_mem :: "kernel \<Rightarrow> u32 \<Rightarrow> 'z kmem_scheme \<Rightarrow> kblock \<times> 'z kmem_scheme" where
  "alloc_nonpaged_mem K sz s = alloc_mem K sz s"

definition free_paged_mem :: "addr \<Rightarrow> 'z kmem_scheme \<Rightarrow> 'z kmem_scheme" where
  "free_paged_mem buf s = (if IS_PTR_VALID buf then log (Kfree buf) s else s)"

definition free_nonpaged_mem :: "addr \<Rightarrow> 'z kmem_scheme \<Rightarrow> 'z kmem_scheme" where
  "free_nonpaged_mem buf s = (if IS_PTR_VALID buf then log (Kfree buf) s else s)"

lemma alloc_size_nonneg:
  assumes "len < 2 ^ 31"
  shows "alloc_size (ucast (of_nat len :: u64)) = of_nat len"
proof -
  have "(ucast (of_nat len :: u64) :: u32) = of_nat len"
    using assms by (simp add: unsigned_of_nat take_bit_nat_eq_self)
  then show ?thesis using assms by (simp add: alloc_size_def scast_of_nat_small)
qed

section \<open>trace\<close>

text \<open>
  \<open>text\<close> is what \<open>vsnprintf\<close> would print without a limit; \<open>MODULE_NAME\<close> is \<open>"kvnet"\<close>. The
  first buffer takes at most 254 characters and the terminator (\<open>sizeof - 1\<close> is the limit
  passed). A raw line is printed as it is; otherwise \<open>sprintf\<close> writes the module's name,
  an exclamation mark, the text, a newline and the terminator into the second buffer, with
  no limit: \<open>None\<close> when this does not fit its 256 bytes. The result is the line printed.
\<close>

abbreviation (input) LOG_DBG :: u32 where "LOG_DBG \<equiv> 0x2"
abbreviation (input) LOG_INFO :: u32 where "LOG_INFO \<equiv> 0x4"
abbreviation (input) LOG_WARN :: u32 where "LOG_WARN \<equiv> 0x8"
abbreviation (input) LOG_ERR :: u32 where "LOG_ERR \<equiv> 0x16"
abbreviation (input) LOG_RAW :: u32 where "LOG_RAW \<equiv> 0x10000000"

definition dbgbuf_size :: nat where
  "dbgbuf_size = 256"

definition MODULE_NAME :: string where
  "MODULE_NAME = ''kvnet''"

definition trace :: "u32 \<Rightarrow> string \<Rightarrow> string option" where
  "trace flag text =
     (let dbgbuf1 = take (dbgbuf_size - 1 - 1) text;
          line = MODULE_NAME @ ''!'' @ dbgbuf1 @ [CHR 0x0A]
      in if flag AND LOG_RAW \<noteq> 0 then Some dbgbuf1
         else if length line + 1 \<le> dbgbuf_size then Some line else None)"

definition TRACE :: "int \<Rightarrow> u32 \<Rightarrow> string \<Rightarrow> string option option" where
  "TRACE debug_enabled flag text =
     (if flag AND LOG_DBG = 0 \<or> debug_enabled \<noteq> 0 then map_option Some (trace flag text)
      else Some None)"

text \<open>
  A line that is not raw is prefixed in a second buffer of the same size, without a limit: it
  fits only if the text has at most 248 characters, though the first buffer takes 254.
\<close>

theorem trace_fits_iff:
  "flag AND LOG_RAW = 0 \<Longrightarrow> (trace flag text \<noteq> None) = (length text \<le> 248)"
  by (auto simp: trace_def dbgbuf_size_def MODULE_NAME_def)

lemma trace_raw: "flag AND LOG_RAW \<noteq> 0 \<Longrightarrow> trace flag text = Some (take 254 text)"
  by (simp add: trace_def dbgbuf_size_def)

text \<open>
  \<open>LOG_ERR\<close> is \<open>0x16\<close>, which has the bit of \<open>LOG_DBG\<close>: while debugging is off, the lines
  that report errors are not printed, and those of \<open>LOG_INFO\<close> and \<open>LOG_WARN\<close> are.
\<close>

theorem errors_not_traced:
  "TRACE 0 LOG_ERR text = Some None \<and>
   TRACE 0 LOG_INFO text = map_option Some (trace LOG_INFO text) \<and>
   TRACE 0 LOG_WARN text = map_option Some (trace LOG_WARN text)"
  by (simp add: TRACE_def)

end
