(* ===== verification/Format.thy ===== *)
theory Format
  imports Utils
begin

text \<open>
  The text of a log line. \<open>TRACE\<close> formats its arguments with the kernel's \<open>vsnprintf\<close>: here is
  what that does with the directives the driver uses, bounds on the length of the text that
  are computed from the format and from what is known of the arguments, and what \<open>trace\<close> then
  does with the text.
\<close>

section \<open>Formatting\<close>

text \<open>
  An argument: a string, a word that is passed where the format reads an \<open>int\<close> (of a 64-bit
  value that is its low half), or a pointer.
\<close>

datatype arg = A_str string | A_word u32 | A_ptr addr

definition digit_char :: "bool \<Rightarrow> nat \<Rightarrow> char" where
  "digit_char upper d = char_of (if d < 10 then 48 + d else if upper then 55 + d else 87 + d)"

fun digits :: "bool \<Rightarrow> nat \<Rightarrow> nat \<Rightarrow> string" where
  "digits upper base n =
     (if n < base \<or> base < 2 then [digit_char upper n]
      else digits upper base (n div base) @ [digit_char upper (n mod base)])"

declare digits.simps [simp del]

text \<open>A width is always given with a leading zero in the driver: it pads with zeros.\<close>

definition pad :: "nat \<Rightarrow> string \<Rightarrow> string" where
  "pad w t = replicate (w - length t) CHR ''0'' @ t"

fun conv :: "(addr \<Rightarrow> string) \<Rightarrow> nat \<Rightarrow> char \<Rightarrow> arg \<Rightarrow> string option" where
  "conv P w c (A_str t) = (if c = CHR ''s'' then Some t else None)"
| "conv P w c (A_ptr p) = (if c = CHR ''p'' then Some (P p) else None)"
| "conv P w c (A_word n) =
     (if c = CHR ''d'' then
        Some (if sint n < 0 then CHR ''-'' # digits False 10 (nat (- sint n)) else digits False 10 (unat n))
      else if c = CHR ''u'' then Some (digits False 10 (unat n))
      else if c = CHR ''x'' then Some (pad w (digits False 16 (unat n)))
      else if c = CHR ''X'' then Some (pad w (digits True 16 (unat n)))
      else None)"

text \<open>
  The format, character by character: \<open>None\<close> between directives, \<open>Some w\<close> within one whose width
  so far is \<open>w\<close>. An argument that is missing or does not fit its directive is a fault.
\<close>

definition digit :: "char \<Rightarrow> nat option" where
  "digit c = (let n = of_char c :: nat in if 48 \<le> n \<and> n \<le> 57 then Some (n - 48) else None)"

fun vsnprintf :: "(addr \<Rightarrow> string) \<Rightarrow> nat option \<Rightarrow> string \<Rightarrow> arg list \<Rightarrow> string option" where
  "vsnprintf P m [] as = (if m = None then Some [] else None)"
| "vsnprintf P None (c # cs) as =
     (if c = CHR ''%'' then vsnprintf P (Some 0) cs as
      else map_option ((#) c) (vsnprintf P None cs as))"
| "vsnprintf P (Some w) (c # cs) as =
     (case digit c of
        Some d \<Rightarrow> vsnprintf P (Some (10 * w + d)) cs as
      | None \<Rightarrow>
          (case as of
             [] \<Rightarrow> None
           | a # as \<Rightarrow> do { t \<leftarrow> conv P w c a; ts \<leftarrow> vsnprintf P None cs as; Some (t @ ts) }))"

section \<open>How long a line can be\<close>

text \<open>
  What is known of an argument: a fixed string, one of bounded length, a fixed word, any word,
  a pointer.
\<close>

datatype kind = K_lit string | K_str nat nat | K_val u32 | K_word | K_ptr

fun of_kind :: "arg \<Rightarrow> kind \<Rightarrow> bool" where
  "of_kind (A_str t) (K_lit u) = (t = u)"
| "of_kind (A_str t) (K_str lo hi) = (lo \<le> length t \<and> length t \<le> hi)"
| "of_kind (A_word n) (K_val m) = (n = m)"
| "of_kind (A_word n) K_word = True"
| "of_kind (A_ptr p) K_ptr = True"
| "of_kind a k = False"

text \<open>The shortest and the longest output of a directive, and of a format.\<close>

fun conv_len :: "nat \<Rightarrow> char \<Rightarrow> kind \<Rightarrow> (nat \<times> nat) option" where
  "conv_len w c (K_lit u) = (if c = CHR ''s'' then Some (length u, length u) else None)"
| "conv_len w c (K_str lo hi) = (if c = CHR ''s'' then Some (lo, hi) else None)"
| "conv_len w c (K_val n) = map_option (\<lambda>t. (length t, length t)) (conv (\<lambda>_. []) w c (A_word n))"
| "conv_len w c K_ptr = (if c = CHR ''p'' then Some (16, 16) else None)"
| "conv_len w c K_word =
     (if c = CHR ''d'' then Some (1, 11) else if c = CHR ''u'' then Some (1, 10)
      else if c = CHR ''x'' \<or> c = CHR ''X'' then Some (max 1 w, max 8 w) else None)"

fun line_len :: "nat option \<Rightarrow> string \<Rightarrow> kind list \<Rightarrow> (nat \<times> nat) option" where
  "line_len m [] ks = (if m = None then Some (0, 0) else None)"
| "line_len None (c # cs) ks =
     (if c = CHR ''%'' then line_len (Some 0) cs ks
      else map_option (map_prod Suc Suc) (line_len None cs ks))"
| "line_len (Some w) (c # cs) ks =
     (case digit c of
        Some d \<Rightarrow> line_len (Some (10 * w + d)) cs ks
      | None \<Rightarrow>
          (case ks of
             [] \<Rightarrow> None
           | k # ks \<Rightarrow> do {
               (lo, hi) \<leftarrow> conv_len w c k;
               (lo', hi') \<leftarrow> line_len None cs ks;
               Some (lo + lo', hi + hi') }))"

lemma length_pad [simp]: "length (pad w t) = max w (length t)"
  by (simp add: pad_def)

lemma digits_pos: "1 \<le> length (digits u b n)"
  by (subst digits.simps) simp

lemma digits_bound: "2 \<le> b \<Longrightarrow> n < b ^ Suc k \<Longrightarrow> length (digits u b n) \<le> Suc k"
proof (induction k arbitrary: n)
  case 0
  then show ?case by (subst digits.simps) simp
next
  case (Suc k)
  show ?case
  proof (cases "n < b")
    case True
    then show ?thesis by (subst digits.simps) simp
  next
    case False
    have "n div b < b ^ Suc k" using Suc.prems by (simp add: div_less_iff_less_mult mult.commute)
    from Suc.IH [OF Suc.prems(1) this] False Suc.prems(1) show ?thesis by (subst digits.simps) simp
  qed
qed

lemma word_digits:
  "length (digits u 10 (unat (n :: u32))) \<le> 10" "length (digits u 16 (unat n)) \<le> 8"
  "sint n < 0 \<Longrightarrow> length (digits u 10 (nat (- sint n))) \<le> 10"
proof -
  have n: "unat n < 2 ^ 32" using unsigned_less [of n, where ?'a = nat] by simp
  then show "length (digits u 10 (unat n)) \<le> 10" using digits_bound [of 10 "unat n" 9 u] by simp
  show "length (digits u 16 (unat n)) \<le> 8" using n digits_bound [of 16 "unat n" 7 u] by simp
  have "- (2 ^ 31) \<le> sint n" using sint_ge [of n] by simp
  then show "length (digits u 10 (nat (- sint n))) \<le> 10" using digits_bound [of 10 "nat (- sint n)" 9 u] by simp
qed

lemma conv_word_length:
  assumes "conv_len w c K_word = Some (lo, hi)"
  shows "\<exists>t. conv P w c (A_word n) = Some t \<and> lo \<le> length t \<and> length t \<le> hi"
proof -
  consider "c = CHR ''d''" | "c = CHR ''u''" | "c = CHR ''x''" | "c = CHR ''X''"
    using assms by (auto split: if_splits)
  then show ?thesis
  proof cases
    case 1
    then show ?thesis using assms word_digits(1,3) [where n = n and u = False] digits_pos [of False 10] by auto
  next
    case 2
    then show ?thesis using assms word_digits(1) [where n = n and u = False] digits_pos [of False 10] by auto
  next
    case 3
    then have "lo = max 1 w" "hi = max 8 w" using assms by simp_all
    then show ?thesis using 3 word_digits(2) [where n = n and u = False] digits_pos [of False 16 "unat n"]
      by (simp add: max.coboundedI1 max.coboundedI2)
  next
    case 4
    then have "lo = max 1 w" "hi = max 8 w" using assms by simp_all
    then show ?thesis using 4 word_digits(2) [where n = n and u = True] digits_pos [of True 16 "unat n"]
      by (simp add: max.coboundedI1 max.coboundedI2)
  qed
qed

lemma conv_length:
  assumes "\<forall>p. length (P p) = 16" and "of_kind a k" and "conv_len w c k = Some (lo, hi)"
  shows "\<exists>t. conv P w c a = Some t \<and> lo \<le> length t \<and> length t \<le> hi"
proof (cases a)
  case (A_word n)
  with assms(2) consider "k = K_word" | "k = K_val n" by (cases k) simp_all
  then show ?thesis
  proof cases
    case 1
    with A_word conv_word_length assms(3) show ?thesis by simp
  next
    case 2
    with A_word assms(3) show ?thesis by (auto split: if_splits)
  qed
qed (use assms in \<open>cases k; auto split: if_splits\<close>)+

lemma vsnprintf_length:
  assumes "\<forall>p. length (P p) = 16" and "list_all2 of_kind as ks" and "line_len m fmt ks = Some (lo, hi)"
  shows "\<exists>t. vsnprintf P m fmt as = Some t \<and> lo \<le> length t \<and> length t \<le> hi"
  using assms
proof (induction P m fmt as arbitrary: ks lo hi rule: vsnprintf.induct)
  case (1 P m as)
  then show ?case by (auto split: if_splits)
next
  case (2 P c cs as)
  then show ?case by (fastforce split: if_splits)
next
  case (3 P w c cs as)
  show ?case
  proof (cases "digit c")
    case (Some d)
    with 3 show ?thesis by simp
  next
    case None
    with "3.prems" obtain a bs k ls where l: "as = a # bs" "ks = k # ls" "of_kind a k" "list_all2 of_kind bs ls"
      by (cases as; cases ks) auto
    from "3.prems"(3) None l(2) obtain p q r u where
      n: "conv_len w c k = Some (p, q)" "line_len None cs ls = Some (r, u)" "lo = p + r" "hi = q + u"
      by (auto split: bind_splits)
    from conv_length [OF "3.prems"(1) l(3) n(1)] obtain t where t: "conv P w c a = Some t" "p \<le> length t" "length t \<le> q" by blast
    from "3.IH"(1) [OF None l(1) t(1) "3.prems"(1) l(4) n(2)] obtain v where
      "vsnprintf P None cs bs = Some v" "r \<le> length v" "length v \<le> u" by blast
    with t n(3,4) None l(1) show ?thesis by simp
  qed
qed

section \<open>Lines that fit\<close>

text \<open>
  A call of \<open>TRACE\<close>: its flag, its format and its arguments, the name of the function first. A
  line of a table stands for the calls with any arguments of the kinds it lists.
\<close>

type_synonym log_call = "u32 \<times> string \<times> arg list"
type_synonym log_line = "u32 \<times> string \<times> kind list"

text \<open>What the line looks like when nothing of it is lost.\<close>

definition printed :: "u32 \<Rightarrow> string \<Rightarrow> string" where
  "printed flag t = (if flag AND LOG_RAW \<noteq> 0 then t else MODULE_NAME @ ''!'' @ t @ [CHR 0x0A])"

fun log_text :: "(addr \<Rightarrow> string) \<Rightarrow> log_call \<Rightarrow> string option" where
  "log_text P (flag, fmt, as) = vsnprintf P None fmt as"

text \<open>The text survives the buffers of \<open>trace\<close>.\<close>

definition whole :: "(addr \<Rightarrow> string) \<Rightarrow> log_call \<Rightarrow> bool" where
  "whole P c \<longleftrightarrow> (\<exists>t. log_text P c = Some t \<and> trace (fst c) t = Some (printed (fst c) t))"

fun call_of :: "log_call \<Rightarrow> log_line \<Rightarrow> bool" where
  "call_of (flag, fmt, as) (flag', fmt', ks) \<longleftrightarrow> flag = flag' \<and> fmt = fmt' \<and> list_all2 of_kind as ks"

text \<open>Computed from the table: the longest text leaves room for what \<open>trace\<close> adds to it.\<close>

fun fits :: "log_line \<Rightarrow> bool" where
  "fits (flag, fmt, ks) =
     (case line_len None fmt ks of
        None \<Rightarrow> False
      | Some (lo, hi) \<Rightarrow> hi \<le> (if flag AND LOG_RAW = 0 then 248 else 254))"

fun overruns :: "log_line \<Rightarrow> bool" where
  "overruns (flag, fmt, ks) =
     (case line_len None fmt ks of None \<Rightarrow> False | Some (lo, hi) \<Rightarrow> flag AND LOG_RAW = 0 \<and> 248 < lo)"

lemma trace_whole: "length t \<le> (if flag AND LOG_RAW = 0 then 248 else 254) \<Longrightarrow> trace flag t = Some (printed flag t)"
  by (auto simp: trace_def dbgbuf_size_def MODULE_NAME_def printed_def split: if_splits)

lemma trace_overrun: "flag AND LOG_RAW = 0 \<Longrightarrow> 248 < length t \<Longrightarrow> trace flag t = None"
  by (auto simp: trace_def dbgbuf_size_def MODULE_NAME_def)

lemma fits_whole:
  assumes P: "\<forall>p. length (P p) = 16" and c: "call_of c l" and f: "fits l"
  shows "whole P c"
proof -
  obtain flag fmt as ks where e: "c = (flag, fmt, as)" "l = (flag, fmt, ks)" "list_all2 of_kind as ks"
    using c by (cases c; cases l) auto
  from f e(2) obtain lo hi where l: "line_len None fmt ks = Some (lo, hi)"
    "hi \<le> (if flag AND LOG_RAW = 0 then 248 else 254)" by (auto split: option.splits)
  from vsnprintf_length [OF P e(3) l(1)] obtain t where
    t: "vsnprintf P None fmt as = Some t" "length t \<le> hi" by auto
  with l(2) show ?thesis by (simp add: whole_def trace_whole e(1))
qed

lemma overruns_None:
  assumes P: "\<forall>p. length (P p) = 16" and c: "call_of c l" and f: "overruns l"
  shows "\<exists>t. log_text P c = Some t \<and> trace (fst c) t = None"
proof -
  obtain flag fmt as ks where e: "c = (flag, fmt, as)" "l = (flag, fmt, ks)" "list_all2 of_kind as ks"
    using c by (cases c; cases l) auto
  from f e(2) obtain lo hi where l: "line_len None fmt ks = Some (lo, hi)" "flag AND LOG_RAW = 0" "248 < lo"
    by (auto split: option.splits)
  from vsnprintf_length [OF P e(3) l(1)] obtain t where
    t: "vsnprintf P None fmt as = Some t" "lo \<le> length t" by auto
  with l(2,3) show ?thesis by (simp add: trace_overrun e(1))
qed

text \<open>What \<open>TRACE\<close> does with a line of either sort.\<close>

lemma whole_TRACE:
  "whole P c \<Longrightarrow> \<exists>t. log_text P c = Some t \<and>
     TRACE d (fst c) t = Some (if fst c AND LOG_DBG = 0 \<or> d \<noteq> 0 then Some (printed (fst c) t) else None)"
  by (auto simp: whole_def TRACE_def)

end
