(* ===== verification/Checksum.thy ===== *)
theory Checksum
  imports Prelude
begin

text \<open>
  \<open>checksum\<close> and \<open>adjust_checksum\<close> of \<open>utils.c\<close>: the Internet checksum of a buffer, and its
  incremental update when some of the data changes. Reading beyond a buffer is a fault
  (\<open>None\<close>). The specification is the ones' complement sum \<open>oc_sum\<close>; the update is proved equal
  to computing the checksum anew.
\<close>

section \<open>The operations\<close>

text \<open>The loop over 16-bit words, loaded least significant byte first.\<close>

fun checksum_loop :: "u8 list \<Rightarrow> nat \<Rightarrow> u32 \<Rightarrow> (u8 list \<times> nat \<times> u32) option" where
  "checksum_loop ptr nbytes acc =
     (if 1 < nbytes then
        (case ptr of
           a # b # rest \<Rightarrow> checksum_loop rest (nbytes - 2) (acc + of_nat (unat a + 256 * unat b))
         | _ \<Rightarrow> None)
      else Some (ptr, nbytes, acc))"

declare checksum_loop.simps [simp del]

definition checksum_fold :: "u32 \<Rightarrow> u16" where
  "checksum_fold acc =
     (let acc = drop_bit 16 acc + (acc AND 0xffff);
          acc = acc + drop_bit 16 acc
      in NOT (ucast acc))"

definition checksum :: "u8 list \<Rightarrow> u32 \<Rightarrow> u16 option" where
  "checksum buff len = do {
     (ptr, nbytes, acc) \<leftarrow> checksum_loop buff (unat len) 0;
     acc \<leftarrow>
       (if nbytes = 1
        then (case ptr of [] \<Rightarrow> None | a # rest \<Rightarrow> Some (acc + of_nat (unat a)))
        else Some acc);
     Some (checksum_fold acc) }"

text \<open>\<open>ntohs\<close> and \<open>htons\<close> swap the two bytes on this machine.\<close>

definition swap16 :: "u16 \<Rightarrow> u16" where
  "swap16 w = push_bit 8 w OR drop_bit 8 w"

text \<open>The two steps of \<open>adjust_checksum\<close>, on an \<open>int\<close>, and its two loops.\<close>

definition adjust_minus :: "int \<Rightarrow> int \<Rightarrow> int" where
  "adjust_minus x w = (let x = x - w in if x \<le> 0 then (x - 1) AND 0xffff else x)"

definition adjust_plus :: "int \<Rightarrow> int \<Rightarrow> int" where
  "adjust_plus x w = (let x = x + w in if x AND 0x10000 \<noteq> 0 then (x + 1) AND 0xffff else x)"

fun adjust_loop :: "(int \<Rightarrow> int \<Rightarrow> int) \<Rightarrow> u8 list \<Rightarrow> int \<Rightarrow> int \<Rightarrow> int option" where
  "adjust_loop f ptr len x =
     (if 0 < len then
        (case ptr of
           a # b # rest \<Rightarrow> adjust_loop f rest (len - 2) (f x (256 * uint a + uint b))
         | _ \<Rightarrow> None)
      else Some x)"

declare adjust_loop.simps [simp del]

definition adjust_checksum :: "u16 \<Rightarrow> u8 list \<Rightarrow> u8 list \<Rightarrow> int \<Rightarrow> u16 option" where
  "adjust_checksum acc odata ndata len = do {
     let x = uint (NOT (swap16 acc));
     x \<leftarrow> adjust_loop adjust_minus odata len x;
     x \<leftarrow> adjust_loop adjust_plus ndata len x;
     Some (swap16 (NOT (word_of_int x))) }"

section \<open>Ones' complement sums\<close>

text \<open>The sum of the 16-bit words of a buffer, an odd last byte taken as a word of its own.\<close>

fun le_sum :: "u8 list \<Rightarrow> nat" where
  "le_sum [] = 0"
| "le_sum [a] = unat a"
| "le_sum (a # b # bs) = unat a + 256 * unat b + le_sum bs"

fun be_sum :: "u8 list \<Rightarrow> nat" where
  "be_sum [] = 0"
| "be_sum [a] = 256 * unat a"
| "be_sum (a # b # bs) = 256 * unat a + unat b + be_sum bs"

text \<open>Adding with end-around carry: the representative between 1 and 65535, or 0 for 0.\<close>

definition oc :: "nat \<Rightarrow> nat" where
  "oc n = (if n = 0 then 0 else (n - 1) mod 65535 + 1)"

lemma oc_bounds: "oc n \<le> 65535" "n \<noteq> 0 \<Longrightarrow> 0 < oc n"
  by (auto simp: oc_def)

lemma oc_mod: "oc n mod 65535 = n mod 65535"
  unfolding oc_def by (cases n) (simp_all add: mod_Suc_eq)

lemma oc_unique:
  assumes "r mod 65535 = n mod 65535" and "r \<le> 65535" and "(r = 0) = (n = 0)"
  shows "r = oc n"
proof (cases "n = 0")
  case True
  with assms show ?thesis by (simp add: oc_def)
next
  case False
  have "oc n mod 65535 = r mod 65535" using assms(1) by (simp add: oc_mod)
  moreover have "0 < oc n" "oc n \<le> 65535" "0 < r" using oc_bounds [of n] False assms(3) by auto
  moreover have "x = y" if "x mod 65535 = y mod 65535" "0 < x" "x \<le> 65535" "0 < y" "y \<le> 65535"
    for x y :: nat
  proof (cases "x = 65535 \<or> y = 65535")
    case True
    then show ?thesis using that
      by (auto simp: mod_eq_0_iff_dvd) (frule dvd_imp_le, assumption, simp)+
  next
    case False
    with that show ?thesis by simp
  qed
  ultimately show ?thesis using assms(2) by blast
qed

lemma le_be_sum: "(256 * le_sum bs) mod 65535 = be_sum bs mod 65535"
proof (induction bs rule: le_sum.induct)
  case (3 a b bs)
  have "256 * le_sum (a # b # bs) = 65535 * unat b + (256 * unat a + unat b + 256 * le_sum bs)"
    by simp
  also have "\<dots> mod 65535 = (256 * unat a + unat b + 256 * le_sum bs) mod 65535"
    by (rule mod_mult_self4)
  also have "\<dots> = (256 * unat a + unat b + be_sum bs) mod 65535"
    using 3 by (metis mod_add_right_eq)
  finally show ?case by simp
qed simp_all

lemma le_sum_append: "even (length xs) \<Longrightarrow> le_sum (xs @ ys) = le_sum xs + le_sum ys"
  by (induction xs rule: le_sum.induct) simp_all

lemma be_sum_append: "even (length xs) \<Longrightarrow> be_sum (xs @ ys) = be_sum xs + be_sum ys"
  by (induction xs rule: be_sum.induct) simp_all

lemma unat_u8_le: "unat (a :: u8) \<le> 255"
proof -
  have "unat a < 256" using unsigned_less [of a] by simp
  then show ?thesis by simp
qed

lemma le_sum_bound: "2 * le_sum bs \<le> 65535 * (length bs + 1)"
proof (induction bs rule: le_sum.induct)
  case (2 a)
  then show ?case using unat_u8_le [of a] by simp
next
  case (3 a b bs)
  then show ?case using unat_u8_le [of a] unat_u8_le [of b] by simp
qed simp

lemma le_sum_0: "(le_sum bs = 0) = (be_sum bs = 0)"
  by (induction bs rule: le_sum.induct) auto

section \<open>checksum computes the ones' complement sum\<close>

lemma checksum_loop_sum:
  assumes "nbytes \<le> length ptr"
  shows "checksum_loop ptr nbytes (of_nat k) =
    Some (drop (2 * (nbytes div 2)) ptr, nbytes mod 2,
      of_nat (k + le_sum (take (2 * (nbytes div 2)) ptr)))"
  using assms
proof (induction nbytes arbitrary: ptr k rule: less_induct)
  case (less nbytes)
  show ?case
  proof (cases "1 < nbytes")
    case False
    then show ?thesis by (subst checksum_loop.simps) auto
  next
    case True
    with less.prems obtain a b rest where ptr: "ptr = a # b # rest"
      by (cases ptr rule: le_sum.cases) auto
    obtain m where m: "nbytes = Suc (Suc m)" using True by (metis Suc_lessE less_natE One_nat_def)
    have "checksum_loop rest (nbytes - 2) (of_nat (k + (unat a + 256 * unat b))) =
      Some (drop (2 * ((nbytes - 2) div 2)) rest, (nbytes - 2) mod 2,
        of_nat (k + (unat a + 256 * unat b) + le_sum (take (2 * ((nbytes - 2) div 2)) rest)))"
      using True less.prems ptr by (intro less.IH) auto
    then show ?thesis using True ptr m
      by (subst checksum_loop.simps) (simp add: add.assoc)
  qed
qed

lemma le_sum_odd:
  "le_sum (take (2 * (n div 2)) bs) + (if n mod 2 = 1 then unat (bs ! (n - 1)) else 0) = le_sum (take n bs)"
  if "n \<le> length bs"
proof (cases "n mod 2 = 1")
  case False
  then have "2 * (n div 2) = n" by presburger
  with False show ?thesis by simp
next
  case True
  then have n: "n = Suc (2 * (n div 2))" by presburger
  let ?m = "2 * (n div 2)"
  have "take n bs = take ?m bs @ [bs ! ?m]" using that n by (metis Suc_le_lessD take_Suc_conv_app_nth)
  moreover have "even (length (take ?m bs))" using that n by (simp add: min_def)
  ultimately have "le_sum (take n bs) = le_sum (take ?m bs) + le_sum [bs ! ?m]" by (simp only: le_sum_append)
  moreover have "bs ! (n - 1) = bs ! ?m" using n by (metis diff_Suc_1)
  ultimately show ?thesis using True by simp
qed

lemma checksum_sum:
  assumes "unat len \<le> length buff"
  shows "checksum buff len = Some (checksum_fold (of_nat (le_sum (take (unat len) buff))))"
proof -
  let ?n = "unat len"
  let ?m = "2 * (?n div 2)"
  have l: "checksum_loop buff ?n 0 = Some (drop ?m buff, ?n mod 2, of_nat (le_sum (take ?m buff)))"
    using checksum_loop_sum [OF assms, of 0] by simp
  have s: "le_sum (take ?m buff) + (if ?n mod 2 = 1 then unat (buff ! (?n - 1)) else 0) =
      le_sum (take ?n buff)" by (rule le_sum_odd [OF assms])
  show ?thesis
  proof (cases "?n mod 2 = 1")
    case False
    then show ?thesis using s unfolding checksum_def l by simp
  next
    case True
    then have "?n = Suc ?m" by presburger
    then have "drop ?m buff = buff ! ?m # drop (Suc ?m) buff" "?n - 1 = ?m"
      using assms by (metis Suc_le_lessD Cons_nth_drop_Suc, metis diff_Suc_1)
    then show ?thesis using True s [symmetric] unfolding checksum_def l by simp
  qed
qed

lemma and_ffff: "(n :: nat) AND 65535 = n mod 65536" "(i :: int) AND 65535 = i mod 65536"
  using take_bit_eq_mask [of 16 n] take_bit_eq_mask [of 16 i]
  by (simp_all add: take_bit_eq_mod mask_eq_exp_minus_1)

lemma unat_not_u16: "unat (NOT w) = 65535 - unat w" for w :: u16
proof -
  have "NOT w = - 1 - w" by (simp add: not_eq_complement)
  moreover have "unat (- 1 - w) = unat (- 1 :: u16) - unat w" by (rule unat_sub) simp
  ultimately show ?thesis by (simp add: unsigned_minus_1_eq_mask mask_eq_exp_minus_1)
qed

text \<open>Folding the carries in twice leaves the ones' complement sum in the low half.\<close>

lemma fold_once:
  fixes n :: nat
  shows "(n div 65536 + n mod 65536) mod 65535 = n mod 65535"
proof -
  have "n = 65535 * (n div 65536) + (n div 65536 + n mod 65536)" by simp
  then show ?thesis by (metis mod_mult_self4)
qed

lemma fold_twice:
  assumes s1: "s1 = n div 65536 + n mod 65536" "s1 \<le> 131070"
  shows "(s1 + s1 div 65536) mod 65536 = oc n"
proof (rule oc_unique)
  let ?s2 = "s1 + s1 div 65536"
  have m1: "s1 mod 65535 = n mod 65535" by (simp only: s1(1) fold_once)
  show "?s2 mod 65536 \<le> 65535" using mod_less_divisor [of 65536 ?s2] by simp
  show "?s2 mod 65536 mod 65535 = n mod 65535"
  proof (cases "s1 < 65536")
    case False
    then have "s1 div 65536 = 1" using s1(2) by (intro div_nat_eqI) simp_all
    with False have "?s2 = (s1 - 65535) + 65536" by simp
    then have "?s2 mod 65536 = (s1 - 65535) mod 65536" by (metis mod_add_self2)
    then have "?s2 mod 65536 = s1 - 65535" using s1(2) by simp
    then show ?thesis using m1 False by (simp add: le_mod_geq)
  qed (use m1 in simp)
  show "(?s2 mod 65536 = 0) = (n = 0)"
  proof
    assume z: "?s2 mod 65536 = 0"
    show "n = 0"
    proof (cases "s1 < 65536")
      case True
      with z have "n div 65536 = 0" "n mod 65536 = 0" by (simp_all add: s1(1))
      moreover have "n = 65536 * (n div 65536) + n mod 65536" by simp
      ultimately show ?thesis by linarith
    next
      case False
      with z s1(2) show ?thesis by (simp add: div_if mod_if split: if_splits)
    qed
  qed (simp add: s1(1))
qed

lemma checksum_fold_oc:
  assumes "n < 2 ^ 32"
  shows "unat (checksum_fold (of_nat n)) = 65535 - oc n"
proof -
  define s1 where "s1 = n div 65536 + n mod 65536"
  define s2 where "s2 = s1 + s1 div 65536"
  have b: "n div 65536 < 65536" "n mod 65536 < 65536" using assms by (auto simp: less_mult_imp_div_less)
  then have s1: "s1 \<le> 131070" by (simp add: s1_def)
  have low: "s2 mod 65536 = oc n" unfolding s2_def by (rule fold_twice [OF s1_def s1])
  have u: "unat (of_nat n :: u32) = n" by (rule unat_of_nat_small) (use assms in simp)
  have "unat (of_nat n AND 0xffff :: u32) = n mod 65536" using u by (simp add: unsigned_and_eq and_ffff)
  then have t1: "drop_bit 16 (of_nat n :: u32) + (of_nat n AND 0xffff) = of_nat s1"
    using s1 u b by (intro word_unat_eq_iff [THEN iffD2])
      (simp add: unat_word_ariths unsigned_drop_bit_eq drop_bit_eq_div s1_def unat_of_nat_small)
  have us: "unat (of_nat s1 :: u32) = s1" by (rule unat_of_nat_small) (use s1 in simp)
  have t2: "of_nat s1 + drop_bit 16 (of_nat s1 :: u32) = of_nat s2"
    using us s1 by (intro word_unat_eq_iff [THEN iffD2])
      (simp add: unat_word_ariths unsigned_drop_bit_eq drop_bit_eq_div s2_def unat_of_nat_small)
  have "s2 < 2 ^ 32" using s1 by (simp add: s2_def)
  then have "unat (ucast (of_nat s2 :: u32) :: u16) = s2 mod 65536"
    by (simp add: unsigned_ucast_eq unsigned_of_nat take_bit_eq_mod)
  then have "unat (NOT (ucast (of_nat s2 :: u32) :: u16)) = 65535 - s2 mod 65536"
    by (simp add: unat_not_u16)
  then show ?thesis unfolding checksum_fold_def Let_def t1 t2 low .
qed

lemma le_sum_small: "length bs \<le> 131070 \<Longrightarrow> le_sum bs < 2 ^ 32"
  using le_sum_bound [of bs] by simp

lemma checksum_value:
  assumes "unat len \<le> length buff" and "unat len \<le> 131070"
  shows "\<exists>c. checksum buff len = Some c \<and> unat c = 65535 - oc (le_sum (take (unat len) buff))"
proof -
  have "le_sum (take (unat len) buff) < 2 ^ 32" by (rule le_sum_small) (use assms in simp)
  from checksum_fold_oc [OF this] checksum_sum [OF assms(1)] show ?thesis by simp
qed

lemma checksum_whole:
  assumes "length bs \<le> 131070"
  shows "\<exists>c. checksum bs (of_nat (length bs)) = Some c \<and> unat c = 65535 - oc (le_sum bs)"
proof -
  have "unat (of_nat (length bs) :: u32) = length bs" by (rule unat_of_nat_small) (use assms in simp)
  with checksum_value [of "of_nat (length bs)" bs] assms show ?thesis by simp
qed

section \<open>Swapping bytes\<close>

definition swap_val :: "nat \<Rightarrow> nat" where
  "swap_val v = 256 * (v mod 256) + v div 256"

lemma unat_swap16: "unat (swap16 w) = swap_val (unat w)"
proof -
  have b: "unat w < 65536" using unsigned_less [of w] by simp
  have d: "unat w div 256 < 256" using b by (simp add: less_mult_imp_div_less)
  have "push_bit 8 w OR drop_bit 8 w = push_bit 8 w + drop_bit 8 w"
    by (rule disjunctive_add [symmetric]) (auto simp: bit_simps not_le dest: bit_imp_le_length)
  moreover have "unat (push_bit 8 w) = 256 * (unat w mod 256)"
    by (simp only: unsigned_push_bit_eq take_bit_push_bit) (simp add: push_bit_eq_mult take_bit_eq_mod)
  ultimately show ?thesis
    using b d by (simp add: swap16_def swap_val_def unat_word_ariths unsigned_drop_bit_eq drop_bit_eq_div)
qed

lemma swap_val_mod: "swap_val v mod 65535 = (256 * v) mod 65535"
proof -
  have v: "v = 256 * (v div 256) + v mod 256" by simp
  have "256 * (256 * h + l) = 65535 * h + (256 * l + h)" for h l :: nat by simp
  then have "256 * v = 65535 * (v div 256) + swap_val v" using v unfolding swap_val_def by metis
  then show ?thesis by (metis mod_mult_self4)
qed

lemma swap_val_bounds:
  assumes "v \<le> 65535"
  shows "swap_val v \<le> 65535" "0 < v \<Longrightarrow> 0 < swap_val v" "65535 - swap_val v = swap_val (65535 - v)"
proof -
  define h l where "h = v div 256" and "l = v mod 256"
  have v: "v = 256 * h + l" "l < 256" "h < 256"
    using assms by (simp_all add: h_def l_def less_mult_imp_div_less)
  show "swap_val v \<le> 65535" "0 < v \<Longrightarrow> 0 < swap_val v" using v by (auto simp: swap_val_def)
  define q r where "q = 255 - h" and "r = 255 - l"
  have qr: "h + q = 255" "l + r = 255" "r < 256" using v by (simp_all add: q_def r_def)
  have "65535 - v = 256 * q + r" "65535 - (256 * l + h) = 256 * r + q" using v(1) qr by linarith+
  with v qr show "65535 - swap_val v = swap_val (65535 - v)" by (simp add: swap_val_def)
qed

section \<open>adjust_checksum keeps the checksum up to date\<close>

lemma adjust_minus_step:
  assumes "1 \<le> x" "x \<le> 65535" and "0 \<le> w" "w \<le> 65535"
  shows "adjust_minus x w mod 65535 = (x - w) mod 65535" "1 \<le> adjust_minus x w \<and> adjust_minus x w \<le> 65535"
proof -
  have "adjust_minus x w = (if x - w \<le> 0 then x - w + 65535 else x - w)"
  proof (cases "x - w \<le> 0")
    case True
    have "(x - w - 1) mod 65536 = (x - w - 1 + 65536) mod 65536" by (rule mod_add_self2 [symmetric])
    also have "x - w - 1 + 65536 = x - w + 65535" by simp
    also have "(x - w + 65535) mod 65536 = x - w + 65535"
      by (rule mod_pos_pos_trivial) (use True assms in simp_all)
    finally have "(x - w - 1) mod 65536 = x - w + 65535" .
    then show ?thesis using True by (simp add: adjust_minus_def and_ffff Let_def)
  qed (simp add: adjust_minus_def Let_def)
  then show "adjust_minus x w mod 65535 = (x - w) mod 65535"
    "1 \<le> adjust_minus x w \<and> adjust_minus x w \<le> 65535"
    using assms by auto
qed

lemma and_10000: "0 \<le> y \<Longrightarrow> y < 131072 \<Longrightarrow> (y AND 0x10000 \<noteq> 0) = (65536 \<le> y)" for y :: int
proof -
  assume y: "0 \<le> y" "y < 131072"
  have "(0x10000 :: int) = push_bit 16 1" by simp
  then have "(y AND 0x10000 \<noteq> 0) = bit y 16"
    by (metis and.commute and_exp_eq_0_iff_not_bit push_bit_of_1)
  also have "\<dots> = odd (y div 65536)" by (simp add: bit_iff_odd)
  also have "\<dots> = (65536 \<le> y)"
  proof (cases "65536 \<le> y")
    case True
    then have "y div 65536 = 1" using y by (simp add: div_pos_geq div_pos_pos_trivial)
    with True show ?thesis by simp
  next
    case False
    then have "y div 65536 = 0" using y by (simp add: div_pos_pos_trivial)
    with False show ?thesis by simp
  qed
  finally show ?thesis .
qed

lemma adjust_plus_step:
  assumes "1 \<le> x" "x \<le> 65535" and "0 \<le> w" "w \<le> 65535"
  shows "adjust_plus x w mod 65535 = (x + w) mod 65535" "1 \<le> adjust_plus x w \<and> adjust_plus x w \<le> 65535"
proof -
  have "adjust_plus x w = (if 65536 \<le> x + w then x + w - 65535 else x + w)"
  proof (cases "65536 \<le> x + w")
    case True
    have "(x + w - 65535) mod 65536 = (x + w - 65535 + 65536) mod 65536" by (rule mod_add_self2 [symmetric])
    also have "x + w - 65535 + 65536 = x + w + 1" by simp
    finally have "(x + w + 1) mod 65536 = (x + w - 65535) mod 65536" by (rule sym)
    also have "\<dots> = x + w - 65535" by (rule mod_pos_pos_trivial) (use True assms in simp_all)
    finally have "(x + w + 1) mod 65536 = x + w - 65535" .
    then show ?thesis using True assms and_10000 [of "x + w"] by (simp add: adjust_plus_def and_ffff Let_def)
  next
    case False
    then show ?thesis using assms and_10000 [of "x + w"] by (simp add: adjust_plus_def Let_def)
  qed
  moreover have "(x + w - 65535) mod 65535 = (x + w) mod 65535" by (metis mod_diff_right_eq mod_self diff_0_right)
  ultimately show "adjust_plus x w mod 65535 = (x + w) mod 65535"
    "1 \<le> adjust_plus x w \<and> adjust_plus x w \<le> 65535"
    using assms by auto
qed

text \<open>Both loops, for a step that adds or subtracts a word modulo 65535.\<close>

lemma adjust_loop_mod:
  assumes step: "\<And>x w. 1 \<le> x \<Longrightarrow> x \<le> 65535 \<Longrightarrow> 0 \<le> w \<Longrightarrow> w \<le> 65535 \<Longrightarrow>
      f x w mod 65535 = (x + c * w) mod 65535 \<and> 1 \<le> f x w \<and> f x w \<le> 65535"
    and "even (length ptr)" and "1 \<le> x" "x \<le> 65535"
  shows "\<exists>y. adjust_loop f ptr (int (length ptr)) x = Some y \<and> 1 \<le> y \<and> y \<le> 65535 \<and>
    y mod 65535 = (x + c * int (be_sum ptr)) mod 65535"
  using assms(2-)
proof (induction ptr arbitrary: x rule: be_sum.induct)
  case 1
  then show ?case by (subst adjust_loop.simps) simp
next
  case (2 a)
  then show ?case by simp
next
  case (3 a b bs)
  define w where "w = 256 * uint a + uint b"
  have "uint a \<le> 255" "uint b \<le> 255" using unat_u8_le [of a] unat_u8_le [of b] unfolding uint_nat by linarith+
  then have w: "0 \<le> w" "w \<le> 65535" by (simp_all add: w_def)
  note st = step [OF 3(3,4) w]
  from 3 st obtain y where y: "adjust_loop f bs (int (length bs)) (f x w) = Some y" "1 \<le> y" "y \<le> 65535"
      "y mod 65535 = (f x w + c * int (be_sum bs)) mod 65535" by auto
  have "adjust_loop f (a # b # bs) (int (length (a # b # bs))) x = Some y"
    using y(1) by (subst adjust_loop.simps) (simp add: w_def)
  moreover have "(f x w + c * int (be_sum bs)) mod 65535 = (x + c * w + c * int (be_sum bs)) mod 65535"
    using st by (metis mod_add_left_eq)
  moreover have "x + c * w + c * int (be_sum bs) = x + c * int (be_sum (a # b # bs))"
    by (simp add: w_def algebra_simps)
  ultimately show ?case using y by auto
qed

lemma adjust_minus_loop:
  assumes "even (length ptr)" and "1 \<le> x" "x \<le> 65535"
  shows "\<exists>y. adjust_loop adjust_minus ptr (int (length ptr)) x = Some y \<and> 1 \<le> y \<and> y \<le> 65535 \<and>
    y mod 65535 = (x - int (be_sum ptr)) mod 65535"
  using adjust_loop_mod [of adjust_minus "- 1" ptr x] adjust_minus_step assms by simp

lemma adjust_plus_loop:
  assumes "even (length ptr)" and "1 \<le> x" "x \<le> 65535"
  shows "\<exists>y. adjust_loop adjust_plus ptr (int (length ptr)) x = Some y \<and> 1 \<le> y \<and> y \<le> 65535 \<and>
    y mod 65535 = (x + int (be_sum ptr)) mod 65535"
  using adjust_loop_mod [of adjust_plus 1 ptr x] adjust_plus_step assms by simp

text \<open>The 16-bit value that represents a sum, in the two byte orders.\<close>

lemma oc_swap:
  assumes "int y mod 65535 = int (be_sum bs) mod 65535" and "0 < y" "y \<le> 65535" and "le_sum bs \<noteq> 0"
  shows "swap_val y = oc (le_sum bs)"
proof (rule oc_unique)
  have y: "y mod 65535 = be_sum bs mod 65535" using assms(1) by (metis of_nat_eq_iff zmod_int of_nat_numeral)
  have "swap_val y mod 65535 = (256 * y) mod 65535" by (rule swap_val_mod)
  also have "\<dots> = (256 * (be_sum bs mod 65535)) mod 65535" using y by (metis mod_mult_right_eq)
  also have "\<dots> = (256 * (256 * le_sum bs)) mod 65535"
    using le_be_sum [of bs] by (metis mod_mult_right_eq)
  also have "256 * (256 * le_sum bs) = le_sum bs + 65535 * le_sum bs" by simp
  also have "\<dots> mod 65535 = le_sum bs mod 65535" by (rule mod_mult_self2)
  finally show "swap_val y mod 65535 = le_sum bs mod 65535" .
  show "swap_val y \<le> 65535" "(swap_val y = 0) = (le_sum bs = 0)"
    using swap_val_bounds [OF assms(3)] assms(2,4) by simp_all
qed

text \<open>
  (C35) Replacing an even number of bytes at an even offset and adjusting the checksum gives what
  computing it anew gives, unless one of the two buffers is all zero.
\<close>

theorem adjust_checksum_recompute:
  assumes ev: "even (length pre)" "even (length old)" and len: "length new = length old"
    and small: "length (pre @ old @ post) \<le> 131070"
    and nz: "le_sum (pre @ old @ post) \<noteq> 0" "le_sum (pre @ new @ post) \<noteq> 0"
    and c: "checksum (pre @ old @ post) (of_nat (length (pre @ old @ post))) = Some c"
  shows "adjust_checksum c old new (int (length old)) =
    checksum (pre @ new @ post) (of_nat (length (pre @ new @ post)))"
proof -
  let ?N = "le_sum (pre @ old @ post)" and ?N' = "le_sum (pre @ new @ post)"
  from checksum_whole [OF small] c have uc: "unat c = 65535 - oc ?N" by simp
  define x where "x = swap_val (oc ?N)"
  have x: "unat (NOT (swap16 c)) = x"
    using uc swap_val_bounds(3) [of "unat c"] oc_bounds [of ?N] by (simp add: unat_not_u16 unat_swap16 x_def)
  have xb: "1 \<le> x" "x \<le> 65535"
    using swap_val_bounds [of "oc ?N"] oc_bounds [of ?N] nz(1) by (simp_all add: x_def)
  have "x mod 65535 = (256 * oc ?N) mod 65535" unfolding x_def by (rule swap_val_mod)
  also have "\<dots> = (256 * ?N) mod 65535" using oc_mod [of ?N] by (metis mod_mult_right_eq)
  also have "\<dots> = be_sum (pre @ old @ post) mod 65535" by (rule le_be_sum)
  finally have xm: "x mod 65535 = be_sum (pre @ old @ post) mod 65535" .
  have ui: "uint (NOT (swap16 c)) = int x" using x by (metis uint_nat)
  from adjust_minus_loop [OF ev(2), of "int x"] xb obtain y where
    y: "adjust_loop adjust_minus old (int (length old)) (int x) = Some y" "1 \<le> y" "y \<le> 65535"
      "y mod 65535 = (int x - int (be_sum old)) mod 65535" by auto
  have "even (length new)" using ev(2) len by simp
  from adjust_plus_loop [OF this y(2,3)] obtain z where
    z: "adjust_loop adjust_plus new (int (length old)) y = Some z" "1 \<le> z" "z \<le> 65535"
      "z mod 65535 = (y + int (be_sum new)) mod 65535" unfolding len by blast
  have "z mod 65535 = (int x - int (be_sum old) + int (be_sum new)) mod 65535"
    using z(4) y(4) by (metis mod_add_left_eq)
  also have "\<dots> = (int (be_sum (pre @ old @ post)) - int (be_sum old) + int (be_sum new)) mod 65535"
    using xm by (metis mod_add_left_eq mod_diff_left_eq zmod_int of_nat_numeral)
  also have "int (be_sum (pre @ old @ post)) - int (be_sum old) + int (be_sum new) = int (be_sum (pre @ new @ post))"
    using ev len by (simp add: be_sum_append)
  finally have zm: "z mod 65535 = int (be_sum (pre @ new @ post)) mod 65535" .
  define zn where "zn = nat z"
  have zn: "z = int zn" "0 < zn" "zn \<le> 65535" using z(2,3) by (simp_all add: zn_def)
  have sw: "swap_val zn = oc ?N'" using oc_swap [of zn "pre @ new @ post"] zm zn nz(2) by simp
  have "unat (of_nat zn :: u16) = zn" by (rule unat_of_nat_small) (use zn in simp)
  then have "unat (NOT (of_nat zn :: u16)) = 65535 - zn" by (simp add: unat_not_u16)
  then have r: "unat (swap16 (NOT (of_nat zn :: u16))) = 65535 - oc ?N'"
    using sw swap_val_bounds(3) [OF zn(3)] by (simp add: unat_swap16)
  have "adjust_checksum c old new (int (length old)) = Some (swap16 (NOT (of_nat zn)))"
    using y(1) z(1) zn(1) by (simp add: adjust_checksum_def ui)
  moreover have "length (pre @ new @ post) \<le> 131070" using small len by simp
  from checksum_whole [OF this] obtain d where
    d: "checksum (pre @ new @ post) (of_nat (length (pre @ new @ post))) = Some d" "unat d = 65535 - oc ?N'"
    by blast
  moreover have "swap16 (NOT (of_nat zn)) = d" using r d(2) by (metis word_unat_eq_iff)
  ultimately show ?thesis by simp
qed

section \<open>Checking a checksum, and odd lengths\<close>

text \<open>
  (C34) A receiver that computes the checksum over the data and its stored checksum gets 0.
\<close>

theorem checksum_verifies:
  assumes "even (length bs)" and "length bs + 2 \<le> 131070"
    and "checksum bs (of_nat (length bs)) = Some c"
  shows "checksum (bs @ le_bytes 2 (unat c)) (of_nat (length (bs @ le_bytes 2 (unat c)))) = Some 0"
proof -
  let ?bs = "bs @ le_bytes 2 (unat c)"
  from checksum_whole [of bs] assms have uc: "unat c = 65535 - oc (le_sum bs)" by simp
  have cb: "unat c < 65536" using unsigned_less [of c] by simp
  have "le_sum (le_bytes 2 (unat c)) = unat c mod 256 + 256 * (unat c div 256)"
    using cb by (simp add: numeral_2_eq_2 less_mult_imp_div_less)
  then have s: "le_sum ?bs = le_sum bs + unat c" using assms(1) by (simp add: le_sum_append)
  have ob: "oc (le_sum bs) \<le> 65535" by (rule oc_bounds)
  have nz: "le_sum ?bs \<noteq> 0"
  proof
    assume "le_sum ?bs = 0"
    then have "le_sum bs = 0" "unat c = 0" using s by linarith+
    with uc show False by (simp add: oc_def)
  qed
  have "(le_sum bs + unat c) mod 65535 = (oc (le_sum bs) + unat c) mod 65535"
    using oc_mod [of "le_sum bs"] by (metis mod_add_left_eq)
  also have "oc (le_sum bs) + unat c = 65535" using uc ob by simp
  finally have "le_sum ?bs mod 65535 = 0" using s by simp
  then have "65535 = oc (le_sum ?bs)" using nz by (intro oc_unique) simp_all
  moreover have "length ?bs \<le> 131070" using assms(2) by simp
  from checksum_whole [OF this] obtain d where
    "checksum ?bs (of_nat (length ?bs)) = Some d" "unat d = 65535 - oc (le_sum ?bs)" by blast
  ultimately show ?thesis by (metis diff_self_eq_0 unat_eq_zero)
qed

text \<open>\<open>adjust_checksum\<close> takes the data in pairs of bytes: an odd length reads one byte too many.\<close>

lemma adjust_loop_odd: "odd (length ptr) \<Longrightarrow> adjust_loop f ptr (int (length ptr)) x = None"
proof (induction ptr arbitrary: x rule: be_sum.induct)
  case 1
  then show ?case by simp
next
  case (2 a)
  then show ?case by (subst adjust_loop.simps) simp
next
  case (3 a b bs)
  then show ?case by (subst adjust_loop.simps) simp
qed

text \<open>
  With an odd length \<open>adjust_checksum\<close> reads a byte beyond the data.
\<close>

theorem adjust_checksum_odd:
  assumes "odd (length odata)"
  shows "adjust_checksum c odata ndata (int (length odata)) = None"
  using adjust_loop_odd [OF assms] by (simp add: adjust_checksum_def)


section \<open>The checksum on every input\<close>

lemma checksum_loop_None:
  "length ptr < n \<Longrightarrow> checksum_loop ptr n acc = None \<or>
     (\<exists>acc'. checksum_loop ptr n acc = Some ([], 1, acc'))"
proof (induction ptr n acc rule: checksum_loop.induct)
  case (1 ptr n acc)
  show ?case
  proof (cases "1 < n")
    case True
    show ?thesis
    proof (cases "\<exists>a b rest. ptr = a # b # rest")
      case True
      then obtain a b rest where p: "ptr = a # b # rest" by blast
      from 1(1) [OF \<open>1 < n\<close> p refl] 1(2) p \<open>1 < n\<close> show ?thesis
        by (subst (1 2) checksum_loop.simps) simp
    next
      case False
      with \<open>1 < n\<close> show ?thesis by (subst checksum_loop.simps) (auto split: list.splits)
    qed
  next
    case False
    with 1(2) have "ptr = []" "n = 1" by (cases ptr; simp)+
    then show ?thesis by (subst (1 2) checksum_loop.simps) simp
  qed
qed

text \<open>
  (C33) The checksum of up to 131070 bytes is the complement of their ones' complement sum; a
  length beyond the buffer reads beyond it.
\<close>

theorem checksum_correct:
  assumes "unat len \<le> 131070"
  shows "checksum buff len =
    (if unat len \<le> length buff then Some (of_nat (65535 - oc (le_sum (take (unat len) buff))))
     else None)"
proof (cases "unat len \<le> length buff")
  case True
  with checksum_value [OF True assms] show ?thesis by (metis of_nat_unat ucast_id)
next
  case False
  with checksum_loop_None [of buff "unat len" 0] show ?thesis by (auto simp: checksum_def)
qed

end
