(* ===== verification/Dump.thy ===== *)
theory Dump
  imports Checksum
begin

text \<open>
  The packet dumps of \<open>utils.c\<close>. A dump is the list of its lines, each the arguments of one
  \<open>TRACE\<close>; the buffer is the list of the bytes that may be read, and reading beyond it is a
  fault (\<open>None\<close>), whatever the length says that is passed along. \<open>NULL\<close> is the pointer \<open>None\<close>.
\<close>

section \<open>Lines\<close>

datatype dump_line =
    Enter
  | Leave
  | Warn_pointer
  | Warn_length string
  | Data_start u32
  | Data_label
  | Data_byte u8
  | Data_end
  | Eth_line "u8 list" "u8 list" u16
  | Arp_line u16 u16 u8 u8 u16
  | Arp_sender "u8 list" "u8 list"
  | Arp_target "u8 list" "u8 list"
  | Ip_line "u8 list" "u8 list" u8 u16 u16 u16

text \<open>Reading \<open>n\<close> bytes, and a 16-bit field in network order (\<open>ntohs\<close>).\<close>

definition rd :: "u8 list \<Rightarrow> nat \<Rightarrow> nat \<Rightarrow> u8 list option" where
  "rd data off n = (if off + n \<le> length data then Some (take n (drop off data)) else None)"

definition rd8 :: "u8 list \<Rightarrow> nat \<Rightarrow> u8 option" where
  "rd8 data off = do { bs \<leftarrow> rd data off 1; Some (hd bs) }"

definition rd16 :: "u8 list \<Rightarrow> nat \<Rightarrow> u16 option" where
  "rd16 data off = do { bs \<leftarrow> rd data off 2; Some (of_nat (be_val bs)) }"

text \<open>\<open>len < sizeof (...)\<close>: the \<open>int\<close> is converted to the unsigned \<open>size_t\<close>.\<close>

definition len_below :: "u32 \<Rightarrow> u64 \<Rightarrow> bool" where
  "len_below len sz \<longleftrightarrow> scast len < sz"

text \<open>
  \<open>struct ethhdr\<close> has 14 bytes, \<open>struct arphdr\<close> 8, the addresses that follow it 20, and
  \<open>struct iphdr\<close> 20.
\<close>

section \<open>The operations\<close>

fun dump_data_loop :: "u8 list \<Rightarrow> u32 \<Rightarrow> dump_line list option" where
  "dump_data_loop [] len = (if len = 0 then Some [] else None)"
| "dump_data_loop (b # bs) len =
     (if len = 0 then Some []
      else do { ls \<leftarrow> dump_data_loop bs (len - 1); Some (Data_byte b # ls) })"

definition dump_data :: "u8 list option \<Rightarrow> u32 \<Rightarrow> dump_line list option" where
  "dump_data ptr len =
     (case ptr of
        None \<Rightarrow> Some [Enter, Data_start len, Leave]
      | Some data \<Rightarrow> do {
          ls \<leftarrow> dump_data_loop data len;
          Some ([Enter, Data_start len, Data_label] @ ls @ [Data_end, Leave]) })"

text \<open>The line about an IP header at an offset, the same in both dumps.\<close>

definition IP_OFFSET :: u16 where
  "IP_OFFSET = 0x1FFF"

definition dump_ip_header :: "u8 list \<Rightarrow> nat \<Rightarrow> dump_line option" where
  "dump_ip_header data ip = do {
     frag_off \<leftarrow> rd16 data (ip + 6);
     let offset = frag_off;
     let flags = offset AND NOT IP_OFFSET;
     let offset = offset AND IP_OFFSET;
     let offset = push_bit 3 offset;
     saddr \<leftarrow> rd data (ip + 12) 4;
     daddr \<leftarrow> rd data (ip + 16) 4;
     protocol \<leftarrow> rd8 data (ip + 9);
     tot_len \<leftarrow> rd16 data (ip + 2);
     Some (Ip_line saddr daddr protocol tot_len flags offset) }"

definition dump_ip_packet :: "u8 list option \<Rightarrow> u32 \<Rightarrow> dump_line list option" where
  "dump_ip_packet ptr len =
     (case ptr of
        None \<Rightarrow> Some [Enter, Warn_pointer, Leave]
      | Some data \<Rightarrow>
          if len_below len 20 then Some [Enter, Warn_length ''IP'', Leave]
          else do { l \<leftarrow> dump_ip_header data 0; Some [Enter, l, Leave] })"

definition dump_arp :: "u8 list \<Rightarrow> nat \<Rightarrow> dump_line list option" where
  "dump_arp data ea = do {
     let ea_eth = ea + 8;
     hrd \<leftarrow> rd16 data ea;
     pro \<leftarrow> rd16 data (ea + 2);
     hln \<leftarrow> rd8 data (ea + 4);
     pln \<leftarrow> rd8 data (ea + 5);
     opc \<leftarrow> rd16 data (ea + 6);
     sha \<leftarrow> rd data ea_eth 6;
     sip \<leftarrow> rd data (ea_eth + 6) 4;
     tha \<leftarrow> rd data (ea_eth + 10) 6;
     tip \<leftarrow> rd data (ea_eth + 16) 4;
     Some [Arp_line hrd pro hln pln opc, Arp_sender sha sip, Arp_target tha tip] }"

definition dump_eth_frame :: "u8 list option \<Rightarrow> u32 \<Rightarrow> dump_line list option" where
  "dump_eth_frame ptr len =
     (case ptr of
        None \<Rightarrow> Some [Enter, Warn_pointer, Leave]
      | Some data \<Rightarrow>
          if len_below len 14 then Some [Enter, Warn_length ''ethernet'', Leave]
          else do {
            src \<leftarrow> rd data 6 6;
            dst \<leftarrow> rd data 0 6;
            proto \<leftarrow> rd16 data 12;
            let eth = Eth_line src dst proto;
            if proto = 0x0806 then
              (if len_below len 22 then Some [Enter, eth, Warn_length ''ARP'', Leave]
               else do { ls \<leftarrow> dump_arp data 14; Some ([Enter, eth] @ ls @ [Leave]) })
            else if proto = 0x0800 then
              (if len_below len 34 then Some [Enter, eth, Warn_length ''IP'', Leave]
               else do { l \<leftarrow> dump_ip_header data 14; Some [Enter, eth, l, Leave] })
            else Some [Enter, eth, Leave] })"

definition dump_skb :: "addr \<Rightarrow> dump_line list" where
  "dump_skb skb = [Enter, Leave]"

section \<open>What they read\<close>

lemma rd_None [simp]: "(rd data off n = None) = (length data < off + n)"
  by (auto simp: rd_def)

lemma rd8_None [simp]: "(rd8 data off = None) = (length data < off + 1)"
  and rd16_None [simp]: "(rd16 data off = None) = (length data < off + 2)"
  by (auto simp: rd8_def rd16_def rd_def)

lemma rd_SomeD:
  "rd data off n = Some bs \<Longrightarrow> off + n \<le> length data"
  "rd8 data off = Some b \<Longrightarrow> off + 1 \<le> length data"
  "rd16 data off = Some w \<Longrightarrow> off + 2 \<le> length data"
  by (auto simp: rd8_def rd16_def rd_def split: if_splits)

lemma rd16_split: "off + 2 \<le> length data \<Longrightarrow> \<exists>w. rd16 data off = Some w"
  by (simp add: rd16_def rd_def)

text \<open>A length that is not negative is compared as it is.\<close>

lemma len_below_nonneg:
  "n < 2 ^ 31 \<Longrightarrow> len_below (of_nat n) sz = (n < unat sz)"
  by (simp add: len_below_def scast_of_nat_small word_less_nat_alt unat_of_nat_small)

lemma len_below_negative: "len_below (- 1) sz = (- 1 < sz)"
  by (simp add: len_below_def)

text \<open>A whole IP header is always read within its 20 bytes.\<close>

lemma dump_ip_header_None: "(dump_ip_header data ip = None) = (length data < ip + 20)"
proof (cases "length data < ip + 20")
  case True
  then show ?thesis by (auto simp: dump_ip_header_def Let_def split: bind_splits dest!: rd_SomeD)
next
  case False
  then show ?thesis by (auto simp: dump_ip_header_def Let_def rd16_def rd8_def rd_def)
qed

lemma dump_arp_None: "(dump_arp data ea = None) = (length data < ea + 28)"
proof (cases "length data < ea + 28")
  case True
  then show ?thesis by (auto simp: dump_arp_def Let_def split: bind_splits dest!: rd_SomeD)
next
  case False
  then show ?thesis by (auto simp: dump_arp_def Let_def rd16_def rd8_def rd_def)
qed

section \<open>Which dumps stay inside the buffer\<close>

lemma dump_data_loop_eq:
  "dump_data_loop data len =
     (if unat len \<le> length data then Some (map Data_byte (take (unat len) data)) else None)"
proof (induction data arbitrary: len)
  case Nil
  then show ?case by (simp add: unat_eq_zero)
next
  case (Cons b bs)
  show ?case
  proof (cases "len = 0")
    case False
    then have "unat len = Suc (unat (len - 1))" by (simp add: unat_minus_one unat_gt_0)
    with False Cons show ?thesis by simp
  qed simp
qed

lemma dump_ip_packet_None:
  "(dump_ip_packet (Some data) len = None) = (\<not> len_below len 20 \<and> length data < 20)"
  using dump_ip_header_None [of data 0]
  by (cases "dump_ip_header data 0") (auto simp: dump_ip_packet_def)

definition eth_proto :: "u8 list \<Rightarrow> u16" where
  "eth_proto data = of_nat (be_val (take 2 (drop 12 data)))"

text \<open>
  (C36) Dumping a frame stays within its bytes but for one case: an ARP frame of at least 22 bytes
  is read up to its 42nd, whatever its length.
\<close>

theorem dump_eth_frame_None:
  assumes "n < 2 ^ 31" and "n \<le> length data"
  shows "(dump_eth_frame (Some data) (of_nat n) = None) =
    (22 \<le> n \<and> length data < 42 \<and> eth_proto data = 0x0806)"
proof -
  have b: "len_below (of_nat n) 14 = (n < 14)" "len_below (of_nat n) 22 = (n < 22)"
    "len_below (of_nat n) 34 = (n < 34)" using assms(1) by (simp_all add: len_below_nonneg)
  show ?thesis
  proof (cases "n < 14")
    case True
    then show ?thesis by (simp add: dump_eth_frame_def b)
  next
    case False
    have l: "14 \<le> length data" using False assms(2) by simp
    have p: "rd16 data 12 = Some (eth_proto data)" using l by (simp add: rd16_def rd_def eth_proto_def)
    have r: "rd data 6 6 = Some (take 6 (drop 6 data))" "rd data 0 6 = Some (take 6 data)"
      using l by (simp_all add: rd_def)
    consider "eth_proto data = 0x0806" | "eth_proto data = 0x0800"
      | "eth_proto data \<noteq> 0x0806" "eth_proto data \<noteq> 0x0800" by blast
    then show ?thesis
    proof cases
      case 1
      then show ?thesis using dump_arp_None [of data 14] False
        by (auto simp: dump_eth_frame_def b p r Let_def split: bind_splits)
    next
      case 2
      then show ?thesis using dump_ip_header_None [of data 14] False assms(2)
        by (auto simp: dump_eth_frame_def b p r Let_def split: bind_splits)
    next
      case 3
      then show ?thesis using False by (auto simp: dump_eth_frame_def b p r Let_def)
    qed
  qed
qed

section \<open>What the IP line says\<close>

definition be16 :: "u16 \<Rightarrow> u8 list" where
  "be16 w = rev (le_bytes 2 (unat w))"

lemma be16_val: "of_nat (be_val (be16 w)) = w" "length (be16 w) = 2"
proof -
  have "unat w < 256 ^ 2" using unsigned_less [of w] by simp
  then show "of_nat (be_val (be16 w)) = w" by (simp add: be16_def be_val_def le_val_bytes)
qed (simp add: be16_def)

text \<open>An IP header, field by field.\<close>

definition ip_header :: "u8 \<Rightarrow> u8 \<Rightarrow> u16 \<Rightarrow> u16 \<Rightarrow> u16 \<Rightarrow> u8 \<Rightarrow> u8 \<Rightarrow> u16 \<Rightarrow> u8 list \<Rightarrow> u8 list \<Rightarrow> u8 list" where
  "ip_header vihl tos tot_len ident frag ttl proto csum saddr daddr =
     [vihl, tos] @ be16 tot_len @ be16 ident @ be16 frag @ [ttl, proto] @ be16 csum @ saddr @ daddr"

text \<open>
  The dump of an IP header shows its fields: addresses, protocol, length, flags and the
  fragment offset in bytes.
\<close>

theorem dump_ip_fields:
  assumes "length saddr = 4" "length daddr = 4"
  shows "dump_ip_header (ip_header vihl tos tot_len ident frag ttl proto csum saddr daddr @ rest) 0 =
    Some (Ip_line saddr daddr proto tot_len (frag AND 0xE000) (push_bit 3 (frag AND 0x1FFF)))"
proof -
  have two: "\<exists>a b. xs = [a, b]" if "length xs = 2" for xs :: "u8 list"
    using that by (auto simp: length_Suc_conv numeral_2_eq_2)
  have four: "\<exists>a b c d. xs = [a, b, c, d]" if "length xs = 4" for xs :: "u8 list"
    using that by (auto simp: length_Suc_conv numeral_eq_Suc)
  obtain a b c d e f g h where bs: "be16 tot_len = [a, b]" "be16 ident = [c, d]" "be16 frag = [e, f]" "be16 csum = [g, h]"
    using two be16_val(2) by metis
  obtain s1 s2 s3 s4 d1 d2 d3 d4 where ad: "saddr = [s1, s2, s3, s4]" "daddr = [d1, d2, d3, d4]"
    using four assms by metis
  have v: "of_nat (be_val [a, b]) = tot_len" "of_nat (be_val [e, f]) = frag"
    using be16_val(1) [of tot_len] be16_val(1) [of frag] by (simp_all only: bs)
  let ?d = "ip_header vihl tos tot_len ident frag ttl proto csum saddr daddr @ rest"
  have r: "rd16 ?d 6 = Some frag" "rd16 ?d 2 = Some tot_len" "rd ?d 12 4 = Some saddr"
    "rd ?d 16 4 = Some daddr" "rd8 ?d 9 = Some proto"
    using v by (simp_all add: ip_header_def bs ad rd16_def rd8_def rd_def)
  have "NOT IP_OFFSET = 0xE000" by (simp add: IP_OFFSET_def)
  then show ?thesis
    by (simp add: dump_ip_header_def r r(2) [unfolded numeral_2_eq_2] Let_def) (simp add: IP_OFFSET_def)
qed

lemma ip_offset_value: "unat (push_bit 3 (frag AND 0x1FFF :: u16)) = 8 * (unat frag mod 8192)"
proof -
  have "unat (frag AND 0x1FFF) = unat frag mod 8192"
    using take_bit_eq_mask [of 13 "unat frag"]
    by (simp add: unsigned_and_eq take_bit_eq_mod mask_eq_exp_minus_1)
  moreover have "unat frag mod 8192 < 8192" by simp
  ultimately show ?thesis by (simp add: push_bit_eq_mult unat_word_ariths)
qed


section \<open>A dump of bytes\<close>

text \<open>
  \<open>dump_data\<close> shows exactly the bytes its length says, and none for \<open>NULL\<close>; a length that
  is negative or beyond the buffer makes it read beyond the buffer.
\<close>

theorem dump_data_exact:
  "dump_data ptr len =
     (case ptr of
        None \<Rightarrow> Some [Enter, Data_start len, Leave]
      | Some data \<Rightarrow>
          if unat len \<le> length data
          then Some ([Enter, Data_start len, Data_label] @ map Data_byte (take (unat len) data) @ [Data_end, Leave])
          else None)"
  by (auto simp: dump_data_def dump_data_loop_eq split: option.splits)

end
