(* ===== verification/Queue.thy ===== *)
theory Queue
  imports Utils
begin

text \<open>
  \<open>queue.c\<close>: the packet queue, a singly linked list of socket buffers through their \<open>next\<close>
  field, with a head, a tail that is stale while the queue is empty, a 32-bit counter and a
  lock. The operations whose names begin with two underscores in the sources, for callers
  that hold the lock, are named \<open>raw_queue_...\<close> here. Each operation is a function of the
  queue and of the kernel memory that holds the buffers.

  The contract of the queue is the locale \<open>packet_queue\<close>: a FIFO of packets over a pool of
  owned buffers. The locale proves the two client loops once (any script of insertions and
  removals behaves as a list, and emptying the queue frees exactly its packets); both the
  raw operations and the locked ones are interpretations of it.
\<close>

section \<open>The queue and its operations\<close>

record queue =
  q_head :: addr
  q_tail :: addr
  q_size :: u32
  q_enabled :: int

definition queue_init :: "queue \<Rightarrow> 'z kmem_scheme \<Rightarrow> int \<times> queue \<times> 'z kmem_scheme" where
  "queue_init q s =
     (let (_, s) = alloc_lock Queue_lock s
      in (0, q\<lparr>q_head := NULL, q_tail := NULL, q_size := 0, q_enabled := 0\<rparr>, s))"

definition queue_close :: "queue \<Rightarrow> 'z kmem_scheme \<Rightarrow> int \<times> queue \<times> 'z kmem_scheme" where
  "queue_close q s = (0, q, free_lock Queue_lock s)"

text \<open>\<open>queue_close\<close> warns, and only warns, about packets it leaves behind.\<close>

definition queue_close_warns :: "queue \<Rightarrow> bool" where
  "queue_close_warns q \<longleftrightarrow> IS_PTR_VALID (q_head q)"

definition raw_is_queue_enabled :: "queue \<Rightarrow> int" where
  "raw_is_queue_enabled q = q_enabled q"

definition is_queue_enabled :: "queue \<Rightarrow> 'z kmem_scheme \<Rightarrow> int \<times> queue \<times> 'z kmem_scheme" where
  "is_queue_enabled q s =
     (let s = acquire_lock Queue_lock s;
          enabled = q_enabled q;
          s = release_lock Queue_lock s
      in (enabled, q, s))"

definition raw_queue_enable :: "int \<Rightarrow> queue \<Rightarrow> queue" where
  "raw_queue_enable enable q = q\<lparr>q_enabled := enable\<rparr>"

definition queue_enable :: "int \<Rightarrow> queue \<Rightarrow> 'z kmem_scheme \<Rightarrow> queue \<times> 'z kmem_scheme" where
  "queue_enable enable q s =
     (let s = acquire_lock Queue_lock s;
          q = q\<lparr>q_enabled := enable\<rparr>;
          s = release_lock Queue_lock s
      in (q, s))"

definition raw_queue_is_empty :: "queue \<Rightarrow> int" where
  "raw_queue_is_empty q = (if q_size q = 0 then 1 else 0)"

definition queue_is_empty :: "queue \<Rightarrow> 'z kmem_scheme \<Rightarrow> int \<times> queue \<times> 'z kmem_scheme" where
  "queue_is_empty q s =
     (let s = acquire_lock Queue_lock s;
          empty = (if q_size q = 0 then 1 else 0);
          s = release_lock Queue_lock s
      in (empty, q, s))"

definition raw_queue_len :: "queue \<Rightarrow> u32" where
  "raw_queue_len q = q_size q"

definition queue_len :: "queue \<Rightarrow> 'z kmem_scheme \<Rightarrow> u32 \<times> queue \<times> 'z kmem_scheme" where
  "queue_len q s =
     (let s = acquire_lock Queue_lock s;
          len = q_size q;
          s = release_lock Queue_lock s
      in (len, q, s))"

definition raw_queue_insert ::
    "addr \<Rightarrow> queue \<Rightarrow> 'z kmem_scheme \<Rightarrow> (queue \<times> 'z kmem_scheme) option" where
  "raw_queue_insert buf q s = do {
     s \<leftarrow> SET_NEXT_PKT buf NULL s;
     (q, s) \<leftarrow>
       (if q_head q = NULL then Some (q\<lparr>q_head := buf, q_tail := buf\<rparr>, s)
        else do {
          s \<leftarrow> SET_NEXT_PKT (q_tail q) buf s;
          Some (q\<lparr>q_tail := buf\<rparr>, s) });
     Some (q\<lparr>q_size := q_size q + 1\<rparr>, s) }"

definition queue_insert ::
    "addr \<Rightarrow> queue \<Rightarrow> 'z kmem_scheme \<Rightarrow> (queue \<times> 'z kmem_scheme) option" where
  "queue_insert buf q s = do {
     let s = acquire_lock Queue_lock s;
     s \<leftarrow> SET_NEXT_PKT buf NULL s;
     (q, s) \<leftarrow>
       (if q_head q = NULL then Some (q\<lparr>q_head := buf, q_tail := buf\<rparr>, s)
        else do {
          s \<leftarrow> SET_NEXT_PKT (q_tail q) buf s;
          Some (q\<lparr>q_tail := buf\<rparr>, s) });
     let q = q\<lparr>q_size := q_size q + 1\<rparr>;
     Some (q, release_lock Queue_lock s) }"

definition raw_queue_remove ::
    "queue \<Rightarrow> 'z kmem_scheme \<Rightarrow> (addr \<times> queue \<times> 'z kmem_scheme) option" where
  "raw_queue_remove q s =
     (if IS_PTR_VALID (q_head q) then do {
        let buf = q_head q;
        nxt \<leftarrow> GET_NEXT_PKT (q_head q) s;
        let q = q\<lparr>q_head := nxt\<rparr>;
        s \<leftarrow> SET_NEXT_PKT buf NULL s;
        Some (buf, q\<lparr>q_size := q_size q - 1\<rparr>, s) }
      else Some (NULL, q, s))"

definition queue_remove ::
    "queue \<Rightarrow> 'z kmem_scheme \<Rightarrow> (addr \<times> queue \<times> 'z kmem_scheme) option" where
  "queue_remove q s = do {
     let s = acquire_lock Queue_lock s;
     (buf, q, s) \<leftarrow>
       (if IS_PTR_VALID (q_head q) then do {
          let buf = q_head q;
          nxt \<leftarrow> GET_NEXT_PKT (q_head q) s;
          let q = q\<lparr>q_head := nxt\<rparr>;
          s \<leftarrow> SET_NEXT_PKT buf NULL s;
          Some (buf, q\<lparr>q_size := q_size q - 1\<rparr>, s) }
        else Some (NULL, q, s));
     Some (buf, q, release_lock Queue_lock s) }"

section \<open>What a well-formed queue holds\<close>

text \<open>\<open>chain h p xs\<close>: following \<open>next\<close> from \<open>p\<close> visits exactly \<open>xs\<close> and ends at \<open>NULL\<close>.\<close>

fun chain :: "(addr \<rightharpoonup> sk_buff) \<Rightarrow> addr \<Rightarrow> addr list \<Rightarrow> bool" where
  "chain h p [] = (p = NULL)"
| "chain h p (x # xs) =
     (p = x \<and> x \<noteq> NULL \<and>
      (case h x of None \<Rightarrow> False | Some b \<Rightarrow> chain h (skb_next b) xs))"

definition queue_rep :: "queue \<Rightarrow> (addr \<rightharpoonup> sk_buff) \<Rightarrow> addr list \<Rightarrow> bool" where
  "queue_rep q h xs \<longleftrightarrow>
     chain h (q_head q) xs \<and> (xs \<noteq> [] \<longrightarrow> q_tail q = last xs) \<and>
     q_size q = of_nat (length xs) \<and> distinct xs"

text \<open>The payload of a buffer is everything but its link.\<close>

definition payload :: "sk_buff \<Rightarrow> sk_buff" where
  "payload b = b\<lparr>skb_next := NULL\<rparr>"

definition pool_of :: "'z kmem_scheme \<Rightarrow> addr \<rightharpoonup> sk_buff" where
  "pool_of s p = map_option payload (skbs s p)"

lemma dom_pool_of [simp]: "dom (pool_of s) = dom (skbs s)"
  by (auto simp: pool_of_def dom_def)

lemma pool_of_log [simp]: "pool_of (log e s) = pool_of s"
  and pool_of_acquire [simp]: "pool_of (acquire_lock l s) = pool_of s"
  and pool_of_release [simp]: "pool_of (release_lock l s) = pool_of s"
  by (simp_all add: fun_eq_iff pool_of_def)

lemma pool_of_relink:
  "skbs s p = Some b \<Longrightarrow> pool_of (s\<lparr>skbs := (skbs s)(p \<mapsto> b\<lparr>skb_next := n\<rparr>)\<rparr>) = pool_of s"
  by (auto simp: fun_eq_iff pool_of_def payload_def)

lemma chain_Null: "chain h NULL xs = (xs = [])"
  by (cases xs) auto

lemma chain_dom: "chain h p xs \<Longrightarrow> set xs \<subseteq> dom h \<and> NULL \<notin> set xs"
  by (induction xs arbitrary: p) (auto split: option.splits)

lemma chain_upd: "x \<notin> set xs \<Longrightarrow> chain (h(x := v)) p xs = chain h p xs"
  by (induction xs arbitrary: p) (auto split: option.splits)

lemma chain_head: "chain h p xs \<Longrightarrow> (p = NULL) = (xs = [])"
  by (cases xs) auto

lemma chain_snoc:
  assumes "chain h p xs" and "xs \<noteq> []" and "distinct xs"
    and "h (last xs) = Some t" and "h buf = Some b" and "skb_next b = NULL"
    and "buf \<notin> set xs" and "buf \<noteq> NULL"
  shows "chain (h(last xs \<mapsto> t\<lparr>skb_next := buf\<rparr>)) p (xs @ [buf])"
  using assms
proof (induction xs arbitrary: p)
  case Nil
  then show ?case by simp
next
  case (Cons x xs)
  show ?case
  proof (cases "xs = []")
    case True
    with Cons.prems show ?thesis by auto
  next
    case False
    then have "last xs \<in> set xs" by simp
    with Cons.prems have "x \<noteq> last xs" by auto
    with False Cons show ?thesis by (auto split: option.splits)
  qed
qed

lemma queue_rep_props:
  assumes "queue_rep q h xs"
  shows "distinct xs" "set xs \<subseteq> dom h" "NULL \<notin> set xs" "(q_head q = NULL) = (xs = [])"
    "q_size q = of_nat (length xs)"
  using assms chain_dom [of h "q_head q" xs] chain_head [of h "q_head q" xs]
  by (auto simp: queue_rep_def)

lemma queue_rep_upd: "p \<notin> set xs \<Longrightarrow> queue_rep q (h(p := v)) xs = queue_rep q h xs"
  by (simp add: queue_rep_def chain_upd)

lemma queue_rep_enabled [simp]: "queue_rep (q\<lparr>q_enabled := e\<rparr>) h xs = queue_rep q h xs"
  by (simp add: queue_rep_def)

lemma queue_rep_init: "queue_rep (q\<lparr>q_head := NULL, q_tail := t, q_size := 0, q_enabled := e\<rparr>) h []"
  by (simp add: queue_rep_def)

lemma queue_rep_Nil [simp]: "queue_rep q h [] = (q_head q = NULL \<and> q_size q = 0)"
  by (simp add: queue_rep_def)

section \<open>The operations on a well-formed queue\<close>

lemma raw_queue_insert_rep:
  assumes rep: "queue_rep q (skbs s) xs" and own: "skbs s p = Some b"
    and new: "p \<notin> set xs" and nn: "p \<noteq> NULL"
  shows "\<exists>q' h'. raw_queue_insert p q s = Some (q', s\<lparr>skbs := h'\<rparr>) \<and>
     queue_rep q' h' (xs @ [p]) \<and> q_enabled q' = q_enabled q \<and>
     pool_of (s\<lparr>skbs := h'\<rparr>) = pool_of s"
proof (cases "xs = []")
  case True
  with rep have "q_head q = NULL" by (auto simp: queue_rep_def)
  with True assms show ?thesis
    by (auto simp: raw_queue_insert_def queue_rep_def pool_of_relink)
next
  case False
  let ?h = "(skbs s)(p \<mapsto> b\<lparr>skb_next := NULL\<rparr>)"
  let ?s = "s\<lparr>skbs := ?h\<rparr>"
  note props = queue_rep_props [OF rep]
  from False have last: "last xs \<in> set xs" by simp
  with props have "last xs \<noteq> NULL" by metis
  with False props last have
    tl: "q_tail q = last xs" "last xs \<in> set xs" "last xs \<noteq> NULL" "q_head q \<noteq> NULL"
    using rep by (auto simp: queue_rep_def)
  with props obtain t where t: "skbs s (last xs) = Some t" by blast
  from tl new have ne: "last xs \<noteq> p" by auto
  have "chain ?h (q_head q) xs" using rep new by (simp add: queue_rep_def chain_upd)
  then have ch: "chain (?h(last xs \<mapsto> t\<lparr>skb_next := p\<rparr>)) (q_head q) (xs @ [p])"
    using False props t ne new nn by (intro chain_snoc) auto
  have ht: "skbs ?s (last xs) = Some t" using t ne by simp
  have eq: "raw_queue_insert p q s =
      Some (q\<lparr>q_tail := p, q_size := q_size q + 1\<rparr>, ?s\<lparr>skbs := ?h(last xs \<mapsto> t\<lparr>skb_next := p\<rparr>)\<rparr>)"
    using own nn tl ht by (simp add: raw_queue_insert_def)
  have "pool_of (?s\<lparr>skbs := ?h(last xs \<mapsto> t\<lparr>skb_next := p\<rparr>)\<rparr>) = pool_of ?s"
    using pool_of_relink [OF ht] by simp
  then have "pool_of (s\<lparr>skbs := ?h(last xs \<mapsto> t\<lparr>skb_next := p\<rparr>)\<rparr>) = pool_of s"
    using pool_of_relink [OF own] by simp
  moreover have "queue_rep (q\<lparr>q_tail := p, q_size := q_size q + 1\<rparr>)
      (?h(last xs \<mapsto> t\<lparr>skb_next := p\<rparr>)) (xs @ [p])"
    using ch props new by (simp add: queue_rep_def)
  ultimately show ?thesis unfolding eq by auto
qed

lemma raw_queue_remove_empty [queue_simps]:
  "queue_rep q h [] \<Longrightarrow> raw_queue_remove q s = Some (NULL, q, s)"
  by (simp add: raw_queue_remove_def IS_PTR_VALID_def queue_rep_def)

lemma raw_queue_remove_cons:
  assumes rep: "queue_rep q (skbs s) (x # xs)"
  shows "\<exists>q' h'. raw_queue_remove q s = Some (x, q', s\<lparr>skbs := h'\<rparr>) \<and>
     queue_rep q' h' xs \<and> q_enabled q' = q_enabled q \<and>
     pool_of (s\<lparr>skbs := h'\<rparr>) = pool_of s"
proof -
  from rep obtain b where b: "skbs s x = Some b" "chain (skbs s) (skb_next b) xs"
      "q_head q = x" "x \<noteq> NULL"
    by (auto simp: queue_rep_def split: option.splits)
  with rep show ?thesis
    by (auto simp: raw_queue_remove_def IS_PTR_VALID_def queue_rep_def chain_upd pool_of_relink)
qed

section \<open>The contract of a packet queue\<close>

text \<open>
  \<open>pool s\<close> maps the packets that are owned in state \<open>s\<close> to their payload and
  \<open>holds s xs\<close> says that the queue of \<open>s\<close> contains exactly \<open>xs\<close>, oldest first. Insertion
  wants an owned packet that is not queued; removal returns \<open>null\<close> exactly when the queue
  is empty; neither touches a payload; \<open>free\<close> gives up one packet that is not queued.
\<close>

datatype 'p qcmd = Insert 'p | Remove

fun run_script ::
    "('p \<Rightarrow> 's \<Rightarrow> 's option) \<Rightarrow> ('s \<Rightarrow> ('p \<times> 's) option) \<Rightarrow> 'p qcmd list \<Rightarrow> 's \<Rightarrow>
     ('p list \<times> 's) option" where
  "run_script ins rem [] s = Some ([], s)"
| "run_script ins rem (Insert p # cs) s = do { s \<leftarrow> ins p s; run_script ins rem cs s }"
| "run_script ins rem (Remove # cs) s = do {
     (p, s) \<leftarrow> rem s;
     (out, s) \<leftarrow> run_script ins rem cs s;
     Some (p # out, s) }"

text \<open>The same script on a list: what the removals return, and what is left.\<close>

fun list_script :: "'p \<Rightarrow> 'p qcmd list \<Rightarrow> 'p list \<Rightarrow> 'p list \<times> 'p list" where
  "list_script null [] xs = ([], xs)"
| "list_script null (Insert p # cs) xs = list_script null cs (xs @ [p])"
| "list_script null (Remove # cs) [] = (let (out, ys) = list_script null cs [] in (null # out, ys))"
| "list_script null (Remove # cs) (x # xs) =
     (let (out, ys) = list_script null cs xs in (x # out, ys))"

text \<open>Every insertion of the script is of an owned packet that is not in the queue.\<close>

fun script_ok :: "('p \<Rightarrow> bool) \<Rightarrow> 'p qcmd list \<Rightarrow> 'p list \<Rightarrow> bool" where
  "script_ok own [] xs = True"
| "script_ok own (Insert p # cs) xs =
     (own p \<and> p \<notin> set xs \<and> script_ok own cs (xs @ [p]))"
| "script_ok own (Remove # cs) xs = script_ok own cs (tl xs)"

locale packet_queue =
  fixes ins :: "'p \<Rightarrow> 's \<Rightarrow> 's option"
    and rem :: "'s \<Rightarrow> ('p \<times> 's) option"
    and free :: "'p \<Rightarrow> 's \<Rightarrow> 's option"
    and null :: 'p
    and pool :: "'s \<Rightarrow> 'p \<rightharpoonup> 'd"
    and holds :: "'s \<Rightarrow> 'p list \<Rightarrow> bool"
    and rest :: "'s \<Rightarrow> 'r"
  assumes holds_owned: "holds s xs \<Longrightarrow> distinct xs \<and> set xs \<subseteq> dom (pool s) \<and> null \<notin> set xs"
    and ins_holds: "holds s xs \<Longrightarrow> p \<in> dom (pool s) \<Longrightarrow> p \<noteq> null \<Longrightarrow> p \<notin> set xs \<Longrightarrow>
      \<exists>s'. ins p s = Some s' \<and> holds s' (xs @ [p]) \<and> pool s' = pool s \<and> rest s' = rest s"
    and rem_empty: "holds s [] \<Longrightarrow>
      \<exists>s'. rem s = Some (null, s') \<and> holds s' [] \<and> pool s' = pool s \<and> rest s' = rest s"
    and rem_cons: "holds s (x # xs) \<Longrightarrow>
      \<exists>s'. rem s = Some (x, s') \<and> holds s' xs \<and> pool s' = pool s \<and> rest s' = rest s"
    and free_holds: "holds s xs \<Longrightarrow> p \<in> dom (pool s) \<Longrightarrow> p \<noteq> null \<Longrightarrow> p \<notin> set xs \<Longrightarrow>
      \<exists>s'. free p s = Some s' \<and> holds s' xs \<and> pool s' = (pool s)(p := None) \<and> rest s' = rest s"
begin

lemma script_refines_list:
  assumes "holds s xs" and "script_ok (\<lambda>p. p \<in> dom (pool s) \<and> p \<noteq> null) cs xs"
  shows "\<exists>s'. run_script ins rem cs s = Some (fst (list_script null cs xs), s') \<and>
    holds s' (snd (list_script null cs xs)) \<and> pool s' = pool s \<and> rest s' = rest s"
  using assms
proof (induction cs arbitrary: xs s)
  case Nil
  then show ?case by simp
next
  case (Cons c cs)
  show ?case
  proof (cases c)
    case (Insert p)
    with Cons.prems have p: "p \<in> dom (pool s)" "p \<noteq> null" "p \<notin> set xs" by auto
    from ins_holds [OF Cons.prems(1) p] obtain s' where
      "ins p s = Some s'" "holds s' (xs @ [p])" "pool s' = pool s" "rest s' = rest s" by blast
    with Cons.IH [of s' "xs @ [p]"] Cons.prems Insert show ?thesis by simp
  next
    case Remove
    show ?thesis
    proof (cases xs)
      case Nil
      with rem_empty [of s] Cons.prems obtain s' where
        "rem s = Some (null, s')" "holds s' []" "pool s' = pool s" "rest s' = rest s" by blast
      with Cons.IH [of s' "[]"] Cons.prems Remove Nil show ?thesis by (auto simp: split_def Let_def)
    next
      case (Cons y ys)
      with rem_cons [of s y ys] Cons.prems obtain s' where
        "rem s = Some (y, s')" "holds s' ys" "pool s' = pool s" "rest s' = rest s" by blast
      with Cons.IH [of s' ys] Cons.prems Remove Cons show ?thesis by (auto simp: split_def Let_def)
    qed
  qed
qed

text \<open>A loop that removes and frees until the queue is empty.\<close>

lemma drain:
  fixes n :: "'n::comm_semiring_1"
  assumes loop: "\<And>n s. loop n s =
      do { (p, s) \<leftarrow> rem s; if p \<noteq> null then do { s \<leftarrow> free p s; loop (n + 1) s } else Some (n, s) }"
    and "holds s xs"
  shows "\<exists>s'. loop n s = Some (n + of_nat (length xs), s') \<and> holds s' [] \<and>
    pool s' = (pool s) |` (- set xs) \<and> rest s' = rest s"
  using assms(2)
proof (induction xs arbitrary: n s)
  case Nil
  from rem_empty [OF Nil] obtain s' where "rem s = Some (null, s')" "holds s' []" "pool s' = pool s" "rest s' = rest s"
    by blast
  then show ?case by (subst loop) (simp add: restrict_map_def)
next
  case (Cons x xs)
  from rem_cons [OF Cons.prems] obtain s1 where
    s1: "rem s = Some (x, s1)" "holds s1 xs" "pool s1 = pool s" "rest s1 = rest s" by blast
  from holds_owned [OF Cons.prems] have
    x: "x \<in> dom (pool s1)" "x \<noteq> null" "x \<notin> set xs" using s1 by auto
  from free_holds [OF s1(2) x] obtain s2 where
    s2: "free x s1 = Some s2" "holds s2 xs" "pool s2 = (pool s1)(x := None)" "rest s2 = rest s1" by blast
  from Cons.IH [OF s2(2), of "n + 1"] obtain s' where
    s': "loop (n + 1) s2 = Some (n + 1 + of_nat (length xs), s')" "holds s' []"
      "pool s' = (pool s2) |` (- set xs)" "rest s' = rest s2" by blast
  have "(pool s2) |` (- set xs) = (pool s) |` (- set (x # xs))"
    using s1 s2 by (auto simp: restrict_map_def fun_eq_iff)
  with s' s1 s2 x show ?case by (subst loop) (simp add: add.assoc)
qed

end

section \<open>The queue keeps the contract\<close>

definition q_pool :: "queue \<times> 'z kmem_scheme \<Rightarrow> addr \<rightharpoonup> sk_buff" where
  "q_pool qs = pool_of (snd qs)"

definition q_holds :: "queue \<times> 'z kmem_scheme \<Rightarrow> addr list \<Rightarrow> bool" where
  "q_holds qs xs \<longleftrightarrow> queue_rep (fst qs) (skbs (snd qs)) xs"

definition q_free :: "addr \<Rightarrow> queue \<times> 'z kmem_scheme \<Rightarrow> (queue \<times> 'z kmem_scheme) option" where
  "q_free p qs = do { s \<leftarrow> kfree_skb p (snd qs); Some (fst qs, s) }"

text \<open>
  What no queue operation touches: the enabled flag, the net devices, everything beyond the
  kernel memory, the calls that are not the queue's own, and for the raw operations and \<open>kfree_skb\<close> also the state of the lock.
\<close>

definition q_rest :: "queue \<times> 'z kmem_scheme \<Rightarrow> int \<times> (addr \<rightharpoonup> net_device) \<times> 'z \<times> kcall list" where
  "q_rest qs = (q_enabled (fst qs), netdevs (snd qs), kmem.more (snd qs), calls_of (snd qs))"

definition q_rest_lock ::
    "queue \<times> 'z kmem_scheme \<Rightarrow> (int \<times> (addr \<rightharpoonup> net_device) \<times> 'z \<times> kcall list) \<times> bool option" where
  "q_rest_lock qs = (q_rest qs, lock_of (snd qs))"

lemma lock_of_skbs [simp]: "lock_of (s\<lparr>skbs := h\<rparr>) = lock_of s"
  and up_of_skbs [simp]: "up_of (s\<lparr>skbs := h\<rparr>) = up_of s"
  and held_of_skbs [simp]: "held_of (s\<lparr>skbs := h\<rparr>) = held_of s"
  and calls_of_skbs [simp]: "calls_of (s\<lparr>skbs := h\<rparr>) = calls_of s"
  by (simp_all add: lock_of_def up_of_def held_of_def calls_of_def)

lemma lock_of_kfree_skb [simp]: "lock_of (log (Kfree_skb p) s) = lock_of s"
  and up_of_kfree_skb [simp]: "up_of (log (Kfree_skb p) s) = up_of s"
  by (simp_all add: lock_of_log up_of_log split: bind_splits)

lemma q_free_holds:
  assumes "q_holds qs xs" and "p \<in> dom (q_pool qs)" and "p \<noteq> NULL" and "p \<notin> set xs"
  shows "\<exists>qs'. q_free p qs = Some qs' \<and> q_holds qs' xs \<and> q_pool qs' = (q_pool qs)(p := None) \<and>
    q_rest_lock qs' = q_rest_lock qs \<and> q_rest qs' = q_rest qs"
  using assms
  by (auto simp: q_holds_def q_pool_def q_free_def queue_rep_upd fun_eq_iff pool_of_def
      q_rest_def q_rest_lock_def)

lemma q_holds_owned:
  "q_holds qs xs \<Longrightarrow> distinct xs \<and> set xs \<subseteq> dom (q_pool qs) \<and> NULL \<notin> set xs"
  by (auto simp: q_holds_def q_pool_def dest: queue_rep_props)

text \<open>The locked operations are the raw ones between taking and releasing the lock.\<close>

lemma queue_insert_raw:
  "queue_insert p q s = do {
     (q, s) \<leftarrow> raw_queue_insert p q (acquire_lock Queue_lock s);
     Some (q, release_lock Queue_lock s) }"
  by (auto simp: queue_insert_def raw_queue_insert_def Let_def split: bind_splits)

lemma queue_remove_raw:
  "queue_remove q s = do {
     (p, q, s) \<leftarrow> raw_queue_remove q (acquire_lock Queue_lock s);
     Some (p, q, release_lock Queue_lock s) }"
  by (auto simp: queue_remove_def raw_queue_remove_def Let_def split: bind_splits)

interpretation raw_q: packet_queue
  "\<lambda>p qs. raw_queue_insert p (fst qs) (snd qs)" "\<lambda>qs. raw_queue_remove (fst qs) (snd qs)"
  q_free NULL q_pool q_holds q_rest_lock
proof unfold_locales
  fix qs :: "queue \<times> 'z kmem_scheme" and xs and p
  assume "q_holds qs xs" "p \<in> dom (q_pool qs)" "p \<noteq> NULL" "p \<notin> set xs"
  then show "\<exists>s'. raw_queue_insert p (fst qs) (snd qs) = Some s' \<and> q_holds s' (xs @ [p]) \<and>
      q_pool s' = q_pool qs \<and> q_rest_lock s' = q_rest_lock qs"
    using raw_queue_insert_rep [of "fst qs" "snd qs" xs p] by (auto simp: q_holds_def q_pool_def q_rest_def q_rest_lock_def)
next
  fix qs :: "queue \<times> 'z kmem_scheme" and x and xs
  assume "q_holds qs (x # xs)"
  then show "\<exists>s'. raw_queue_remove (fst qs) (snd qs) = Some (x, s') \<and> q_holds s' xs \<and>
      q_pool s' = q_pool qs \<and> q_rest_lock s' = q_rest_lock qs"
    using raw_queue_remove_cons [of "fst qs" "snd qs" x xs] by (auto simp: q_holds_def q_pool_def q_rest_def q_rest_lock_def)
next
  fix qs :: "queue \<times> 'z kmem_scheme"
  assume "q_holds qs []"
  then show "\<exists>s'. raw_queue_remove (fst qs) (snd qs) = Some (NULL, s') \<and> q_holds s' [] \<and>
      q_pool s' = q_pool qs \<and> q_rest_lock s' = q_rest_lock qs"
    by (auto simp: q_holds_def q_pool_def q_rest_def q_rest_lock_def queue_simps)
qed (use q_holds_owned q_free_holds in blast)+

interpretation locked_q: packet_queue
  "\<lambda>p qs. queue_insert p (fst qs) (snd qs)" "\<lambda>qs. queue_remove (fst qs) (snd qs)"
  q_free NULL q_pool q_holds q_rest
proof unfold_locales
  fix qs :: "queue \<times> 'z kmem_scheme" and xs and p
  assume "q_holds qs xs" "p \<in> dom (q_pool qs)" "p \<noteq> NULL" "p \<notin> set xs"
  then show "\<exists>s'. queue_insert p (fst qs) (snd qs) = Some s' \<and> q_holds s' (xs @ [p]) \<and>
      q_pool s' = q_pool qs \<and> q_rest s' = q_rest qs"
    using raw_q.ins_holds [of "(fst qs, acquire_lock Queue_lock (snd qs))" xs p]
    by (auto simp: q_holds_def q_pool_def q_rest_def q_rest_lock_def queue_insert_raw)
next
  fix qs :: "queue \<times> 'z kmem_scheme" and x and xs
  assume "q_holds qs (x # xs)"
  then show "\<exists>s'. queue_remove (fst qs) (snd qs) = Some (x, s') \<and> q_holds s' xs \<and>
      q_pool s' = q_pool qs \<and> q_rest s' = q_rest qs"
    using raw_q.rem_cons [of "(fst qs, acquire_lock Queue_lock (snd qs))" x xs]
    by (auto simp: q_holds_def q_pool_def q_rest_def q_rest_lock_def queue_remove_raw)
next
  fix qs :: "queue \<times> 'z kmem_scheme"
  assume "q_holds qs []"
  then show "\<exists>s'. queue_remove (fst qs) (snd qs) = Some (NULL, s') \<and> q_holds s' [] \<and>
      q_pool s' = q_pool qs \<and> q_rest s' = q_rest qs"
    by (auto simp: q_holds_def q_pool_def q_rest_def q_rest_lock_def queue_simps queue_remove_raw)
qed (use q_holds_owned q_free_holds in blast)+

section \<open>The queue as the driver uses it\<close>

text \<open>
  (C13) The linked list behaves as a list under any script of insertions and removals: it
  never faults, the packets come out in the order in which they went in, removing from an
  empty queue gives \<open>NULL\<close>, and the buffers themselves are not changed.
\<close>

theorem queue_is_fifo:
  assumes "queue_rep q (skbs s) xs"
    and "script_ok (\<lambda>p. p \<in> dom (skbs s) \<and> p \<noteq> NULL) cs xs"
  shows "\<exists>q' s'. run_script (\<lambda>p qs. queue_insert p (fst qs) (snd qs))
      (\<lambda>qs. queue_remove (fst qs) (snd qs)) cs (q, s) = Some (fst (list_script NULL cs xs), q', s') \<and>
    queue_rep q' (skbs s') (snd (list_script NULL cs xs)) \<and> pool_of s' = pool_of s"
  using locked_q.script_refines_list [of "(q, s)" xs cs] assms
  by (auto simp: q_holds_def q_pool_def)

end
