(* ===== verification/Lifecycle.thy ===== *)
theory Lifecycle
  imports Prelude
begin

text \<open>
  The contract shared by every add/remove pair of the driver (\<open>vnet_init\<close> and
  \<open>vnet_close\<close>, \<open>net_dev_add\<close> and \<open>net_dev_remove\<close>, \<open>io_dev_add\<close> and \<open>io_dev_remove\<close>): adding
  either acquires the resource and returns 0, or returns an error and leaves nothing
  acquired; removing always leaves nothing acquired, and is harmless when there is nothing
  to remove.
\<close>

text \<open>Add, and remove again if that succeeded: one use of the resource.\<close>

definition one_use ::
    "('s \<Rightarrow> (int \<times> 's) option) \<Rightarrow> ('s \<Rightarrow> (int \<times> 's) option) \<Rightarrow> 's \<Rightarrow> 's option" where
  "one_use add remove s = do {
     (r, s) \<leftarrow> add s;
     if r = 0 then do { (_, s) \<leftarrow> remove s; Some s } else Some s }"

fun uses ::
    "('s \<Rightarrow> (int \<times> 's) option) \<Rightarrow> ('s \<Rightarrow> (int \<times> 's) option) \<Rightarrow> nat \<Rightarrow> 's \<Rightarrow> 's option" where
  "uses add remove 0 s = Some s"
| "uses add remove (Suc n) s = do { s \<leftarrow> one_use add remove s; uses add remove n s }"

locale lifecycle =
  fixes add :: "'s \<Rightarrow> (int \<times> 's) option"
    and remove :: "'s \<Rightarrow> (int \<times> 's) option"
    and idle :: "'s \<Rightarrow> bool"
    and busy :: "'s \<Rightarrow> bool"
  assumes add_idle: "idle s \<Longrightarrow> \<exists>r s'. add s = Some (r, s') \<and> (if r = 0 then busy s' else idle s')"
    and remove_busy: "busy s \<Longrightarrow> \<exists>s'. remove s = Some (0, s') \<and> idle s'"
begin

lemma one_use_idle: "idle s \<Longrightarrow> \<exists>s'. one_use add remove s = Some s' \<and> idle s'"
proof -
  assume "idle s"
  then obtain r s1 where a: "add s = Some (r, s1)" "if r = 0 then busy s1 else idle s1"
    using add_idle by blast
  show ?thesis
  proof (cases "r = 0")
    case True
    with a remove_busy [of s1] show ?thesis by (auto simp: one_use_def)
  next
    case False
    with a show ?thesis by (auto simp: one_use_def)
  qed
qed

lemma uses_idle: "idle s \<Longrightarrow> \<exists>s'. uses add remove n s = Some s' \<and> idle s'"
proof (induction n arbitrary: s)
  case 0
  then show ?case by simp
next
  case (Suc n)
  from one_use_idle [OF Suc.prems] obtain s1 where "one_use add remove s = Some s1" "idle s1"
    by blast
  with Suc.IH [of s1] show ?case by simp
qed

end

text \<open>A removal that is also harmless when nothing was acquired, as the rollback paths need.\<close>

locale robust_lifecycle = lifecycle +
  assumes remove_idle: "idle s \<Longrightarrow> \<exists>s'. remove s = Some (0, s') \<and> idle s'"
begin

lemma remove_any: "idle s \<or> busy s \<Longrightarrow> \<exists>s'. remove s = Some (0, s') \<and> idle s'"
  using remove_idle remove_busy by blast

lemma remove_twice:
  "idle s \<or> busy s \<Longrightarrow> \<exists>s' s''. remove s = Some (0, s') \<and> remove s' = Some (0, s'') \<and> idle s''"
  using remove_any remove_idle by blast

end

end
