(* ===== verification/Vnet.thy ===== *)
theory Vnet
  imports Queue Lifecycle
begin

text \<open>
  \<open>vnet.h\<close> and \<open>vnet.c\<close>: the one object \<open>struct vnet\<close> of the driver, reached through the
  global \<open>gs_vnet\<close>, and the driver's whole state \<open>drv\<close>. Following a \<open>NULL\<close> \<open>gs_vnet\<close> is a
  fault (\<open>None\<close>).
\<close>

section \<open>struct vnet\<close>

text \<open>Flags are \<open>int32_t\<close>; \<open>os_specific\<close> is \<open>struct os_specific_io_dev_data\<close>.\<close>

record io_dev_data =
  io_added :: int
  io_opened :: int
  io_canceled :: int
  io_major_number :: int
  io_minor_number :: int
  io_class :: errptr
  io_device :: errptr

record net_dev_data =
  vn_added :: int
  vn_connected :: int
  vn_stats :: "u32 net_stats"
  vn_queue :: queue
  vn_device :: addr

record vnet_cfg =
  cfg_mac :: "u8 list"
  cfg_max_queue_len :: u32

record vnet =
  io_dev :: io_dev_data
  net_dev :: net_dev_data
  cfg :: vnet_cfg

text \<open>The object after \<open>memset\<close> to zero.\<close>

definition zero_vnet :: vnet where
  "zero_vnet = \<lparr>
     io_dev = \<lparr>io_added = 0, io_opened = 0, io_canceled = 0, io_major_number = 0,
       io_minor_number = 0, io_class = KPtr NULL, io_device = KPtr NULL\<rparr>,
     net_dev = \<lparr>vn_added = 0, vn_connected = 0, vn_stats = zero_stats,
       vn_queue = \<lparr>q_head = NULL, q_tail = NULL, q_size = 0, q_enabled = 0\<rparr>,
       vn_device = NULL\<rparr>,
     cfg = \<lparr>cfg_mac = replicate 6 0, cfg_max_queue_len = 0\<rparr>\<rparr>"

text \<open>
  The driver: its kernel memory and trace, the global pointer (the address of the object
  and the object), and the debug switch of \<open>init.c\<close>.
\<close>

record drv = kmem +
  gs_vnet :: "(addr \<times> vnet) option"
  g_utils_debug_enabled :: int

definition vnet_dev :: "drv \<Rightarrow> vnet option" where
  "vnet_dev s = map_option snd (gs_vnet s)"

definition vnet_upd :: "(vnet \<Rightarrow> vnet) \<Rightarrow> drv \<Rightarrow> drv option" where
  "vnet_upd f s =
     (case gs_vnet s of None \<Rightarrow> None | Some (a, v) \<Rightarrow> Some (s\<lparr>gs_vnet := Some (a, f v)\<rparr>))"

text \<open>Calling a queue operation on \<open>&vnet->net_dev.queue\<close>.\<close>

definition with_queue ::
    "(queue \<Rightarrow> drv \<Rightarrow> ('a \<times> queue \<times> drv) option) \<Rightarrow> drv \<Rightarrow> ('a \<times> drv) option" where
  "with_queue f s = do {
     v \<leftarrow> vnet_dev s;
     (x, q, s) \<leftarrow> f (vn_queue (net_dev v)) s;
     s \<leftarrow> vnet_upd (net_dev_update (vn_queue_update (\<lambda>_. q))) s;
     Some (x, s) }"

section \<open>Creating and destroying the object\<close>

definition vnet_init :: "kernel \<Rightarrow> drv \<Rightarrow> int \<times> drv" where
  "vnet_init K s =
     (if gs_vnet s \<noteq> None then (- 1, s)
      else let (blk, s) = alloc_nonpaged_mem K (k_sizeof_vnet K) s in
        if \<not> IS_PTR_VALID (kb_addr blk) then (- 1, s)
        else let v = zero_vnet;
                 (_, q, s) = queue_init (vn_queue (net_dev v)) s
             in (0, s\<lparr>gs_vnet := Some (kb_addr blk, net_dev_update (vn_queue_update (\<lambda>_. q)) v)\<rparr>))"

definition vnet_close :: "drv \<Rightarrow> int \<times> drv" where
  "vnet_close s =
     (case gs_vnet s of
        None \<Rightarrow> (0, s)
      | Some (a, v) \<Rightarrow>
          let (_, _, s) = queue_close (vn_queue (net_dev v)) s;
              s = free_nonpaged_mem a s
          in (0, s\<lparr>gs_vnet := None\<rparr>))"

section \<open>Reading the state through updates\<close>

lemma vnet_dev_simps [simp, drv_simps]:
  "vnet_dev (log e s) = vnet_dev s"
  "vnet_dev (acquire_lock l s) = vnet_dev s"
  "vnet_dev (release_lock l s) = vnet_dev s"
  "gs_vnet (log e s) = gs_vnet s"
  "gs_vnet (acquire_lock l s) = gs_vnet s"
  "gs_vnet (release_lock l s) = gs_vnet s"
  "g_utils_debug_enabled (log e s) = g_utils_debug_enabled s"
  "g_utils_debug_enabled (acquire_lock l s) = g_utils_debug_enabled s"
  "g_utils_debug_enabled (release_lock l s) = g_utils_debug_enabled s"
  by (simp_all add: vnet_dev_def log_def acquire_lock_def release_lock_def)

lemma vnet_dev_skbs [simp]: "vnet_dev (s\<lparr>skbs := h\<rparr>) = vnet_dev s"
  and vnet_dev_netdevs [simp]: "vnet_dev (s\<lparr>netdevs := d\<rparr>) = vnet_dev s"
  by (simp_all add: vnet_dev_def)

lemma vnet_dev_iff: "(vnet_dev s = Some v) = (\<exists>a. gs_vnet s = Some (a, v))"
  by (auto simp: vnet_dev_def)

lemma vnet_upd_Some [simp]:
  "gs_vnet s = Some (a, v) \<Longrightarrow> vnet_upd f s = Some (s\<lparr>gs_vnet := Some (a, f v)\<rparr>)"
  by (simp add: vnet_upd_def)

lemma vnet_dev_Some [simp]: "gs_vnet s = Some (a, v) \<Longrightarrow> vnet_dev s = Some v"
  by (simp add: vnet_dev_def)

text \<open>The lock and the interface's state depend on the trace only.\<close>

lemma lock_of_updates [simp, lock_simps]:
  "lock_of (s\<lparr>netdevs := d\<rparr>) = lock_of s"
  "lock_of (t\<lparr>gs_vnet := g\<rparr>) = lock_of t"
  "up_of (s\<lparr>netdevs := d\<rparr>) = up_of s" "up_of (t\<lparr>gs_vnet := g\<rparr>) = up_of t"
  "held_of (s\<lparr>netdevs := d\<rparr>) = held_of s" "held_of (t\<lparr>gs_vnet := g\<rparr>) = held_of t"
  "calls_of (s\<lparr>netdevs := d\<rparr>) = calls_of s" "calls_of (t\<lparr>gs_vnet := g\<rparr>) = calls_of t"
  by (simp_all add: lock_of_def up_of_def held_of_def calls_of_def)

lemma pool_of_updates [simp]:
  "pool_of (s\<lparr>netdevs := d\<rparr>) = pool_of s" "pool_of (t\<lparr>gs_vnet := g\<rparr>) = pool_of t"
  by (simp_all add: pool_of_def fun_eq_iff)

section \<open>The life of the object\<close>

text \<open>The object is the only long-lived block: none is allocated without it, one with it.\<close>

definition vnet_idle :: "drv \<Rightarrow> bool" where
  "vnet_idle s \<longleftrightarrow> gs_vnet s = None \<and> held_of s = Some []"

definition vnet_busy :: "drv \<Rightarrow> bool" where
  "vnet_busy s \<longleftrightarrow> (\<exists>a v. gs_vnet s = Some (a, v) \<and> a \<noteq> NULL \<and> held_of s = Some [Block a])"

interpretation vnet_life: robust_lifecycle
  "\<lambda>s. Some (vnet_init K s)" "\<lambda>s. Some (vnet_close s)" vnet_idle vnet_busy
  for K :: kernel
  by unfold_locales
    (auto simp: vnet_init_def vnet_close_def vnet_idle_def vnet_busy_def Let_def split_def
      alloc_nonpaged_mem_def alloc_mem_def queue_init_def queue_close_def alloc_lock_def
      free_lock_def free_nonpaged_mem_def IS_PTR_VALID_def held_of_log)

end
