(* ===== verification/Kvnet_Hdr.thy ===== *)
theory Kvnet_Hdr
  imports Vnet
begin

text \<open>
  \<open>defs.h\<close>, \<open>ioctl.h\<close> and the two halves that \<open>io_read.c\<close> and \<open>io_write.c\<close> share line for line: fetching
  and checking the request header at the start, and returning the count of packets at the
  end. The structures are packed: \<open>struct kvnet_header\<close> is a 4-byte \<open>count\<close> followed by
  8-byte pointers to \<open>struct kvnet_packet\<close>, which is a 4-byte \<open>data_len\<close> followed by data.
\<close>

section \<open>Layouts\<close>

definition sizeof_kvnet_header :: u64 where
  "sizeof_kvnet_header = 12"

definition sizeof_KVNET_PTR :: u64 where
  "sizeof_KVNET_PTR = 8"

text \<open>\<open>&pkt->data_len\<close> and \<open>pkt->data\<close> for a packet at a user address.\<close>

definition pkt_data_len :: "addr \<Rightarrow> addr" where
  "pkt_data_len pkt = pkt"

definition pkt_data :: "addr \<Rightarrow> addr" where
  "pkt_data pkt = pkt + 4"

text \<open>\<open>hdr->count\<close>, \<open>hdr->pkt[i]\<close> and the store to \<open>hdr->count\<close>, in the kernel's copy.\<close>

definition hdr_count :: "block \<Rightarrow> u32 option" where
  "hdr_count m = do { bs \<leftarrow> bytes_at m 0 4; Some (of_nat (le_val bs)) }"

definition hdr_pkt :: "block \<Rightarrow> int \<Rightarrow> addr option" where
  "hdr_pkt m i = do { bs \<leftarrow> bytes_at m (4 + 8 * i) 8; Some (of_nat (le_val bs)) }"

definition set_hdr_count :: "block \<Rightarrow> u32 \<Rightarrow> block option" where
  "set_hdr_count m c = write_at m 0 (le_bytes 4 (unat c))"

text \<open>
  The length a header with \<open>count\<close> packets must have at least, computed as the code does:
  \<open>count - 1\<close> in \<open>unsigned int\<close>, the rest in \<open>size_t\<close>.
\<close>

definition header_size :: "u32 \<Rightarrow> u64" where
  "header_size count = sizeof_kvnet_header + ucast (count - 1) * sizeof_KVNET_PTR"

section \<open>Versions and ioctl numbers\<close>

text \<open>\<open>_IOC\<close> is the kernel's packing of an ioctl number.\<close>

definition KVNET_MAJOR_VERSION :: u32 where "KVNET_MAJOR_VERSION = 2"
definition KVNET_MINOR_VERSION :: u32 where "KVNET_MINOR_VERSION = 1"

definition sizeof_kvnet_info :: u32 where
  "sizeof_kvnet_info = 4 + 4 + 6"

definition ioc :: "u32 \<Rightarrow> u32 \<Rightarrow> u32 \<Rightarrow> u32 \<Rightarrow> u32" where
  "ioc dir ty nr sz = push_bit 30 dir OR push_bit 16 sz OR push_bit 8 ty OR nr"

definition KVNET_IOCTL_CANCEL_PENDING_READ :: u32 where
  "KVNET_IOCTL_CANCEL_PENDING_READ = ioc 0 0x4F 1 0"

definition KVNET_IOCTL_GET_INFO :: u32 where
  "KVNET_IOCTL_GET_INFO = ioc 2 0x4F 2 sizeof_kvnet_info"

lemma ioctl_numbers:
  "KVNET_IOCTL_CANCEL_PENDING_READ = 0x4F01" "KVNET_IOCTL_GET_INFO = 0x800E4F02"
  by (simp_all add: KVNET_IOCTL_CANCEL_PENDING_READ_def KVNET_IOCTL_GET_INFO_def ioc_def
      sizeof_kvnet_info_def push_bit_eq_mult)

section \<open>Fetching the header\<close>

text \<open>
  \<open>Inl e\<close> is an early return of the error \<open>e\<close>; \<open>Inr (hdr, count)\<close> is the copy of the header
  and its count. The result is \<open>None\<close> when the copy does not fit the block that was
  allocated.
\<close>

definition fetch_header ::
    "kernel \<Rightarrow> u64 \<Rightarrow> drv \<Rightarrow> ((int + kblock \<times> u32) \<times> drv) option" where
  "fetch_header K len s =
     (if len < sizeof_kvnet_header then Some (Inl (- EINVAL), s)
      else let (hdr, s) = alloc_paged_mem K (ucast len) s in
        if \<not> IS_PTR_VALID (kb_addr hdr) then Some (Inl (- ENOMEM), s)
        else let r = k_memcpy_fromiovecend K (ktrace s) len;
                 s = log (Memcpy_fromiovecend len r) s in
          (case r of
             None \<Rightarrow> Some (Inl (- EFAULT), free_paged_mem (kb_addr hdr) s)
           | Some bs \<Rightarrow> do {
               mem \<leftarrow> write_at (kb_mem hdr) 0 bs;
               count \<leftarrow> hdr_count mem;
               if count = 0 then Some (Inl (- EINVAL), free_paged_mem (kb_addr hdr) s)
               else if len < header_size count
               then Some (Inl (- EINVAL), free_paged_mem (kb_addr hdr) s)
               else Some (Inr (\<lparr>kb_addr = kb_addr hdr, kb_mem = mem\<rparr>, count), s) }))"

section \<open>Returning the count\<close>

text \<open>
  After the packet loop: a count is stored to the header and copied back, and the result
  is the size of a header with that many pointers; an error is returned as it is. The
  header is freed in any case.
\<close>

definition return_count :: "kernel \<Rightarrow> kblock \<Rightarrow> int \<Rightarrow> drv \<Rightarrow> (int \<times> drv) option" where
  "return_count K hdr ret s = do {
     (ret, s) \<leftarrow>
       (if 0 \<le> ret then do {
          mem \<leftarrow> set_hdr_count (kb_mem hdr) (word_of_int ret);
          bs \<leftarrow> bytes_at mem 0 4;
          let ok = k_memcpy_toiovec K (ktrace s) bs;
          let s = log (Memcpy_toiovec bs ok) s;
          if \<not> ok then Some (- EFAULT, s)
          else do {
            count \<leftarrow> hdr_count mem;
            Some (uint sizeof_kvnet_header +
              (if count \<noteq> 0 then uint (ucast (count - 1) * sizeof_KVNET_PTR) else uint count), s) } }
        else Some (ret, s));
     Some (ret, free_paged_mem (kb_addr hdr) s) }"

section \<open>A header in memory\<close>

text \<open>
  The bytes of a packed header with these fields in little-endian memory, to say what a user's
  request is; no code serialises one, the user writes the fields of the structure.
\<close>

definition header_bytes :: "u32 \<Rightarrow> addr list \<Rightarrow> u8 list" where
  "header_bytes count ptrs = le_bytes 4 (unat count) @ concat (map (\<lambda>p. le_bytes 8 (unat p)) ptrs)"

lemma length_header_bytes: "length (header_bytes count ptrs) = 4 + 8 * length ptrs"
  by (induction ptrs) (auto simp: header_bytes_def)

lemma drop_concat_uniform:
  "(\<And>x. x \<in> set xs \<Longrightarrow> length (f x) = n) \<Longrightarrow> i < length xs \<Longrightarrow>
   take n (drop (n * i) (concat (map f xs))) = f (xs ! i)"
proof (induction xs arbitrary: i)
  case Nil
  then show ?case by simp
next
  case (Cons x xs)
  then show ?case by (cases i) simp_all
qed

lemma of_nat_le_bytes: "(of_nat (le_val (le_bytes 4 (unat c))) :: u32) = c"
proof -
  have "unat c < 256 ^ 4" using unsigned_less [of c] by simp
  then have "le_val (le_bytes 4 (unat c)) = unat c" by (simp add: le_val_bytes)
  then show ?thesis by simp
qed

lemma of_nat_le_bytes8: "(of_nat (le_val (le_bytes 8 (unat c))) :: u64) = c"
proof -
  have "unat c < 256 ^ 8" using unsigned_less [of c] by simp
  then have "le_val (le_bytes 8 (unat c)) = unat c" by (simp add: le_val_bytes)
  then show ?thesis by simp
qed

text \<open>Reading back what user space wrote.\<close>

lemma hdr_count_header:
  assumes "m = map Some (header_bytes count ptrs) @ rest"
  shows "hdr_count m = Some count"
  using assms of_nat_le_bytes [of count]
  by (simp add: hdr_count_def bytes_at_def header_bytes_def length_header_bytes [unfolded header_bytes_def])

lemma hdr_pkt_header:
  assumes m: "m = map Some (header_bytes count ptrs) @ rest" and i: "i < length ptrs"
  shows "hdr_pkt m (int i) = Some (ptrs ! i)"
proof -
  have n: "nat (4 + 8 * int i) = 4 + 8 * i" by simp
  have len: "4 + 8 * i + 8 \<le> length (header_bytes count ptrs)"
    using i by (simp add: length_header_bytes)
  have "take 8 (drop (4 + 8 * i) (header_bytes count ptrs)) = le_bytes 8 (unat (ptrs ! i))"
    using drop_concat_uniform [of ptrs "\<lambda>p. le_bytes 8 (unat p)" 8 i] i by (simp add: header_bytes_def)
  then have "take 8 (drop (4 + 8 * i) m) = map Some (le_bytes 8 (unat (ptrs ! i)))"
    unfolding m using len by (simp add: drop_map take_map)
  moreover have "4 + 8 * i + 8 \<le> length m" unfolding m using len by simp
  ultimately show ?thesis
    using of_nat_le_bytes8 [of "ptrs ! i"] by (simp add: hdr_pkt_def bytes_at_def n)
qed

section \<open>The size check\<close>

text \<open>The size computation does not wrap around: it is the size of \<open>count\<close> pointers.\<close>

lemma header_size_exact:
  assumes "count \<noteq> 0"
  shows "unat (header_size count) = 4 + 8 * unat count"
proof -
  have c: "unat (count - 1) = unat count - 1" "0 < unat count"
    using assms by (simp_all add: unat_minus_one unat_gt_0)
  have b: "unat count < 2 ^ 32" using unsigned_less [of count] by simp
  have u: "unat (ucast (count - 1) :: u64) = unat count - 1"
    using c b by (simp add: unsigned_ucast_eq take_bit_nat_eq_self)
  have "unat (ucast (count - 1) * 8 :: u64) = (unat count - 1) * 8"
    using u b by (simp add: unat_word_ariths)
  then show ?thesis
    using c b by (simp add: header_size_def sizeof_kvnet_header_def sizeof_KVNET_PTR_def unat_word_ariths)
qed

text \<open>After the check, every pointer that the loops read lies inside the copy.\<close>

lemma checked_header_pkt:
  assumes "count \<noteq> 0" and "header_size count \<le> len" and "length bs = unat len"
    and "i < unat count"
  shows "hdr_pkt (map Some bs @ rest) (int i) \<noteq> None"
proof -
  have "4 + 8 * unat count \<le> unat len"
    using assms(1,2) header_size_exact by (simp add: word_le_nat_alt)
  then have "4 + 8 * i + 8 \<le> length bs" using assms(3,4) by linarith
  moreover have "nat (4 + 8 * int i) = 4 + 8 * i" by simp
  ultimately show ?thesis by (simp add: hdr_pkt_def bytes_at_def take_map drop_map)
qed

section \<open>What the two halves do\<close>

text \<open>\<open>memcpy_fromiovecend\<close>, when it succeeds, copies exactly the bytes asked for.\<close>

definition iovec_laws :: "kernel \<Rightarrow> bool" where
  "iovec_laws K \<longleftrightarrow> (\<forall>h n bs. k_memcpy_fromiovecend K h n = Some bs \<longrightarrow> length bs = unat n)"

text \<open>Two states that differ at most in the trace, with what the trace says of lock and interface.\<close>

definition same_but_trace :: "drv \<Rightarrow> drv \<Rightarrow> bool" where
  "same_but_trace s t \<longleftrightarrow> skbs t = skbs s \<and> netdevs t = netdevs s \<and> gs_vnet t = gs_vnet s \<and>
     g_utils_debug_enabled t = g_utils_debug_enabled s \<and> lock_of t = lock_of s \<and> up_of t = up_of s"

lemma same_but_trace_refl [simp]: "same_but_trace s s"
  by (simp add: same_but_trace_def)

lemma same_but_trace_trans:
  "same_but_trace s t \<Longrightarrow> same_but_trace t u \<Longrightarrow> same_but_trace s u"
  by (simp add: same_but_trace_def)

lemma same_but_trace_log:
  "lock_of s = Some False \<Longrightarrow> lock_step e False = Some False \<Longrightarrow> up_step e (up_of s) = up_of s \<Longrightarrow>
   same_but_trace s (log e s)"
  by (simp add: same_but_trace_def lock_simps)

lemma write_whole:
  assumes "length bs = n"
  shows "write_at (replicate n None) 0 bs = Some (map Some bs)"
  using assms by (simp add: write_at_def)

definition fetched :: "u64 \<Rightarrow> kblock \<Rightarrow> u32 \<Rightarrow> bool" where
  "fetched len hdr count \<longleftrightarrow> kb_addr hdr \<noteq> NULL \<and> count \<noteq> 0 \<and> header_size count \<le> len \<and>
     hdr_count (kb_mem hdr) = Some count \<and>
     (\<exists>bs. kb_mem hdr = map Some bs \<and> length bs = unat len)"

text \<open>A request that was copied whole: its count, and the checks of it.\<close>

lemma fetch_header_copied:
  assumes len: "12 \<le> unat len" "unat len < 2 ^ 31" and p: "p = k_kmalloc K (ktrace s) len" "p \<noteq> NULL"
    and bs: "k_memcpy_fromiovecend K (ktrace s @ [Kmalloc len p]) len = Some bs" "length bs = unat len"
    and t: "t = log (Memcpy_fromiovecend len (Some bs)) (log (Kmalloc len p) s)"
  shows "\<exists>count. hdr_count (map Some bs) = Some count \<and>
    fetch_header K len s =
      (if count = 0 \<or> len < header_size count then Some (Inl (- EINVAL), free_paged_mem p t)
       else Some (Inr (\<lparr>kb_addr = p, kb_mem = map Some bs\<rparr>, count), t))"
proof -
  have sz: "alloc_size (ucast len) = len" using alloc_size_nonneg [OF len(2)] by simp
  have am: "alloc_paged_mem K (ucast len) s = (\<lparr>kb_addr = p, kb_mem = replicate (unat len) None\<rparr>, log (Kmalloc len p) s)"
    by (simp add: alloc_paged_mem_def alloc_mem_def sz p(1) Let_def)
  have "\<not> len < sizeof_kvnet_header" using len(1) by (simp add: sizeof_kvnet_header_def word_less_nat_alt not_less)
  moreover from len(1) bs(2) obtain count where "hdr_count (map Some bs) = Some count"
    by (auto simp: hdr_count_def bytes_at_def take_map)
  ultimately show ?thesis
    using am p(2) bs(1) write_whole [OF bs(2)] by (simp add: fetch_header_def IS_PTR_VALID_def t Let_def)
qed

lemma fetch_header_safe:
  assumes K: "iovec_laws K" and len: "unat len < 2 ^ 31" and lk: "lock_of s = Some False"
  shows "\<exists>r s'. fetch_header K len s = Some (r, s') \<and> same_but_trace s s' \<and>
    (case r of
       Inl e \<Rightarrow> e \<in> {- EINVAL, - ENOMEM, - EFAULT} \<and> held_of s' = held_of s
     | Inr (hdr, count) \<Rightarrow> fetched len hdr count \<and> 
         held_of s' = do { rs \<leftarrow> held_of s; Some (Block (kb_addr hdr) # rs) })"
proof -
  define p where "p = k_kmalloc K (ktrace s) len"
  define s1 where "s1 = log (Kmalloc len p) s"
  define r where "r = k_memcpy_fromiovecend K (ktrace s1) len"
  define s2 where "s2 = log (Memcpy_fromiovecend len r) s1"
  have sz: "alloc_size (ucast len) = len"
    using alloc_size_nonneg [OF len] by simp
  have am: "alloc_paged_mem K (ucast len) s = (\<lparr>kb_addr = p, kb_mem = replicate (unat len) None\<rparr>, s1)"
    by (simp add: alloc_paged_mem_def alloc_mem_def sz p_def s1_def Let_def)
  have e1: "same_but_trace s s1" and e2: "same_but_trace s s2"
    and e3: "same_but_trace s (free_paged_mem p s2)"
    using lk by (simp_all add: s1_def s2_def free_paged_mem_def same_but_trace_def lock_simps)
  have l1: "held_of s1 = (if p = NULL then held_of s else do { rs \<leftarrow> held_of s; Some (Block p # rs) })"
    and l2: "p \<noteq> NULL \<Longrightarrow> held_of s2 = do { rs \<leftarrow> held_of s; Some (Block p # rs) }"
    and l3: "p \<noteq> NULL \<Longrightarrow> held_of (free_paged_mem p s2) = held_of s"
    by (simp_all add: s1_def s2_def free_paged_mem_def IS_PTR_VALID_def lock_simps)
  show ?thesis
  proof (cases "len < sizeof_kvnet_header \<or> p = NULL \<or> r = None")
    case True
    then show ?thesis
      using am e1 e3 l1 l3 by (auto simp: fetch_header_def IS_PTR_VALID_def r_def s2_def Let_def)
  next
    case False
    then obtain bs where bs: "r = Some bs" by blast
    then have lbs: "length bs = unat len" using K by (auto simp: iovec_laws_def r_def)
    have "unat sizeof_kvnet_header = 12" by (simp add: sizeof_kvnet_header_def)
    with False have l: "12 \<le> unat len" by (simp add: word_less_nat_alt not_less)
    have "k_memcpy_fromiovecend K (ktrace s @ [Kmalloc len p]) len = Some bs"
      using bs by (simp add: r_def s1_def)
    from fetch_header_copied [OF l len p_def _ this lbs refl] False bs obtain count where
      c: "hdr_count (map Some bs) = Some count"
      and fh: "fetch_header K len s =
        (if count = 0 \<or> len < header_size count then Some (Inl (- EINVAL), free_paged_mem p s2)
         else Some (Inr (\<lparr>kb_addr = p, kb_mem = map Some bs\<rparr>, count), s2))"
      by (auto simp: s2_def s1_def)
    show ?thesis
      unfolding fh using False e2 e3 l2 l3 c lbs
      by (auto simp: fetched_def not_less)
  qed
qed

lemma return_count_eq:
  assumes f: "fetched len hdr count" and n: "0 \<le> ret" "ret < 2 ^ 32"
  shows "return_count K hdr ret s =
    (let bs = le_bytes 4 (nat ret); ok = k_memcpy_toiovec K (ktrace s) bs;
         s = free_paged_mem (kb_addr hdr) (log (Memcpy_toiovec bs ok) s)
     in Some (if ok then (if ret = 0 then 12 else 4 + 8 * ret) else - EFAULT, s))"
proof -
  obtain bs where bs: "kb_mem hdr = map Some bs" "length bs = unat len"
    using f by (auto simp: fetched_def)
  have "4 + 8 * unat count \<le> unat len" "count \<noteq> 0"
    using f header_size_exact [of count] by (auto simp: fetched_def word_le_nat_alt)
  then have l4: "4 \<le> length bs" using bs by simp
  define c where "c = (word_of_int ret :: u32)"
  have uc: "unat c = nat ret" using n by (simp add: c_def unsigned_of_int take_bit_int_eq_self)
  define m where "m = map Some (le_bytes 4 (unat c)) @ drop 4 (kb_mem hdr)"
  have sm: "set_hdr_count (kb_mem hdr) c = Some m"
    using l4 bs by (simp add: set_hdr_count_def write_at_def m_def)
  have bm: "bytes_at m 0 4 = Some (le_bytes 4 (nat ret))"
    using l4 by (simp add: bytes_at_def m_def uc)
  have hc: "hdr_count m = Some c"
    using bm of_nat_le_bytes [of c] by (simp add: hdr_count_def uc)
  have c0: "(c = 0) = (ret = 0)" using uc n by (metis nat_0_iff unat_eq_zero antisym)
  have u0: "ret = 0 \<Longrightarrow> uint c = 0" using c0 by simp
  have v: "c \<noteq> 0 \<Longrightarrow> uint sizeof_kvnet_header + uint (ucast (c - 1) * sizeof_KVNET_PTR) = 4 + 8 * ret"
  proof -
    assume nz: "c \<noteq> 0"
    then have "unat (c - 1) = unat c - 1" "0 < unat c" by (simp_all add: unat_minus_one unat_gt_0)
    moreover have "unat c < 2 ^ 32" using unsigned_less [of c] by simp
    ultimately have "unat (ucast (c - 1) * 8 :: u64) = (unat c - 1) * 8" "0 < unat c"
      by (simp_all add: unsigned_ucast_eq take_bit_nat_eq_self unat_word_ariths)
    then have "uint (ucast (c - 1) * 8 :: u64) = (ret - 1) * 8"
      using uc n by (simp add: uint_nat of_nat_diff)
    then show ?thesis by (simp add: sizeof_kvnet_header_def sizeof_KVNET_PTR_def)
  qed
  show ?thesis
    using n sm bm hc c0 v u0
    by (simp add: return_count_def c_def [symmetric] Let_def sizeof_kvnet_header_def)
qed

lemma return_count_error:
  "ret < 0 \<Longrightarrow> return_count K hdr ret s = Some (ret, free_paged_mem (kb_addr hdr) s)"
  by (simp add: return_count_def)

text \<open>A request whose header arrives as user space laid it out.\<close>

definition good_header :: "kernel \<Rightarrow> drv \<Rightarrow> u64 \<Rightarrow> addr list \<Rightarrow> u8 list \<Rightarrow> bool" where
  "good_header K s len ptrs rest \<longleftrightarrow>
     ptrs \<noteq> [] \<and> unat len < 2 ^ 31 \<and> length (header_bytes (of_nat (length ptrs)) ptrs @ rest) = unat len \<and>
     12 \<le> unat len \<and>
     (let p = k_kmalloc K (ktrace s) len
      in p \<noteq> NULL \<and> k_memcpy_fromiovecend K (ktrace s @ [Kmalloc len p]) len =
           Some (header_bytes (of_nat (length ptrs)) ptrs @ rest))"

lemma fetch_header_ok:
  assumes "good_header K s len ptrs rest"
  shows "\<exists>hdr s'. fetch_header K len s = Some (Inr (hdr, of_nat (length ptrs)), s') \<and>
    kb_addr hdr = k_kmalloc K (ktrace s) len \<and>
    fetched len hdr (of_nat (length ptrs)) \<and>
    unat (of_nat (length ptrs) :: u32) = length ptrs \<and>
    (\<forall>i < length ptrs. hdr_pkt (kb_mem hdr) (int i) = Some (ptrs ! i)) \<and>
    s' = log (Memcpy_fromiovecend len (Some (header_bytes (of_nat (length ptrs)) ptrs @ rest)))
          (log (Kmalloc len (k_kmalloc K (ktrace s) len)) s)"
proof -
  define p where "p = k_kmalloc K (ktrace s) len"
  define bs where "bs = header_bytes (of_nat (length ptrs)) ptrs @ rest"
  define c where "c = (of_nat (length ptrs) :: u32)"
  note G = assms [unfolded good_header_def Let_def, folded p_def bs_def]
  have sz: "alloc_size (ucast len) = len" using alloc_size_nonneg [of "unat len"] G by simp
  have n: "length ptrs < 2 ^ 28" "length ptrs \<noteq> 0"
    using G by (simp_all add: bs_def length_header_bytes)
  then have uc: "unat c = length ptrs" unfolding c_def by (intro unat_of_nat_small) simp
  then have c0: "c \<noteq> 0" using n(2) by auto
  have hs: "header_size c \<le> len"
    using header_size_exact [OF c0] uc G by (simp add: word_le_nat_alt bs_def length_header_bytes)
  have hc: "hdr_count (map Some bs) = Some c"
    by (rule hdr_count_header [where ptrs = ptrs and rest = "map Some rest"]) (simp add: bs_def c_def)
  have hp: "hdr_pkt (map Some bs) (int i) = Some (ptrs ! i)" if "i < length ptrs" for i
    by (rule hdr_pkt_header [where count = c and rest = "map Some rest"]) (simp_all add: bs_def c_def that)
  have "\<not> len < sizeof_kvnet_header"
    using G by (simp add: sizeof_kvnet_header_def word_less_nat_alt)
  then have "fetch_header K len s = Some (Inr (\<lparr>kb_addr = p, kb_mem = map Some bs\<rparr>, c),
      log (Memcpy_fromiovecend len (Some bs)) (log (Kmalloc len p) s))"
    using G hc c0 hs write_whole [of bs "unat len"]
    by (simp add: fetch_header_def alloc_paged_mem_def alloc_mem_def sz p_def [symmetric]
        IS_PTR_VALID_def Let_def not_less)
  moreover have "fetched len \<lparr>kb_addr = p, kb_mem = map Some bs\<rparr> c"
    using G hc c0 hs by (simp add: fetched_def)
  ultimately show ?thesis using hp uc unfolding p_def bs_def c_def
    by (intro exI conjI) (assumption | simp)+
qed

section \<open>The checks of a request\<close>

text \<open>
  The length check of the handlers is exact: a count other than 0 passes it just when
  the pointers it announces lie in the request, so every one of them can be read from the
  copy; the multiplication cannot wrap.
\<close>

lemma length_check_exact:
  assumes "count \<noteq> 0" and "length bs = unat len"
  shows "(header_size count \<le> len) = (4 + 8 * unat count \<le> length bs) \<and>
    (header_size count \<le> len) = (\<forall>i < unat count. hdr_pkt (map Some bs) (int i) \<noteq> None)"
proof -
  have size: "(header_size count \<le> len) = (4 + 8 * unat count \<le> length bs)"
    using header_size_exact [OF assms(1)] assms(2) by (simp add: word_le_nat_alt)
  have "hdr_pkt (map Some bs) (int i) \<noteq> None" if "header_size count \<le> len" "i < unat count" for i
    using checked_header_pkt [OF assms(1) that(1) assms(2) that(2), of "[]"] by simp
  moreover have "4 + 8 * unat count \<le> length bs"
    if h: "\<forall>i < unat count. hdr_pkt (map Some bs) (int i) \<noteq> None"
  proof -
    from assms(1) obtain m where m: "unat count = Suc m" by (metis gr0_conv_Suc unat_gt_0)
    with h have "hdr_pkt (map Some bs) (int m) \<noteq> None" by simp
    then have "nat (4 + 8 * int m) + 8 \<le> length bs"
      by (auto simp: hdr_pkt_def bytes_at_def split: if_splits bind_splits)
    with m show ?thesis by simp
  qed
  ultimately show ?thesis using size by blast
qed

text \<open>
  (C28) Which requests the handlers accept, once there is memory for the copy and it could be made:
  those whose count is not 0 and all of whose pointers lie in the request. Every pointer can then be
  read from the copy. The others are refused with \<open>EINVAL\<close> and leave no memory behind; of a count
  other than 0 that is refused some pointer is not in the request.
\<close>

theorem request_checked:
  assumes len: "12 \<le> unat len" "unat len < 2 ^ 31" and p: "p = k_kmalloc K (ktrace s) len" "p \<noteq> NULL"
    and bs: "k_memcpy_fromiovecend K (ktrace s @ [Kmalloc len p]) len = Some bs" "length bs = unat len"
  shows "\<exists>count t. hdr_count (map Some bs) = Some count \<and>
    (if count \<noteq> 0 \<and> 4 + 8 * unat count \<le> length bs
     then fetch_header K len s = Some (Inr (\<lparr>kb_addr = p, kb_mem = map Some bs\<rparr>, count), t) \<and>
       (\<forall>i < unat count. hdr_pkt (map Some bs) (int i) \<noteq> None)
     else fetch_header K len s = Some (Inl (- EINVAL), t) \<and> held_of t = held_of s \<and>
       (count \<noteq> 0 \<longrightarrow> (\<exists>i < unat count. hdr_pkt (map Some bs) (int i) = None)))"
proof -
  let ?t = "log (Memcpy_fromiovecend len (Some bs)) (log (Kmalloc len p) s)"
  from fetch_header_copied [OF len p bs refl] obtain count where
    c: "hdr_count (map Some bs) = Some count"
      "fetch_header K len s =
        (if count = 0 \<or> len < header_size count then Some (Inl (- EINVAL), free_paged_mem p ?t)
         else Some (Inr (\<lparr>kb_addr = p, kb_mem = map Some bs\<rparr>, count), ?t))" by blast
  have "held_of (free_paged_mem p ?t) = held_of s"
    using p(2) by (simp add: free_paged_mem_def IS_PTR_VALID_def lock_simps)
  with c length_check_exact [OF _ bs(2), of count] show ?thesis
    by (cases "count \<noteq> 0 \<and> 4 + 8 * unat count \<le> length bs") (auto simp: not_less [symmetric])
qed

end
