(* ===== verification/Net_Dev.thy ===== *)
theory Net_Dev
  imports Vnet
begin

text \<open>
  \<open>net_dev.c\<close>: the network interface \<open>kvnet\<close>. The kernel's network stack calls
  \<open>net_dev_send\<close> with each outgoing packet; it is queued for the user-space reader or
  dropped. The interface is opened and closed through \<open>kvnet_netdev_ops\<close>, created by
  \<open>net_dev_add\<close> and destroyed by \<open>net_dev_remove\<close>.
\<close>

section \<open>Constants\<close>

definition KVNET_MAX_MTU :: u32 where
  "KVNET_MAX_MTU = 1400"

abbreviation (input) ETH_HLEN :: u16 where "ETH_HLEN \<equiv> 14"
abbreviation (input) ETH_ALEN :: u8 where "ETH_ALEN \<equiv> 6"
abbreviation (input) IFF_MULTICAST :: u32 where "IFF_MULTICAST \<equiv> 0x1000"

section \<open>Waking the reader\<close>

text \<open>\<open>io_dev_wakeup\<close> of \<open>io_dev.c\<close>, which the interface calls for each queued packet.\<close>

definition io_dev_wakeup :: "drv \<Rightarrow> drv option" where
  "io_dev_wakeup s = do { _ \<leftarrow> vnet_dev s; Some (log Wake_up_interruptible s) }"

section \<open>The transmit path\<close>

text \<open>
  The loop of \<open>net_dev_flush_tx_queue\<close>: it takes packets off the queue, whose lock the
  caller holds, until there is none. A queue that is not a finite list would never let it
  end; then the result is \<open>None\<close>.
\<close>

partial_function (option) flush_loop ::
    "u32 \<Rightarrow> queue \<times> 'z kmem_scheme \<Rightarrow> (u32 \<times> queue \<times> 'z kmem_scheme) option" where
  "flush_loop flushed qs = do {
     (skb, qs) \<leftarrow> raw_queue_remove (fst qs) (snd qs);
     if skb \<noteq> NULL then do { qs \<leftarrow> q_free skb qs; flush_loop (flushed + 1) qs }
     else Some (flushed, qs) }"

definition net_dev_flush_tx_queue :: "drv \<Rightarrow> drv option" where
  "net_dev_flush_tx_queue s = do {
     _ \<leftarrow> vnet_dev s;
     let s = acquire_lock Queue_lock s;
     (flushed, s) \<leftarrow> with_queue (\<lambda>q s. flush_loop 0 (q, s)) s;
     let s = release_lock Queue_lock s;
     vnet_upd (net_dev_update (vn_stats_update (tx_dropped_update (\<lambda>n. n + flushed)))) s }"

definition net_dev_open :: "addr \<Rightarrow> drv \<Rightarrow> (int \<times> drv) option" where
  "net_dev_open dev s = do {
     (_, s) \<leftarrow> with_queue (\<lambda>q s. let (q, s) = queue_enable 1 q s in Some ((), q, s)) s;
     let s = log (Netif_start_queue dev) s;
     s \<leftarrow> vnet_upd (net_dev_update (vn_connected_update (\<lambda>_. 1))) s;
     Some (0, s) }"

definition net_dev_close :: "addr \<Rightarrow> drv \<Rightarrow> (int \<times> drv) option" where
  "net_dev_close dev s = do {
     (_, s) \<leftarrow> with_queue (\<lambda>q s. let (q, s) = queue_enable 0 q s in Some ((), q, s)) s;
     s \<leftarrow> net_dev_flush_tx_queue s;
     let s = log (Netif_stop_queue dev) s;
     s \<leftarrow> vnet_upd (net_dev_update (vn_connected_update (\<lambda>_. 0))) s;
     Some (0, s) }"

text \<open>
  The queue's length is an \<open>int\<close>, compared with the \<open>unsigned long\<close> \<open>tx_queue_len\<close>. The
  debug dump at the head of the function is one event.
\<close>

definition net_dev_send :: "kernel \<Rightarrow> addr \<Rightarrow> addr \<Rightarrow> drv \<Rightarrow> (int \<times> drv) option" where
  "net_dev_send K skb dev s = do {
     _ \<leftarrow> vnet_dev s;
     let s = (if g_utils_debug_enabled s \<noteq> 0 then log (Debug_dump skb) s else s);
     let s = acquire_lock Queue_lock s;
     v \<leftarrow> vnet_dev s;
     let q = vn_queue (net_dev v);
     dropping \<leftarrow>
       (if raw_is_queue_enabled q = 0 then Some True
        else do {
          d \<leftarrow> netdev_at dev s;
          Some (nd_tx_queue_len d \<le> scast (raw_queue_len q)) });
     if dropping then do {
       s \<leftarrow> vnet_upd (net_dev_update (vn_stats_update (tx_dropped_update (\<lambda>n. n + 1)))) s;
       s \<leftarrow> kfree_skb skb s;
       Some (0, release_lock Queue_lock s) }
     else do {
       (_, s) \<leftarrow> with_queue (\<lambda>q s. do { (q, s) \<leftarrow> raw_queue_insert skb q s; Some ((), q, s) }) s;
       let s = release_lock Queue_lock s;
       s \<leftarrow> netdev_update dev (nd_trans_start_update (\<lambda>_. k_jiffies K (ktrace s))) s;
       s \<leftarrow> io_dev_wakeup s;
       Some (0, s) } }"

definition net_dev_ioctl :: "addr \<Rightarrow> int \<Rightarrow> drv \<Rightarrow> (int \<times> drv) option" where
  "net_dev_ioctl dev cmd s = Some (- ENOSYS, s)"

definition stats_to_kernel :: "u32 net_stats \<Rightarrow> u64 net_stats" where
  "stats_to_kernel t = \<lparr>
     rx_packets = ucast (rx_packets t), tx_packets = ucast (tx_packets t),
     rx_errors = ucast (rx_errors t), tx_errors = ucast (tx_errors t),
     rx_dropped = ucast (rx_dropped t), tx_dropped = ucast (tx_dropped t),
     rx_bytes = ucast (rx_bytes t), tx_bytes = ucast (tx_bytes t),
     rx_fifo_errors = ucast (rx_fifo_errors t), tx_fifo_errors = ucast (tx_fifo_errors t)\<rparr>"

text \<open>The statistics are copied into the device's private area, which is returned.\<close>

definition net_dev_get_stats :: "addr \<Rightarrow> drv \<Rightarrow> (u64 net_stats \<times> drv) option" where
  "net_dev_get_stats dev s = do {
     v \<leftarrow> vnet_dev s;
     let st = stats_to_kernel (vn_stats (net_dev v));
     s \<leftarrow> netdev_update dev (nd_priv_update (\<lambda>_. st)) s;
     Some (st, s) }"

definition always_on :: "addr \<Rightarrow> u32" where
  "always_on dev = 1"

definition net_dev_init :: "addr \<Rightarrow> drv \<Rightarrow> (int \<times> drv) option" where
  "net_dev_init dev s = Some (0, s)"

definition net_dev_uninit :: "addr \<Rightarrow> drv \<Rightarrow> drv option" where
  "net_dev_uninit dev s = Some s"

definition net_dev_free :: "addr \<Rightarrow> drv \<Rightarrow> drv option" where
  "net_dev_free dev s = Some s"

section \<open>Callbacks\<close>

text \<open>
  The kernel calls an operation through the table the device points to,
  \<open>kvnet_netdev_ops\<close> and the destructor once \<open>net_dev_setup\<close> has set them. A callback on a
  device that is not allocated is a fault.
\<close>

definition run_ndo :: "addr \<Rightarrow> ndo \<Rightarrow> drv \<Rightarrow> drv option" where
  "run_ndo dev c s = do {
     d \<leftarrow> netdev_at dev s;
     (case c of
        Ndo_init \<Rightarrow>
          (if nd_kvnet_ops d then do { (_, s) \<leftarrow> net_dev_init dev s; Some s } else Some s)
      | Ndo_uninit \<Rightarrow> (if nd_kvnet_ops d then net_dev_uninit dev s else Some s)
      | Ndo_open \<Rightarrow>
          (if nd_kvnet_ops d then do { (_, s) \<leftarrow> net_dev_open dev s; Some s } else Some s)
      | Ndo_stop \<Rightarrow>
          (if nd_kvnet_ops d then do { (_, s) \<leftarrow> net_dev_close dev s; Some s } else Some s)
      | Ndo_destructor \<Rightarrow> (if nd_kvnet_destructor d then net_dev_free dev s else Some s)) }"

fun run_ndos :: "addr \<Rightarrow> ndo list \<Rightarrow> drv \<Rightarrow> drv option" where
  "run_ndos dev [] s = Some s"
| "run_ndos dev (c # cs) s = do { s \<leftarrow> run_ndo dev c s; run_ndos dev cs s }"

section \<open>Creating and destroying the interface\<close>

definition net_dev_setup :: "kernel \<Rightarrow> addr \<Rightarrow> drv \<Rightarrow> drv option" where
  "net_dev_setup K dev s = do {
     v \<leftarrow> vnet_dev s;
     netdev_update dev (\<lambda>d.
       let d = k_ether_setup K d;
           d = d\<lparr>nd_kvnet_ops := True, nd_kvnet_destructor := True,
                 nd_hard_header_len := ETH_HLEN, nd_addr_len := ETH_ALEN,
                 nd_mtu := KVNET_MAX_MTU,
                 nd_tx_queue_len := scast (cfg_max_queue_len (cfg v)),
                 nd_kvnet_ethtool_ops := True,
                 nd_flags := nd_flags d AND NOT IFF_MULTICAST\<rparr>;
           n = unat (nd_addr_len d)
       in d\<lparr>nd_dev_addr := take n (cfg_mac (cfg v)) @ drop n (nd_dev_addr d),
            nd_priv := zero_stats\<rparr>) s }"

text \<open>
  \<open>alloc_netdev\<close> makes the device and runs \<open>net_dev_setup\<close> on it; \<open>register_netdev\<close> and
  \<open>unregister_netdev\<close> run callbacks; \<open>free_netdev\<close> ends the driver's ownership.
\<close>

definition alloc_netdev :: "kernel \<Rightarrow> drv \<Rightarrow> (addr \<times> drv) option" where
  "alloc_netdev K s =
     (let (p, d) = k_alloc_netdev K (ktrace s);
          s = log (Alloc_netdev p) s
      in if p = NULL then Some (NULL, s)
         else do { s \<leftarrow> net_dev_setup K p (s\<lparr>netdevs := (netdevs s)(p \<mapsto> d)\<rparr>); Some (p, s) })"

definition register_netdev :: "kernel \<Rightarrow> addr \<Rightarrow> drv \<Rightarrow> (int \<times> drv) option" where
  "register_netdev K dev s =
     (let (r, cbs) = k_register_netdev K (ktrace s)
      in do { s \<leftarrow> run_ndos dev cbs (log (Register_netdev dev r) s); Some (r, s) })"

definition unregister_netdev :: "kernel \<Rightarrow> addr \<Rightarrow> drv \<Rightarrow> drv option" where
  "unregister_netdev K dev s =
     run_ndos dev (k_unregister_netdev K (ktrace s)) (log (Unregister_netdev dev) s)"

definition free_netdev :: "addr \<Rightarrow> drv \<Rightarrow> drv option" where
  "free_netdev dev s = do {
     _ \<leftarrow> netdev_at dev s;
     Some (log (Free_netdev dev) (s\<lparr>netdevs := (netdevs s)(dev := None)\<rparr>)) }"

definition net_dev_remove :: "kernel \<Rightarrow> drv \<Rightarrow> (int \<times> drv) option" where
  "net_dev_remove K s = do {
     v \<leftarrow> vnet_dev s;
     let dev = vn_device (net_dev v);
     if IS_PTR_VALID dev then do {
       s \<leftarrow> (if vn_added (net_dev v) \<noteq> 0 then unregister_netdev K dev s else Some s);
       s \<leftarrow> free_netdev dev s;
       s \<leftarrow> vnet_upd (net_dev_update (vn_device_update (\<lambda>_. NULL))) s;
       s \<leftarrow> vnet_upd (net_dev_update (vn_added_update (\<lambda>_. 0))) s;
       Some (0, s) }
     else Some (0, s) }"

definition net_dev_add :: "kernel \<Rightarrow> drv \<Rightarrow> (int \<times> drv) option" where
  "net_dev_add K s = do {
     _ \<leftarrow> vnet_dev s;
     (dev, s) \<leftarrow> alloc_netdev K s;
     s \<leftarrow> vnet_upd (net_dev_update (vn_device_update (\<lambda>_. dev))) s;
     (ret, s) \<leftarrow>
       (if \<not> IS_PTR_VALID dev then Some (- ENOMEM, s)
        else do {
          (ret, s) \<leftarrow> register_netdev K dev s;
          if ret \<noteq> 0 then Some (ret, s)
          else do { s \<leftarrow> vnet_upd (net_dev_update (vn_added_update (\<lambda>_. 1))) s; Some (0, s) } });
     if ret \<noteq> 0 then do { (_, s) \<leftarrow> net_dev_remove K s; Some (ret, s) }
     else Some (ret, s) }"

end
