(* ===== verification/Net_Dev_Inv.thy ===== *)
theory Net_Dev_Inv
  imports Net_Dev
begin

text \<open>
  The invariant of the driver's state, and what the operations of \<open>net_dev.c\<close> do to a state
  that satisfies it: none of them faults or blocks, each keeps the invariant, and each
  changes the queue, the buffers and the counters as its branch says.
\<close>

section \<open>The invariant\<close>

text \<open>A device that \<open>net_dev_setup\<close> has configured.\<close>

definition dev_conf :: "vnet_cfg \<Rightarrow> net_device \<Rightarrow> bool" where
  "dev_conf c d \<longleftrightarrow> nd_kvnet_ops d \<and> nd_kvnet_destructor d \<and>
     nd_tx_queue_len d = scast (cfg_max_queue_len c)"

text \<open>
  The driver's device pointer and the devices it owns agree: none, or exactly the one it
  points to.
\<close>

definition dev_wf :: "drv \<Rightarrow> vnet \<Rightarrow> bool" where
  "dev_wf s v \<longleftrightarrow>
     (if vn_device (net_dev v) = NULL
      then netdevs s = Map.empty \<and> vn_added (net_dev v) = 0
      else \<exists>d. netdevs s = [vn_device (net_dev v) \<mapsto> d] \<and> dev_conf (cfg v) d)"

text \<open>
  The interface announces no scatter/gather support, so the kernel hands it linear buffers:
  \<open>data\<close> has the \<open>len\<close> bytes.
\<close>

definition skb_linear :: "sk_buff \<Rightarrow> bool" where
  "skb_linear b \<longleftrightarrow> unat (skb_len b) = length (skb_data b)"

definition heap_linear :: "(addr \<rightharpoonup> sk_buff) \<Rightarrow> bool" where
  "heap_linear h \<longleftrightarrow> (\<forall>p b. h p = Some b \<longrightarrow> skb_linear b)"

lemma skb_linear_payload [simp]: "skb_linear (payload b) = skb_linear b"
  by (simp add: skb_linear_def payload_def)

lemma heap_linear_pool:
  "heap_linear (skbs s) = (\<forall>p b. pool_of s p = Some b \<longrightarrow> skb_linear b)"
  by (auto simp: heap_linear_def pool_of_def) (metis skb_linear_payload)

lemma heap_linear_empty [simp]: "heap_linear Map.empty"
  by (simp add: heap_linear_def)

text \<open>
  \<open>drv_core s a v xs\<close>: \<open>gs_vnet\<close> points to the object \<open>v\<close> at address \<open>a\<close>; its queue holds the
  packets \<open>xs\<close>, at most \<open>max_queue_len\<close> of them; the socket buffers the driver owns are
  exactly the queued ones, all linear; the lock is free. \<open>drv_inv\<close> adds that queueing is enabled
  exactly while the interface is up, that only a registered interface is up, and that
  nothing is queued while it is down.
\<close>

definition drv_core :: "drv \<Rightarrow> addr \<Rightarrow> vnet \<Rightarrow> addr list \<Rightarrow> bool" where
  "drv_core s a v xs \<longleftrightarrow>
     gs_vnet s = Some (a, v) \<and> a \<noteq> NULL \<and>
     queue_rep (vn_queue (net_dev v)) (skbs s) xs \<and> dom (skbs s) = set xs \<and> heap_linear (skbs s) \<and>
     length xs \<le> unat (cfg_max_queue_len (cfg v)) \<and> unat (cfg_max_queue_len (cfg v)) < 2 ^ 31 \<and>
     dev_wf s v \<and> lock_of s = Some False"

definition drv_inv :: "drv \<Rightarrow> addr \<Rightarrow> vnet \<Rightarrow> addr list \<Rightarrow> bool" where
  "drv_inv s a v xs \<longleftrightarrow>
     drv_core s a v xs \<and>
     (q_enabled (vn_queue (net_dev v)) = 0 \<longrightarrow> xs = []) \<and>
     (q_enabled (vn_queue (net_dev v)) \<noteq> 0 \<longrightarrow> vn_added (net_dev v) \<noteq> 0) \<and>
     up_of s = (q_enabled (vn_queue (net_dev v)) \<noteq> 0)"

lemmas inv_defs = drv_inv_def drv_core_def

lemma dev_wfI:
  "vn_device (net_dev v) \<noteq> NULL \<Longrightarrow> netdevs s = [vn_device (net_dev v) \<mapsto> d] \<Longrightarrow>
   dev_conf (cfg v) d \<Longrightarrow> dev_wf s v"
  by (auto simp: dev_wf_def)

lemma dev_wf_cong:
  "netdevs s = netdevs t \<Longrightarrow> vn_device (net_dev v) = vn_device (net_dev w) \<Longrightarrow>
   vn_added (net_dev v) = vn_added (net_dev w) \<Longrightarrow> cfg v = cfg w \<Longrightarrow> dev_wf s v = dev_wf t w"
  by (simp add: dev_wf_def)

lemma dev_wf_log [simp]: "dev_wf (log e s) v = dev_wf s v"
  and dev_wf_skbs [simp]: "dev_wf (s\<lparr>skbs := h\<rparr>) v = dev_wf s v"
  and dev_wf_gs_vnet [simp]: "dev_wf (s\<lparr>gs_vnet := g\<rparr>) v = dev_wf s v"
  and dev_wf_acquire [simp]: "dev_wf (acquire_lock l s) v = dev_wf s v"
  and dev_wf_release [simp]: "dev_wf (release_lock l s) v = dev_wf s v"
  by (rule dev_wf_cong; simp)+

lemma dev_wf_queue [simp]: "dev_wf s (net_dev_update (vn_queue_update f) v) = dev_wf s v"
  and dev_wf_stats [simp]: "dev_wf s (net_dev_update (vn_stats_update g) v) = dev_wf s v"
  and dev_wf_connected [simp]: "dev_wf s (net_dev_update (vn_connected_update k) v) = dev_wf s v"
  and dev_wf_io [simp]: "dev_wf s (io_dev_update i v) = dev_wf s v"
  by (rule dev_wf_cong; simp)+

lemma drv_inv_log: "lock_of (log e s) = Some False \<Longrightarrow> up_of (log e s) = up_of s \<Longrightarrow> drv_inv s a v xs \<Longrightarrow> drv_inv (log e s) a v xs"
  by (simp add: inv_defs)

text \<open>Changes to the object that the invariant does not look at.\<close>

lemma drv_inv_vnet_upd:
  assumes "drv_inv s a v xs"
    and "vn_queue (net_dev w) = vn_queue (net_dev v)" "cfg w = cfg v"
    and "vn_device (net_dev w) = vn_device (net_dev v)" "vn_added (net_dev w) = vn_added (net_dev v)"
  shows "drv_inv (s\<lparr>gs_vnet := Some (a, w)\<rparr>) a w xs"
  using assms dev_wf_cong [of s s v w] by (simp add: inv_defs)

lemma with_queue_Some:
  assumes "gs_vnet s = Some (a, v)" and "f (vn_queue (net_dev v)) s = Some (x, q, s')"
    and "gs_vnet s' = Some (a, w)"
  shows "with_queue f s =
    Some (x, s'\<lparr>gs_vnet := Some (a, net_dev_update (vn_queue_update (\<lambda>_. q)) w)\<rparr>)"
  using assms by (simp add: with_queue_def vnet_dev_def)

lemma drv_more_gs_vnet: "kmem.more s = kmem.more t \<Longrightarrow> gs_vnet s = gs_vnet t"
  and drv_more_debug: "kmem.more s = kmem.more t \<Longrightarrow>
     g_utils_debug_enabled s = g_utils_debug_enabled t"
  for s t :: drv
  by (cases s; cases t; simp)+

section \<open>Sending\<close>

lemma queue_full_iff:
  fixes m :: u32
  assumes "queue_rep q h xs" and "length xs < 2 ^ 31" and "unat m < 2 ^ 31"
  shows "((scast m :: u64) \<le> scast (raw_queue_len q)) = (unat m \<le> length xs)"
proof -
  have q: "(scast (raw_queue_len q) :: u64) = of_nat (length xs)"
    using assms(1,2) by (simp add: raw_queue_len_def queue_rep_props(5) scast_of_nat_small)
  obtain n where n: "m = of_nat n" "n < 2 ^ 31"
    using assms(3) by (metis of_nat_unat ucast_id)
  have m: "(scast m :: u64) = of_nat n"
    unfolding n(1) using n(2) by (rule scast_of_nat_small)
  have um: "unat m = n"
    unfolding n(1) by (rule unat_of_nat_small) (use n(2) in simp)
  have "unat (of_nat n :: u64) = n" "unat (of_nat (length xs) :: u64) = length xs"
    by (rule unat_of_nat_small; use assms(2) n(2) in simp)+
  then show ?thesis unfolding q m um by (simp only: word_le_nat_alt)
qed

definition send_accepts :: "vnet \<Rightarrow> addr list \<Rightarrow> bool" where
  "send_accepts v xs \<longleftrightarrow> q_enabled (vn_queue (net_dev v)) \<noteq> 0 \<and>
     length xs < unat (cfg_max_queue_len (cfg v))"

text \<open>The stack hands the packet at address \<open>p\<close>, with contents \<open>b\<close>, over to the driver.\<close>

definition handed :: "addr \<Rightarrow> sk_buff \<Rightarrow> drv \<Rightarrow> drv" where
  "handed p b s = s\<lparr>skbs := (skbs s)(p \<mapsto> b)\<rparr>"

lemma handed_simps [simp]:
  "g_utils_debug_enabled (handed p b s) = g_utils_debug_enabled s"
  "gs_vnet (handed p b s) = gs_vnet s" "netdevs (handed p b s) = netdevs s"
  "skbs (handed p b s) = (skbs s)(p \<mapsto> b)" "lock_of (handed p b s) = lock_of s"
  "up_of (handed p b s) = up_of s" "held_of (handed p b s) = held_of s" "kmem.more (handed p b s) = kmem.more s"
  by (simp_all add: handed_def)

text \<open>The device, and the test for a full queue that \<open>net_dev_send\<close> makes with it.\<close>

lemma queue_full_dev:
  assumes inv: "drv_inv s a v xs" and dev: "vn_device (net_dev v) \<noteq> NULL"
  shows "\<exists>d. netdevs s = [vn_device (net_dev v) \<mapsto> d] \<and> dev_conf (cfg v) d \<and>
    (nd_tx_queue_len d \<le> scast (raw_queue_len (vn_queue (net_dev v)))) =
      (unat (cfg_max_queue_len (cfg v)) \<le> length xs)"
proof -
  from inv have rep: "queue_rep (vn_queue (net_dev v)) (skbs s) xs"
    and len: "length xs < 2 ^ 31" "unat (cfg_max_queue_len (cfg v)) < 2 ^ 31" by (auto simp: inv_defs)
  from inv dev obtain d where d: "netdevs s = [vn_device (net_dev v) \<mapsto> d]" "dev_conf (cfg v) d"
    by (auto simp: inv_defs dev_wf_def)
  moreover have "(nd_tx_queue_len d \<le> scast (raw_queue_len (vn_queue (net_dev v)))) =
      (unat (cfg_max_queue_len (cfg v)) \<le> length xs)"
    using queue_full_iff [OF rep len] d(2) by (simp only: dev_conf_def)
  ultimately show ?thesis by blast
qed

lemma send_dropping:
  assumes inv: "drv_inv s a v xs" and dev: "vn_device (net_dev v) \<noteq> NULL"
    and new: "skbs s p = None" "p \<noteq> NULL" and drop: "\<not> send_accepts v xs"
  shows "\<exists>s'. net_dev_send K p (vn_device (net_dev v)) (handed p b s) = Some (0, s') \<and>
    drv_inv s' a (net_dev_update (vn_stats_update (tx_dropped_update (\<lambda>n. n + 1))) v) xs \<and>
    pool_of s' = pool_of s \<and> held_of s' = held_of s"
proof -
  let ?D = "net_dev_send K p (vn_device (net_dev v)) (handed p b s)"
  let ?w = "net_dev_update (vn_stats_update (tx_dropped_update (\<lambda>n. n + 1))) v"
  note I = inv [unfolded inv_defs]
  from I have g: "gs_vnet s = Some (a, v)" and lk: "lock_of s = Some False" by auto
  from queue_full_dev [OF inv dev] obtain d where
    d: "netdevs s = [vn_device (net_dev v) \<mapsto> d]" and
    full: "(nd_tx_queue_len d \<le> scast (raw_queue_len (vn_queue (net_dev v)))) =
      (unat (cfg_max_queue_len (cfg v)) \<le> length xs)" by blast
  have h: "(skbs s)(p := None) = skbs s" using new by auto
  note S = net_dev_send_def raw_is_queue_enabled_def vnet_dev_def vnet_upd_def Let_def lock_simps
  have "\<exists>t. ?D = Some (0, t) \<and> skbs t = skbs s \<and> netdevs t = netdevs s \<and>
      lock_of t = Some False \<and> up_of t = up_of s \<and> held_of t = held_of s \<and> gs_vnet t = Some (a, ?w)"
  proof (cases "q_enabled (vn_queue (net_dev v)) = 0")
    case True
    then show ?thesis using g lk new h by (simp add: S)
  next
    case False
    with drop full have "nd_tx_queue_len d \<le> scast (raw_queue_len (vn_queue (net_dev v)))"
      by (simp add: send_accepts_def)
    with False show ?thesis using g lk new h d dev by (simp add: S netdev_at_def)
  qed
  then obtain t where t: "?D = Some (0, t)" "skbs t = skbs s" "netdevs t = netdevs s"
      "lock_of t = Some False" "up_of t = up_of s" "held_of t = held_of s" "gs_vnet t = Some (a, ?w)" by blast
  have "drv_inv t a ?w xs" using I t dev_wf_cong [of t s v v] by (simp add: inv_defs)
  moreover have "pool_of t = pool_of s" using t by (simp add: pool_of_def fun_eq_iff)
  ultimately show ?thesis using t by blast
qed

text \<open>A packet that is accepted joins the queue.\<close>

lemma insert_packet:
  assumes inv: "drv_inv s a v xs" and new: "skbs s p = None" "p \<noteq> NULL" and lin: "skb_linear b"
    and s0: "skbs s0 = (skbs s)(p \<mapsto> b)" "gs_vnet s0 = Some (a, v)"
  shows "\<exists>q h. with_queue (\<lambda>q s. do { (q, s) \<leftarrow> raw_queue_insert p q s; Some ((), q, s) }) s0 =
      Some ((), s0\<lparr>skbs := h, gs_vnet := Some (a, net_dev_update (vn_queue_update (\<lambda>_. q)) v)\<rparr>) \<and>
    queue_rep q h (xs @ [p]) \<and> q_enabled q = q_enabled (vn_queue (net_dev v)) \<and>
    pool_of (s0\<lparr>skbs := h\<rparr>) = (pool_of s)(p \<mapsto> payload b) \<and> dom h = set (xs @ [p]) \<and> heap_linear h"
proof -
  note I = inv [unfolded inv_defs]
  have xs: "p \<notin> set xs" using I new by auto
  have pool: "pool_of s0 = (pool_of s)(p \<mapsto> payload b)" using s0(1) by (auto simp: pool_of_def fun_eq_iff)
  have "queue_rep (vn_queue (net_dev v)) (skbs s0) xs" using I xs by (simp add: s0(1) queue_rep_upd)
  from raw_queue_insert_rep [OF this _ xs new(2)] obtain q h where
    qh: "raw_queue_insert p (vn_queue (net_dev v)) s0 = Some (q, s0\<lparr>skbs := h\<rparr>)" "queue_rep q h (xs @ [p])"
      "q_enabled q = q_enabled (vn_queue (net_dev v))" "pool_of (s0\<lparr>skbs := h\<rparr>) = pool_of s0"
    using s0(1) by auto
  have "dom h = dom (skbs s0)"
    using qh(4) dom_pool_of [of "s0\<lparr>skbs := h\<rparr>"] dom_pool_of [of s0] by simp
  then have "dom h = set (xs @ [p])" using I s0(1) by auto
  moreover have "heap_linear (skbs (s0\<lparr>skbs := h\<rparr>))"
    using I lin qh(4) pool unfolding heap_linear_pool by (auto split: if_splits)
  moreover have "with_queue (\<lambda>q s. do { (q, s) \<leftarrow> raw_queue_insert p q s; Some ((), q, s) }) s0 =
      Some ((), s0\<lparr>skbs := h, gs_vnet := Some (a, net_dev_update (vn_queue_update (\<lambda>_. q)) v)\<rparr>)"
    using s0(2) qh(1) by (intro with_queue_Some [THEN trans]) auto
  ultimately show ?thesis using qh(2-4) pool by auto
qed

lemma send_accepting:
  assumes lin: "skb_linear b" and inv: "drv_inv s a v xs" and dev: "vn_device (net_dev v) \<noteq> NULL"
    and new: "skbs s p = None" "p \<noteq> NULL" and acc: "send_accepts v xs"
  shows "\<exists>s' v'. net_dev_send K p (vn_device (net_dev v)) (handed p b s) = Some (0, s') \<and>
    drv_inv s' a v' (xs @ [p]) \<and> (\<exists>q. v' = net_dev_update (vn_queue_update (\<lambda>_. q)) v \<and>
      q_enabled q = q_enabled (vn_queue (net_dev v))) \<and>
    pool_of s' = (pool_of s)(p \<mapsto> payload b) \<and> held_of s' = held_of s \<and>
    last (ktrace s') = Wake_up_interruptible"
proof -
  let ?dev = "vn_device (net_dev v)" and ?q = "vn_queue (net_dev v)"
  note I = inv [unfolded inv_defs]
  from I have g: "gs_vnet s = Some (a, v)" and lk: "lock_of s = Some False" by auto
  from queue_full_dev [OF inv dev] acc obtain d where d: "netdevs s = [?dev \<mapsto> d]" "dev_conf (cfg v) d"
    and room: "\<not> nd_tx_queue_len d \<le> scast (raw_queue_len ?q)" "q_enabled ?q \<noteq> 0"
    by (auto simp: send_accepts_def)
  define s0 where "s0 = acquire_lock Queue_lock
    (if g_utils_debug_enabled s \<noteq> 0 then log (Debug_dump p) (handed p b s) else handed p b s)"
  have s0: "skbs s0 = (skbs s)(p \<mapsto> b)" "gs_vnet s0 = Some (a, v)" "netdevs s0 = netdevs s"
      "lock_of s0 = Some True" "up_of s0 = up_of s" "held_of s0 = held_of s"
    using g lk by (auto simp: s0_def lock_simps)
  from insert_packet [OF inv new lin s0(1,2)] obtain q h where
    wq: "with_queue (\<lambda>q s. do { (q, s) \<leftarrow> raw_queue_insert p q s; Some ((), q, s) }) s0 =
        Some ((), s0\<lparr>skbs := h, gs_vnet := Some (a, net_dev_update (vn_queue_update (\<lambda>_. q)) v)\<rparr>)"
    and qh: "queue_rep q h (xs @ [p])" "q_enabled q = q_enabled ?q"
      "pool_of (s0\<lparr>skbs := h\<rparr>) = (pool_of s)(p \<mapsto> payload b)" "dom h = set (xs @ [p])" "heap_linear h" by blast
  define v' where "v' = net_dev_update (vn_queue_update (\<lambda>_. q)) v"
  define j where "j = k_jiffies K (ktrace (release_lock Queue_lock (s0\<lparr>skbs := h, gs_vnet := Some (a, v')\<rparr>)))"
  define t where "t = log Wake_up_interruptible
    ((release_lock Queue_lock (s0\<lparr>skbs := h, gs_vnet := Some (a, v')\<rparr>))
      \<lparr>netdevs := [?dev \<mapsto> d\<lparr>nd_trans_start := j\<rparr>]\<rparr>)"
  note S = net_dev_send_def raw_is_queue_enabled_def netdev_at_def netdev_update_def io_dev_wakeup_def
    t_def j_def vnet_dev_def Let_def
  have D: "net_dev_send K p ?dev (handed p b s) = Some (0, t)"
  proof (cases "g_utils_debug_enabled s = 0")
    case True
    then have "acquire_lock Queue_lock (handed p b s) = s0" by (simp add: s0_def)
    with True show ?thesis using g s0 wq [folded v'_def] room d(1) dev by (simp add: S)
  next
    case False
    then have "acquire_lock Queue_lock (log (Debug_dump p) (handed p b s)) = s0" by (simp add: s0_def)
    with False show ?thesis using g s0 wq [folded v'_def] room d(1) dev by (simp add: S)
  qed
  have lkt: "lock_of t = Some False" "up_of t = up_of s" "held_of t = held_of s"
    using s0 by (simp_all add: t_def lock_simps)
  have "dev_wf t v'"
    using dev d(2) by (intro dev_wfI [where d = "d\<lparr>nd_trans_start := j\<rparr>"])
      (simp_all add: t_def v'_def dev_conf_def)
  then have "drv_inv t a v' (xs @ [p])"
    using I qh lkt room acc by (simp add: inv_defs t_def v'_def send_accepts_def)
  moreover have "pool_of t = (pool_of s)(p \<mapsto> payload b)"
    using qh(3) by (simp add: t_def pool_of_def fun_eq_iff)
  ultimately show ?thesis using D v'_def qh(2) lkt(3) by (auto simp: t_def)
qed

section \<open>Opening, closing and flushing\<close>

lemma queue_enable_eq:
  "queue_enable e q s =
     (q\<lparr>q_enabled := e\<rparr>, release_lock Queue_lock (acquire_lock Queue_lock s))"
  by (simp add: queue_enable_def Let_def)

lemma net_dev_open_inv:
  assumes inv: "drv_inv s a v xs" and reg: "vn_added (net_dev v) \<noteq> 0"
  shows "\<exists>s' v'. net_dev_open dev s = Some (0, s') \<and> drv_inv s' a v' xs \<and>
    v' = net_dev_update (vn_connected_update (\<lambda>_. 1))
           (net_dev_update (vn_queue_update (q_enabled_update (\<lambda>_. 1))) v) \<and>
    skbs s' = skbs s \<and> netdevs s' = netdevs s \<and> held_of s' = held_of s"
proof -
  let ?v' = "net_dev_update (vn_connected_update (\<lambda>_. 1))
           (net_dev_update (vn_queue_update (q_enabled_update (\<lambda>_. 1))) v)"
  note I = inv [unfolded inv_defs]
  have ex: "\<exists>t. net_dev_open dev s = Some (0, t) \<and> gs_vnet t = Some (a, ?v') \<and>
      skbs t = skbs s \<and> netdevs t = netdevs s \<and> lock_of t = Some False \<and> up_of t \<and>
      held_of t = held_of s"
    using I by (simp add: net_dev_open_def with_queue_def queue_enable_eq vnet_dev_def
        vnet_upd_def lock_simps)
  then obtain t where t: "net_dev_open dev s = Some (0, t)" "gs_vnet t = Some (a, ?v')"
      "skbs t = skbs s" "netdevs t = netdevs s" "lock_of t = Some False" "up_of t"
      "held_of t = held_of s"
    by blast
  have "drv_inv t a ?v' xs"
    using I reg t dev_wf_cong [of t s ?v' v] by (simp add: inv_defs)
  with t show ?thesis by blast
qed

text \<open>Flushing, from the queue's contract: every queued packet is freed, and counted.\<close>

lemma flush_loop_drains:
  assumes "q_holds (q, s) xs"
  shows "\<exists>q' s'. flush_loop n (q, s) = Some (n + of_nat (length xs), q', s') \<and>
    queue_rep q' (skbs s') [] \<and> pool_of s' = (pool_of s) |` (- set xs) \<and>
    q_enabled q' = q_enabled q \<and> netdevs s' = netdevs s \<and> kmem.more s' = kmem.more s \<and>
    lock_of s' = lock_of s \<and> calls_of s' = calls_of s"
proof -
  from raw_q.drain [of flush_loop "(q, s)" xs n, OF flush_loop.simps assms] show ?thesis
    by (auto simp: q_holds_def q_pool_def q_rest_def q_rest_lock_def)
qed

lemma net_dev_flush_core:
  assumes inv: "drv_core s a v xs"
  shows "\<exists>s' q. net_dev_flush_tx_queue s = Some s' \<and>
    drv_core s' a (net_dev_update (vn_stats_update (tx_dropped_update (\<lambda>n. n + of_nat (length xs))))
             (net_dev_update (vn_queue_update (\<lambda>_. q)) v)) [] \<and>
    q_enabled q = q_enabled (vn_queue (net_dev v)) \<and>
    skbs s' = Map.empty \<and> netdevs s' = netdevs s \<and> held_of s' = held_of s"
proof -
  note I = inv [unfolded inv_defs]
  let ?s0 = "acquire_lock Queue_lock s"
  have "q_holds (vn_queue (net_dev v), ?s0) xs" using I by (simp add: q_holds_def)
  from flush_loop_drains [OF this, of 0] obtain q t where
    t: "flush_loop 0 (vn_queue (net_dev v), ?s0) = Some (of_nat (length xs), q, t)"
      "queue_rep q (skbs t) []" "pool_of t = (pool_of s) |` (- set xs)"
      "q_enabled q = q_enabled (vn_queue (net_dev v))" "netdevs t = netdevs s"
      "kmem.more t = kmem.more s" "lock_of t = lock_of ?s0" "calls_of t = calls_of s" by auto
  have lb: "held_of t = held_of s" using calls_of_cong [OF t(8)] by simp
  have gt: "gs_vnet t = Some (a, v)" using drv_more_gs_vnet [OF t(6)] I by simp
  have "dom (skbs t) = {}" using t(3) I dom_pool_of [of t] dom_pool_of [of s] by auto
  then have empty: "skbs t = Map.empty" by simp
  let ?v1 = "net_dev_update (vn_queue_update (\<lambda>_. q)) v"
  let ?v2 = "net_dev_update (vn_stats_update (tx_dropped_update (\<lambda>n. n + of_nat (length xs)))) ?v1"
  have wq: "with_queue (\<lambda>q s. flush_loop 0 (q, s)) ?s0 =
      Some (of_nat (length xs), t\<lparr>gs_vnet := Some (a, ?v1)\<rparr>)"
    using I t gt by (intro with_queue_Some [THEN trans]) auto
  have ex: "\<exists>u. net_dev_flush_tx_queue s = Some u \<and> gs_vnet u = Some (a, ?v2) \<and>
      skbs u = Map.empty \<and> netdevs u = netdevs s \<and> lock_of u = Some False \<and>
      held_of u = held_of s"
    using I wq t empty lb
    by (simp add: net_dev_flush_tx_queue_def vnet_dev_def vnet_upd_def lock_simps Let_def)
  then obtain u where u: "net_dev_flush_tx_queue s = Some u" "gs_vnet u = Some (a, ?v2)"
      "skbs u = Map.empty" "netdevs u = netdevs s" "lock_of u = Some False"
      "held_of u = held_of s"
    by blast
  have "drv_core u a ?v2 []"
    using I u t empty dev_wf_cong [of u s ?v2 v] by (simp add: inv_defs)
  with u t(4) show ?thesis by blast
qed

text \<open>The object after the interface went down with \<open>n\<close> packets queued.\<close>

definition closed_vnet :: "queue \<Rightarrow> nat \<Rightarrow> vnet \<Rightarrow> vnet" where
  "closed_vnet q n v = net_dev_update (vn_connected_update (\<lambda>_. 0))
     (net_dev_update (vn_stats_update (tx_dropped_update (\<lambda>k. k + of_nat n)))
       (net_dev_update (vn_queue_update (\<lambda>_. q)) v))"

lemma net_dev_close_core:
  assumes inv: "drv_core s a v xs"
  shows "\<exists>s' q. net_dev_close dev s = Some (0, s') \<and>
    drv_inv s' a (closed_vnet q (length xs) v) [] \<and> q_enabled q = 0 \<and>
    skbs s' = Map.empty \<and> netdevs s' = netdevs s \<and> held_of s' = held_of s"
proof -
  note I = inv [unfolded inv_defs]
  let ?v0 = "net_dev_update (vn_queue_update (\<lambda>_. (vn_queue (net_dev v))\<lparr>q_enabled := 0\<rparr>)) v"
  let ?s0 = "(release_lock Queue_lock (acquire_lock Queue_lock s))\<lparr>gs_vnet := Some (a, ?v0)\<rparr>"
  have "drv_core ?s0 a ?v0 xs"
    using I dev_wf_cong [of ?s0 s ?v0 v] by (simp add: inv_defs lock_simps)
  from net_dev_flush_core [OF this] obtain t q where
    t: "net_dev_flush_tx_queue ?s0 = Some t"
      "drv_core t a (net_dev_update (vn_stats_update (tx_dropped_update (\<lambda>n. n + of_nat (length xs))))
             (net_dev_update (vn_queue_update (\<lambda>_. q)) ?v0)) []"
      "q_enabled q = 0" "skbs t = Map.empty" "netdevs t = netdevs s"
      "held_of t = held_of s" by auto
  let ?v2 = "closed_vnet q (length xs) v"
  have g: "gs_vnet t = Some (a, net_dev_update (vn_stats_update
      (tx_dropped_update (\<lambda>n. n + of_nat (length xs)))) (net_dev_update (vn_queue_update (\<lambda>_. q)) ?v0))"
    using t(2) by (simp add: inv_defs)
  have c: "net_dev_close dev s = Some (0, (log (Netif_stop_queue dev) t)\<lparr>gs_vnet := Some (a, ?v2)\<rparr>)"
    using I t(1) g
    by (simp add: net_dev_close_def with_queue_def queue_enable_eq vnet_dev_def vnet_upd_def
        closed_vnet_def)
  have "drv_inv ((log (Netif_stop_queue dev) t)\<lparr>gs_vnet := Some (a, ?v2)\<rparr>) a ?v2 []"
    using t dev_wf_cong [of t t ?v2 "net_dev_update (vn_stats_update
      (tx_dropped_update (\<lambda>n. n + of_nat (length xs)))) (net_dev_update (vn_queue_update (\<lambda>_. q)) ?v0)"]
    by (simp add: inv_defs closed_vnet_def lock_simps)
  with c t show ?thesis by (auto simp: lock_simps)
qed

section \<open>Callbacks keep the invariant\<close>

text \<open>What the callbacks leave alone.\<close>

definition keeps :: "drv \<Rightarrow> vnet \<Rightarrow> drv \<Rightarrow> vnet \<Rightarrow> bool" where
  "keeps s v s' v' \<longleftrightarrow> netdevs s' = netdevs s \<and> vn_device (net_dev v') = vn_device (net_dev v) \<and>
     vn_added (net_dev v') = vn_added (net_dev v) \<and> cfg v' = cfg v \<and> io_dev v' = io_dev v \<and>
     held_of s' = held_of s"

lemma keeps_refl [simp]: "keeps s v s v"
  by (simp add: keeps_def)

lemma keeps_trans: "keeps s v t w \<Longrightarrow> keeps t w u x \<Longrightarrow> keeps s v u x"
  by (simp add: keeps_def)

lemma run_ndo_inv:
  assumes inv: "drv_inv s a v xs" and dev: "vn_device (net_dev v) \<noteq> NULL" and c: "c \<noteq> Ndo_open"
  shows "\<exists>s' v' xs'. run_ndo (vn_device (net_dev v)) c s = Some s' \<and> drv_inv s' a v' xs' \<and>
    keeps s v s' v' \<and> (c = Ndo_stop \<longrightarrow> q_enabled (vn_queue (net_dev v')) = 0) \<and>
    (q_enabled (vn_queue (net_dev v)) = 0 \<longrightarrow> q_enabled (vn_queue (net_dev v')) = 0)"
proof -
  from inv dev obtain d where d: "netdevs s = [vn_device (net_dev v) \<mapsto> d]" "dev_conf (cfg v) d"
    by (auto simp: inv_defs dev_wf_def)
  then have at: "netdev_at (vn_device (net_dev v)) s = Some d" "nd_kvnet_ops d" "nd_kvnet_destructor d"
    using dev by (simp_all add: netdev_at_def dev_conf_def)
  show ?thesis
  proof (cases "c = Ndo_stop")
    case True
    from inv have "drv_core s a v xs" by (simp add: drv_inv_def)
    from net_dev_close_core [OF this, of "vn_device (net_dev v)"] obtain t q where
      t: "net_dev_close (vn_device (net_dev v)) s = Some (0, t)"
        "drv_inv t a (closed_vnet q (length xs) v) []" "q_enabled q = 0" "netdevs t = netdevs s"
        "held_of t = held_of s" by blast
    then have "keeps s v t (closed_vnet q (length xs) v)"
      by (simp add: keeps_def closed_vnet_def)
    with t at True show ?thesis
      by (auto simp: run_ndo_def closed_vnet_def intro!: exI [of _ "closed_vnet q (length xs) v"])
  next
    case False
    with at c have "run_ndo (vn_device (net_dev v)) c s = Some s"
      by (cases c) (simp_all add: run_ndo_def net_dev_init_def net_dev_uninit_def net_dev_free_def)
    with False inv show ?thesis by auto
  qed
qed

lemma run_ndos_inv:
  assumes "drv_inv s a v xs" and "vn_device (net_dev v) \<noteq> NULL" and "Ndo_open \<notin> set cs"
  shows "\<exists>s' v' xs'. run_ndos (vn_device (net_dev v)) cs s = Some s' \<and> drv_inv s' a v' xs' \<and>
    keeps s v s' v' \<and>
    (Ndo_stop \<in> set cs \<or> q_enabled (vn_queue (net_dev v)) = 0 \<longrightarrow>
       q_enabled (vn_queue (net_dev v')) = 0)"
  using assms
proof (induction cs arbitrary: s v xs)
  case Nil
  then show ?case by auto
next
  case (Cons c cs)
  from Cons.prems have "c \<noteq> Ndo_open" by auto
  from run_ndo_inv [OF Cons.prems(1,2) this] obtain t w ys where
    t: "run_ndo (vn_device (net_dev v)) c s = Some t" "drv_inv t a w ys" "keeps s v t w"
      "c = Ndo_stop \<longrightarrow> q_enabled (vn_queue (net_dev w)) = 0"
      "q_enabled (vn_queue (net_dev v)) = 0 \<longrightarrow> q_enabled (vn_queue (net_dev w)) = 0" by blast
  have w: "vn_device (net_dev w) = vn_device (net_dev v)" using t(3) by (simp add: keeps_def)
  from Cons.IH [OF t(2)] Cons.prems w obtain u x zs where
    u: "run_ndos (vn_device (net_dev v)) cs t = Some u" "drv_inv u a x zs" "keeps t w u x"
      "Ndo_stop \<in> set cs \<or> q_enabled (vn_queue (net_dev w)) = 0 \<longrightarrow>
         q_enabled (vn_queue (net_dev x)) = 0" by auto
  from keeps_trans [OF t(3) u(3)] t u show ?case by auto
qed

section \<open>Adding and removing the interface\<close>

text \<open>
  What the driver relies on: registering does not open the interface, and unregistering
  closes it if it is up and does not open it.
\<close>

definition netdev_laws :: "kernel \<Rightarrow> bool" where
  "netdev_laws K \<longleftrightarrow> (\<forall>h.
     Ndo_open \<notin> set (snd (k_register_netdev K h)) \<and>
     Ndo_open \<notin> set (k_unregister_netdev K h) \<and>
     (up_in h \<longrightarrow> Ndo_stop \<in> set (k_unregister_netdev K h)))"

lemma dev_down:
  assumes "drv_inv s a v xs" and "vn_added (net_dev v) = 0 \<or> q_enabled (vn_queue (net_dev v)) = 0"
  shows "xs = [] \<and> q_enabled (vn_queue (net_dev v)) = 0"
  using assms by (auto simp: drv_inv_def)

text \<open>Giving the device back, once the interface is down.\<close>

lemma drop_device:
  assumes inv: "drv_inv s a v xs" and dev: "vn_device (net_dev v) \<noteq> NULL"
    and down: "q_enabled (vn_queue (net_dev v)) = 0"
  shows "\<exists>s'. (do {
      s \<leftarrow> free_netdev (vn_device (net_dev v)) s;
      s \<leftarrow> vnet_upd (net_dev_update (vn_device_update (\<lambda>_. NULL))) s;
      s \<leftarrow> vnet_upd (net_dev_update (vn_added_update (\<lambda>_. 0))) s;
      Some (0 :: int, s) }) = Some (0, s') \<and>
    drv_inv s' a (net_dev_update (vn_added_update (\<lambda>_. 0))
      (net_dev_update (vn_device_update (\<lambda>_. NULL)) v)) [] \<and>
    netdevs s' = Map.empty \<and> held_of s' = held_of s"
proof -
  let ?v' = "net_dev_update (vn_added_update (\<lambda>_. 0)) (net_dev_update (vn_device_update (\<lambda>_. NULL)) v)"
  from inv dev obtain d where d: "netdevs s = [vn_device (net_dev v) \<mapsto> d]"
    by (auto simp: inv_defs dev_wf_def)
  have xs: "xs = []" using dev_down [OF inv] down by simp
  let ?t = "(log (Free_netdev (vn_device (net_dev v))) (s\<lparr>netdevs := Map.empty\<rparr>))
      \<lparr>gs_vnet := Some (a, ?v')\<rparr>"
  have "drv_inv ?t a ?v' []"
    using inv xs down by (simp add: inv_defs dev_wf_def lock_simps queue_rep_def)
  moreover have "netdevs ?t = Map.empty" "held_of ?t = held_of s"
    by (simp_all add: lock_simps)
  moreover have "(do {
      s \<leftarrow> free_netdev (vn_device (net_dev v)) s;
      s \<leftarrow> vnet_upd (net_dev_update (vn_device_update (\<lambda>_. NULL))) s;
      s \<leftarrow> vnet_upd (net_dev_update (vn_added_update (\<lambda>_. 0))) s;
      Some (0 :: int, s) }) = Some (0, ?t)"
    using inv d dev by (simp add: free_netdev_def netdev_at_def vnet_upd_def inv_defs)
  ultimately show ?thesis by blast
qed

lemma net_dev_remove_inv:
  assumes inv: "drv_inv s a v xs" and K: "netdev_laws K"
  shows "\<exists>s' v'. net_dev_remove K s = Some (0, s') \<and> drv_inv s' a v' [] \<and>
    vn_device (net_dev v') = NULL \<and> cfg v' = cfg v \<and> io_dev v' = io_dev v \<and>
    held_of s' = held_of s \<and>
    (vn_device (net_dev v) = NULL \<longrightarrow> s' = s \<and> v' = v)"
proof (cases "vn_device (net_dev v) = NULL")
  case True
  with inv have "xs = []" by (intro dev_down [THEN conjunct1, OF inv]) (simp add: inv_defs dev_wf_def)
  with True inv show ?thesis
    by (auto simp: net_dev_remove_def IS_PTR_VALID_def inv_defs vnet_dev_def)
next
  case dev: False
  have g: "gs_vnet s = Some (a, v)" using inv by (simp add: inv_defs)
  have "\<exists>t w ys. (if vn_added (net_dev v) \<noteq> 0 then unregister_netdev K (vn_device (net_dev v)) s
      else Some s) = Some t \<and> drv_inv t a w ys \<and> keeps s v t w \<and> q_enabled (vn_queue (net_dev w)) = 0"
  proof (cases "vn_added (net_dev v) = 0")
    case True
    with inv show ?thesis by (auto dest: dev_down)
  next
    case False
    let ?s1 = "log (Unregister_netdev (vn_device (net_dev v))) s"
    have i1: "drv_inv ?s1 a v xs" by (rule drv_inv_log [OF _ _ inv]) (use inv in \<open>simp_all add: inv_defs lock_simps\<close>)
    have "Ndo_open \<notin> set (k_unregister_netdev K (ktrace s))"
      "Ndo_stop \<in> set (k_unregister_netdev K (ktrace s)) \<or> q_enabled (vn_queue (net_dev v)) = 0"
      using K inv by (auto simp: netdev_laws_def inv_defs up_of_def)
    with run_ndos_inv [OF i1 dev, of "k_unregister_netdev K (ktrace s)"] False show ?thesis
      by (auto simp: unregister_netdev_def keeps_def lock_simps)
  qed
  then obtain t w ys where
    t: "(if vn_added (net_dev v) \<noteq> 0 then unregister_netdev K (vn_device (net_dev v)) s
      else Some s) = Some t" "drv_inv t a w ys" "keeps s v t w" "q_enabled (vn_queue (net_dev w)) = 0"
    by blast
  from t(3) have w: "vn_device (net_dev w) = vn_device (net_dev v)" "cfg w = cfg v" "io_dev w = io_dev v"
      "held_of t = held_of s"
    by (simp_all add: keeps_def)
  from drop_device [OF t(2) _ t(4)] dev w obtain u where
    u: "(do {
      s \<leftarrow> free_netdev (vn_device (net_dev v)) t;
      s \<leftarrow> vnet_upd (net_dev_update (vn_device_update (\<lambda>_. NULL))) s;
      s \<leftarrow> vnet_upd (net_dev_update (vn_added_update (\<lambda>_. 0))) s;
      Some (0 :: int, s) }) = Some (0, u)"
    "drv_inv u a (net_dev_update (vn_added_update (\<lambda>_. 0))
      (net_dev_update (vn_device_update (\<lambda>_. NULL)) w)) []" "held_of u = held_of t" by auto
  have "net_dev_remove K s = Some (0, u)"
    using g dev t(1) u(1) by (simp add: net_dev_remove_def vnet_dev_def IS_PTR_VALID_def)
  with u(2,3) w dev show ?thesis
    by (intro exI [of _ u] exI [of _ "net_dev_update (vn_added_update (\<lambda>_. 0))
      (net_dev_update (vn_device_update (\<lambda>_. NULL)) w)"]) simp
qed

lemma alloc_netdev_fail:
  "vnet_dev s = Some v \<Longrightarrow> fst (k_alloc_netdev K (ktrace s)) = NULL \<Longrightarrow>
   alloc_netdev K s = Some (NULL, log (Alloc_netdev NULL) s)"
  by (simp add: alloc_netdev_def split_def Let_def)

text \<open>What \<open>net_dev_setup\<close> makes of the device.\<close>

definition set_up_dev :: "kernel \<Rightarrow> vnet_cfg \<Rightarrow> net_device \<Rightarrow> bool" where
  "set_up_dev K c d \<longleftrightarrow> dev_conf c d \<and> nd_mtu d = 1400 \<and> nd_hard_header_len d = 14 \<and>
     nd_flags d AND IFF_MULTICAST = 0 \<and> take 6 (nd_dev_addr d) = take 6 (cfg_mac c) \<and>
     nd_priv d = zero_stats"

lemma alloc_netdev_ok:
  assumes "vnet_dev s = Some v" and "netdevs s = Map.empty"
    and p: "p = fst (k_alloc_netdev K (ktrace s))" "p \<noteq> NULL" and mac: "6 \<le> length (cfg_mac (cfg v))"
  shows "\<exists>d. alloc_netdev K s = Some (p, (log (Alloc_netdev p) s)\<lparr>netdevs := [p \<mapsto> d]\<rparr>) \<and>
    set_up_dev K (cfg v) d"
  using assms
  by (auto simp: alloc_netdev_def net_dev_setup_def netdev_update_def netdev_at_def
      split_def Let_def set_up_dev_def dev_conf_def KVNET_MAX_MTU_def and.assoc)

text \<open>Registering the fresh device: the kernel's callbacks do not bring the interface up.\<close>

lemma register_fresh:
  assumes inv: "drv_inv s a v []" and idle: "vn_device (net_dev v) = NULL" and K: "netdev_laws K"
    and d: "set_up_dev K (cfg v) d" and p: "p \<noteq> NULL"
    and s1: "s1 = (log (Alloc_netdev p) s)\<lparr>netdevs := [p \<mapsto> d],
      gs_vnet := Some (a, net_dev_update (vn_device_update (\<lambda>_. p)) v)\<rparr>"
  shows "\<exists>r t w. register_netdev K p s1 = Some (r, t) \<and> drv_inv t a w [] \<and> gs_vnet t = Some (a, w) \<and>
    q_enabled (vn_queue (net_dev w)) = 0 \<and> vn_device (net_dev w) = p \<and> vn_added (net_dev w) = 0 \<and>
    cfg w = cfg v \<and> io_dev w = io_dev v \<and> held_of t = held_of s"
proof -
  let ?v1 = "net_dev_update (vn_device_update (\<lambda>_. p)) v"
  obtain r cbs where reg: "k_register_netdev K (ktrace s1) = (r, cbs)" by fastforce
  let ?s2 = "log (Register_netdev p r) s1"
  have st: "vn_added (net_dev v) = 0" "q_enabled (vn_queue (net_dev v)) = 0"
    using inv idle by (auto simp: inv_defs dev_wf_def)
  then have i2: "drv_inv ?s2 a ?v1 []"
    using inv d p by (auto simp: s1 inv_defs lock_simps dev_wf_def set_up_dev_def queue_rep_def)
  have "Ndo_open \<notin> set (snd (k_register_netdev K (ktrace s1)))"
    using K unfolding netdev_laws_def by blast
  then have "Ndo_open \<notin> set cbs" using reg by simp
  from run_ndos_inv [OF i2 _ this] p obtain t w ys where
    t: "run_ndos p cbs ?s2 = Some t" "drv_inv t a w ys" "keeps ?s2 ?v1 t w" by auto
  from t(3) have w: "vn_device (net_dev w) = p" "vn_added (net_dev w) = 0" "cfg w = cfg v"
    "io_dev w = io_dev v" "held_of t = held_of s"
    using st by (simp_all add: keeps_def s1 lock_simps)
  with dev_down [OF t(2)] have ys: "ys = []" "q_enabled (vn_queue (net_dev w)) = 0" by auto
  have "gs_vnet t = Some (a, w)" using t(2) by (simp add: inv_defs)
  moreover have "register_netdev K p s1 = Some (r, t)" using reg t(1) by (simp add: register_netdev_def)
  ultimately show ?thesis using t(2) w ys by auto
qed

lemma net_dev_add_inv:
  assumes inv: "drv_inv s a v []" and idle: "vn_device (net_dev v) = NULL"
    and K: "netdev_laws K" and mac: "6 \<le> length (cfg_mac (cfg v))"
  shows "\<exists>r s' v'. net_dev_add K s = Some (r, s') \<and> drv_inv s' a v' [] \<and>
    cfg v' = cfg v \<and> io_dev v' = io_dev v \<and> held_of s' = held_of s \<and>
    q_enabled (vn_queue (net_dev v')) = 0 \<and>
    (if r = 0 then vn_device (net_dev v') \<noteq> NULL \<and> vn_added (net_dev v') \<noteq> 0
     else vn_device (net_dev v') = NULL)"
proof -
  define p where "p = fst (k_alloc_netdev K (ktrace s))"
  from inv idle have g: "gs_vnet s = Some (a, v)" and nd: "netdevs s = Map.empty"
    and down: "q_enabled (vn_queue (net_dev v)) = 0"
    by (auto simp: inv_defs dev_wf_def)
  show ?thesis
  proof (cases "p = NULL")
    case True
    let ?v' = "net_dev_update (vn_device_update (\<lambda>_. NULL)) v"
    let ?s' = "(log (Alloc_netdev NULL) s)\<lparr>gs_vnet := Some (a, ?v')\<rparr>"
    have "alloc_netdev K s = Some (NULL, log (Alloc_netdev NULL) s)"
      using g True by (intro alloc_netdev_fail) (simp_all add: p_def)
    then have "net_dev_add K s = Some (- ENOMEM, ?s')"
      using g by (simp add: net_dev_add_def net_dev_remove_def IS_PTR_VALID_def vnet_dev_def)
    moreover have "drv_inv ?s' a ?v' []"
      using inv idle down by (simp add: inv_defs lock_simps dev_wf_def queue_rep_def)
    ultimately show ?thesis using down by (auto simp: lock_simps)
  next
    case False
    from alloc_netdev_ok [OF _ nd p_def False mac] g obtain d where
      d: "alloc_netdev K s = Some (p, (log (Alloc_netdev p) s)\<lparr>netdevs := [p \<mapsto> d]\<rparr>)"
        "set_up_dev K (cfg v) d" by auto
    from register_fresh [OF inv idle K d(2) False refl] obtain r t w where
      t: "register_netdev K p ((log (Alloc_netdev p) s)\<lparr>netdevs := [p \<mapsto> d],
        gs_vnet := Some (a, net_dev_update (vn_device_update (\<lambda>_. p)) v)\<rparr>) = Some (r, t)"
        "drv_inv t a w []" "gs_vnet t = Some (a, w)" "q_enabled (vn_queue (net_dev w)) = 0" and
      w: "vn_device (net_dev w) = p" "vn_added (net_dev w) = 0" "cfg w = cfg v" "io_dev w = io_dev v"
        "held_of t = held_of s" by blast
    show ?thesis
    proof (cases "r = 0")
      case True
      let ?v3 = "net_dev_update (vn_added_update (\<lambda>_. 1)) w"
      let ?s3 = "t\<lparr>gs_vnet := Some (a, ?v3)\<rparr>"
      have "net_dev_add K s = Some (0, ?s3)"
        using g d(1) t(1,3) True False by (simp add: net_dev_add_def IS_PTR_VALID_def)
      moreover have "drv_inv ?s3 a ?v3 []"
        using t(2,4) w False by (simp add: inv_defs dev_wf_def)
      ultimately show ?thesis using w t(4) False True by auto
    next
      case r: False
      from net_dev_remove_inv [OF t(2) K] obtain u x where
        u: "net_dev_remove K t = Some (0, u)" "drv_inv u a x []" "vn_device (net_dev x) = NULL"
          "cfg x = cfg w" "io_dev x = io_dev w" "held_of u = held_of t" by blast
      have "net_dev_add K s = Some (r, u)"
        using g d(1) t(1) r False u(1) by (simp add: net_dev_add_def IS_PTR_VALID_def)
      moreover have "q_enabled (vn_queue (net_dev x)) = 0"
        using u(2,3) by (auto simp: inv_defs dev_wf_def)
      ultimately show ?thesis using u w r by auto
    qed
  qed
qed

text \<open>
  The interface as a resource, with a kernel that keeps the laws: idle when the driver owns
  no device, busy when its one device is registered.
\<close>

definition net_dev_idle :: "kernel \<Rightarrow> drv \<Rightarrow> bool" where
  "net_dev_idle K s \<longleftrightarrow> netdev_laws K \<and> (\<exists>a v. drv_inv s a v [] \<and>
     vn_device (net_dev v) = NULL \<and> 6 \<le> length (cfg_mac (cfg v)))"

definition net_dev_busy :: "kernel \<Rightarrow> drv \<Rightarrow> bool" where
  "net_dev_busy K s \<longleftrightarrow> netdev_laws K \<and> (\<exists>a v xs. drv_inv s a v xs \<and>
     vn_device (net_dev v) \<noteq> NULL \<and> vn_added (net_dev v) \<noteq> 0 \<and> 6 \<le> length (cfg_mac (cfg v)))"

interpretation net_dev_life: robust_lifecycle
  "net_dev_add K" "net_dev_remove K" "net_dev_idle K" "net_dev_busy K"
  for K :: kernel
proof unfold_locales
  fix s assume "net_dev_idle K s"
  then obtain a v where K: "netdev_laws K" and "drv_inv s a v []" "vn_device (net_dev v) = NULL"
      "6 \<le> length (cfg_mac (cfg v))" by (auto simp: net_dev_idle_def)
  from net_dev_add_inv [OF this(2,3) K this(4)] obtain r s' v' where
    "net_dev_add K s = Some (r, s')" "drv_inv s' a v' []" "cfg v' = cfg v"
    "if r = 0 then vn_device (net_dev v') \<noteq> NULL \<and> vn_added (net_dev v') \<noteq> 0
     else vn_device (net_dev v') = NULL" by blast
  moreover note K \<open>6 \<le> length (cfg_mac (cfg v))\<close>
  ultimately show "\<exists>r s'. net_dev_add K s = Some (r, s') \<and>
      (if r = 0 then net_dev_busy K s' else net_dev_idle K s')"
    unfolding net_dev_idle_def net_dev_busy_def
    by (intro exI [of _ r] exI [of _ s']) (cases "r = 0"; metis)
next
  fix s assume "net_dev_busy K s"
  then obtain a v xs where K: "netdev_laws K" and "drv_inv s a v xs" "6 \<le> length (cfg_mac (cfg v))"
    by (auto simp: net_dev_busy_def)
  with net_dev_remove_inv [OF this(2) K]
  show "\<exists>s'. net_dev_remove K s = Some (0, s') \<and> net_dev_idle K s'"
    unfolding net_dev_idle_def by metis
next
  fix s assume "net_dev_idle K s"
  then obtain a v where K: "netdev_laws K" and "drv_inv s a v []" "6 \<le> length (cfg_mac (cfg v))"
    by (auto simp: net_dev_idle_def)
  with net_dev_remove_inv [OF this(2) K]
  show "\<exists>s'. net_dev_remove K s = Some (0, s') \<and> net_dev_idle K s'"
    unfolding net_dev_idle_def by metis
qed

section \<open>The new interface\<close>

text \<open>
  The device that \<open>alloc_netdev\<close> hands back after \<open>net_dev_setup\<close> has run on it: the
  driver's operations and destructor, an MTU of 1400 bytes, an Ethernet header of 14, no
  multicast, the configured MAC address and queue length, and zero statistics.
\<close>

theorem new_device_configured:
  assumes "gs_vnet s = Some (a, v)" and "netdevs s = Map.empty"
    and "fst (k_alloc_netdev K (ktrace s)) \<noteq> NULL" and "length (cfg_mac (cfg v)) = 6"
  shows "\<exists>p d. alloc_netdev K s = Some (p, (log (Alloc_netdev p) s)\<lparr>netdevs := [p \<mapsto> d]\<rparr>) \<and>
    nd_kvnet_ops d \<and> nd_kvnet_destructor d \<and> nd_mtu d = 1400 \<and> nd_hard_header_len d = 14 \<and>
    nd_flags d AND IFF_MULTICAST = 0 \<and> take 6 (nd_dev_addr d) = cfg_mac (cfg v) \<and>
    nd_tx_queue_len d = scast (cfg_max_queue_len (cfg v)) \<and> nd_priv d = zero_stats"
  using alloc_netdev_ok [of s v "fst (k_alloc_netdev K (ktrace s))" K] assms
  by (auto simp: set_up_dev_def dev_conf_def)

end
