(* ===== verification/Io_Read.thy ===== *)
theory Io_Read
  imports Kvnet_Hdr Net_Dev_Inv
begin

text \<open>
  \<open>io_read.c\<close>, compiled without \<open>USE_BLOCKING_READ\<close> (\<open>hdrs.h\<close> leaves it undefined): a read
  takes packets off the queue and copies each to the user buffer its header names. The
  theorems give the exact calls a read makes when user memory is accessible, and that for
  any answers of the kernel it neither faults nor leaks, and keeps the driver's invariant.
\<close>

section \<open>The operations\<close>

definition count_tx :: "u32 \<Rightarrow> u32 net_stats \<Rightarrow> u32 net_stats" where
  "count_tx len t = t\<lparr>tx_packets := tx_packets t + 1, tx_bytes := tx_bytes t + len\<rparr>"

definition io_read_fill_network_packet ::
    "kernel \<Rightarrow> addr \<Rightarrow> addr \<Rightarrow> drv \<Rightarrow> (int \<times> drv) option" where
  "io_read_fill_network_packet K pkt skb s =
     (let r = k_get_user K (ktrace s) (pkt_data_len pkt);
          s = log (Get_user (pkt_data_len pkt) r) s in
      case r of
        None \<Rightarrow> Some (- EFAULT, s)
      | Some dlen \<Rightarrow> do {
          b \<leftarrow> skb_at skb s;
          let len = min (skb_len b) dlen;
          bs \<leftarrow> (if unat len \<le> length (skb_data b) then Some (take (unat len) (skb_data b)) else None);
          let left = k_copy_to_user K (ktrace s) (pkt_data pkt) bs;
          let s = log (Copy_to_user (pkt_data pkt) bs left) s;
          if left \<noteq> 0 then Some (- EFAULT, s)
          else do {
            s \<leftarrow> vnet_upd (net_dev_update (vn_stats_update (count_tx len))) s;
            let ok = k_put_user K (ktrace s) (pkt_data_len pkt) len;
            let s = log (Put_user (pkt_data_len pkt) len ok) s;
            Some (if ok then 0 else - EFAULT, s) } })"

text \<open>The loop over \<open>i < hdr->count\<close>, with the header's block and the count so far.\<close>

fun io_read_loop :: "kernel \<Rightarrow> block \<Rightarrow> nat list \<Rightarrow> int \<Rightarrow> drv \<Rightarrow> (int \<times> drv) option" where
  "io_read_loop K m [] ret s = Some (ret, s)"
| "io_read_loop K m (i # js) ret s = do {
     (skb, s) \<leftarrow> with_queue queue_remove s;
     if \<not> IS_PTR_VALID skb then Some (if ret = 0 then - EAGAIN else ret, s)
     else do {
       pkt \<leftarrow> hdr_pkt m (int i);
       (r, s) \<leftarrow> io_read_fill_network_packet K pkt skb s;
       if r \<noteq> 0 then do { s \<leftarrow> kfree_skb skb s; Some (- EFAULT, s) }
       else do { s \<leftarrow> kfree_skb skb s; io_read_loop K m js (ret + 1) s } } }"

definition netif_wake_queue :: "addr \<Rightarrow> drv \<Rightarrow> drv option" where
  "netif_wake_queue dev s = do { _ \<leftarrow> netdev_at dev s; Some (log (Netif_wake_queue dev) s) }"

definition io_read_to_iovec :: "kernel \<Rightarrow> u64 \<Rightarrow> drv \<Rightarrow> (int \<times> drv) option" where
  "io_read_to_iovec K len s = do {
     (r, s) \<leftarrow> fetch_header K len s;
     (case r of
        Inl e \<Rightarrow> Some (e, s)
      | Inr (hdr, count) \<Rightarrow> do {
          (ret, s) \<leftarrow> io_read_loop K (kb_mem hdr) [0..<unat count] 0 s;
          v \<leftarrow> vnet_dev s;
          s \<leftarrow> netif_wake_queue (vn_device (net_dev v)) s;
          return_count K hdr ret s }) }"

section \<open>Taking one packet\<close>

lemma take_packet_empty:
  assumes inv: "drv_inv s a v []"
  shows "\<exists>s'. with_queue queue_remove s = Some (NULL, s') \<and> drv_inv s' a v [] \<and>
    ktrace s' = ktrace s @ [Spin_lock_bh Queue_lock, Spin_unlock_bh Queue_lock] \<and>
    same_but_trace s s' \<and> held_of s' = held_of s"
proof -
  let ?s' = "release_lock Queue_lock (acquire_lock Queue_lock s)"
  have g: "gs_vnet s = Some (a, v)" using inv by (simp add: inv_defs)
  have qr: "queue_remove (vn_queue (net_dev v)) s = Some (NULL, vn_queue (net_dev v), ?s')"
    using inv by (simp add: queue_remove_raw queue_simps inv_defs raw_queue_remove_def IS_PTR_VALID_def)
  have "with_queue queue_remove s = Some (NULL, ?s'\<lparr>gs_vnet :=
      Some (a, net_dev_update (vn_queue_update (\<lambda>_. vn_queue (net_dev v))) v)\<rparr>)"
    by (rule with_queue_Some [where f = queue_remove, OF g qr]) (simp add: g)
  also have "?s'\<lparr>gs_vnet := Some (a, net_dev_update (vn_queue_update (\<lambda>_. vn_queue (net_dev v))) v)\<rparr> = ?s'"
    using g by simp
  finally have eq: "with_queue queue_remove s = Some (NULL, ?s')" .
  have tr: "ktrace ?s' = ktrace s @ [Spin_lock_bh Queue_lock, Spin_unlock_bh Queue_lock]"
    by (simp add: acquire_lock_def release_lock_def)
  have lk: "lock_of s = Some False" using inv by (simp add: inv_defs)
  have "drv_inv ?s' a v []" using inv by (simp add: inv_defs lock_simps)
  moreover have "same_but_trace s ?s'" using lk by (simp add: same_but_trace_def lock_simps)
  ultimately show ?thesis using eq tr by auto
qed

text \<open>
  \<open>holding s a v x b xs\<close>: the driver has taken the packet \<open>x\<close>, with payload \<open>b\<close>, off the
  queue; without it the state is the invariant's, with \<open>xs\<close> still queued.
\<close>

definition holding :: "drv \<Rightarrow> addr \<Rightarrow> vnet \<Rightarrow> addr \<Rightarrow> sk_buff \<Rightarrow> addr list \<Rightarrow> bool" where
  "holding s a v x b xs \<longleftrightarrow> x \<noteq> NULL \<and> skb_linear b \<and> (\<exists>b'. skbs s x = Some b' \<and> payload b' = b) \<and>
     drv_inv (s\<lparr>skbs := (skbs s)(x := None)\<rparr>) a v xs"

lemma take_packet:
  assumes inv: "drv_inv s a v (x # xs)" and b: "pool_of s x = Some b"
  shows "\<exists>s' q. with_queue queue_remove s = Some (x, s') \<and>
    holding s' a (net_dev_update (vn_queue_update (\<lambda>_. q)) v) x b xs \<and>
    ktrace s' = ktrace s @ [Spin_lock_bh Queue_lock, Spin_unlock_bh Queue_lock] \<and>
    netdevs s' = netdevs s \<and> pool_of s' = pool_of s \<and> q_enabled q = q_enabled (vn_queue (net_dev v)) \<and>
    held_of s' = held_of s"
proof -
  note I = inv [unfolded inv_defs]
  let ?s0 = "acquire_lock Queue_lock s"
  from I have g: "gs_vnet s = Some (a, v)" and lk: "lock_of s = Some False"
    and rep: "queue_rep (vn_queue (net_dev v)) (skbs ?s0) (x # xs)" by simp_all
  from raw_queue_remove_cons [OF rep] obtain q h where
    qh: "raw_queue_remove (vn_queue (net_dev v)) ?s0 = Some (x, q, ?s0\<lparr>skbs := h\<rparr>)"
      "queue_rep q h xs" "q_enabled q = q_enabled (vn_queue (net_dev v))"
      "pool_of (?s0\<lparr>skbs := h\<rparr>) = pool_of s" by auto
  let ?s1 = "release_lock Queue_lock (?s0\<lparr>skbs := h\<rparr>)"
  let ?v' = "net_dev_update (vn_queue_update (\<lambda>_. q)) v"
  let ?s' = "?s1\<lparr>gs_vnet := Some (a, ?v')\<rparr>"
  have qr: "queue_remove (vn_queue (net_dev v)) s = Some (x, q, ?s1)"
    using qh(1) by (simp add: queue_remove_raw)
  have eq: "with_queue queue_remove s = Some (x, ?s')"
    by (rule with_queue_Some [where f = queue_remove, OF g qr]) (simp add: g)
  have tr: "ktrace ?s' = ktrace s @ [Spin_lock_bh Queue_lock, Spin_unlock_bh Queue_lock]"
    by (simp add: acquire_lock_def release_lock_def)
  have pool: "pool_of ?s' = pool_of s" using qh(4) by (simp add: pool_of_def fun_eq_iff)
  have nin: "x \<notin> set xs" "x \<noteq> NULL" using queue_rep_props [OF rep] by auto
  have "dom h = dom (skbs s)"
    using qh(4) dom_pool_of [of "?s0\<lparr>skbs := h\<rparr>"] dom_pool_of [of s] by simp
  then have dom: "dom (h(x := None)) = set xs" using I nin by auto
  have "heap_linear (skbs (?s0\<lparr>skbs := h\<rparr>))" using I qh(4) unfolding heap_linear_pool by simp
  then have lin: "heap_linear (h(x := None))" by (auto simp: heap_linear_def)
  from b pool have "pool_of ?s' x = Some b" by simp
  then have "\<exists>b'. skbs ?s' x = Some b' \<and> payload b' = b" unfolding pool_of_def by blast
  moreover have "skb_linear b"
    using I b unfolding heap_linear_pool by blast
  moreover have "drv_inv (?s'\<lparr>skbs := (skbs ?s')(x := None)\<rparr>) a ?v' xs"
    using I qh(2,3) dom lin nin lk by (auto simp: inv_defs lock_simps queue_rep_upd)
  ultimately have "holding ?s' a ?v' x b xs" using nin by (simp add: holding_def)
  with eq tr pool qh(3) show ?thesis
    by (intro exI [of _ ?s'] exI [of _ q]) simp
qed

lemma free_held:
  assumes "holding s a v x b xs"
  shows "\<exists>s'. kfree_skb x s = Some s' \<and> drv_inv s' a v xs \<and> ktrace s' = ktrace s @ [Kfree_skb x] \<and>
    netdevs s' = netdevs s \<and> pool_of s' = (pool_of s)(x := None) \<and> held_of s' = held_of s"
proof -
  from assms obtain b' where h: "x \<noteq> NULL" "skbs s x = Some b'"
      "drv_inv (s\<lparr>skbs := (skbs s)(x := None)\<rparr>) a v xs" by (auto simp: holding_def)
  let ?s' = "log (Kfree_skb x) (s\<lparr>skbs := (skbs s)(x := None)\<rparr>)"
  have "drv_inv ?s' a v xs"
    by (rule drv_inv_log [OF _ _ h(3)]) (use h(3) in \<open>simp_all add: inv_defs lock_simps\<close>)
  moreover have "pool_of ?s' = (pool_of s)(x := None)" by (auto simp: pool_of_def fun_eq_iff)
  ultimately show ?thesis using h by (simp add: lock_simps)
qed

section \<open>Copying one packet\<close>

text \<open>Calls and counters while a packet is held leave everything else as it is.\<close>

lemma holding_log:
  assumes "holding s a v x b xs" and "lock_step e False = Some False"
    and "\<And>u. up_step e u = u"
  shows "holding (log e s) a v x b xs"
proof -
  have eq: "(log e s)\<lparr>skbs := h\<rparr> = log e (s\<lparr>skbs := h\<rparr>)" for h by (simp add: log_def)
  show ?thesis using assms by (auto simp: holding_def inv_defs lock_simps eq)
qed

lemma holding_stats:
  assumes "holding s a v x b xs"
  shows "holding (s\<lparr>gs_vnet := Some (a, net_dev_update (vn_stats_update f) v)\<rparr>) a
    (net_dev_update (vn_stats_update f) v) x b xs"
  using assms by (auto simp: holding_def inv_defs)

lemma holding_gs_vnet: "holding s a v x b xs \<Longrightarrow> gs_vnet s = Some (a, v)"
  by (simp add: holding_def inv_defs)

definition only_stats :: "vnet \<Rightarrow> vnet \<Rightarrow> bool" where
  "only_stats v w \<longleftrightarrow> (\<exists>f. w = net_dev_update (vn_stats_update f) v)"

lemma fill_total:
  assumes h: "holding s a v x b xs"
  shows "\<exists>r s' w. io_read_fill_network_packet K pkt x s = Some (r, s') \<and> (r = 0 \<or> r = - EFAULT) \<and>
    holding s' a w x b xs \<and> only_stats v w \<and> skbs s' = skbs s \<and> netdevs s' = netdevs s \<and>
    held_of s' = held_of s"
proof -
  from h obtain b' where b': "x \<noteq> NULL" "skbs s x = Some b'" "skb_linear b'"
    by (auto simp: holding_def)
  have refl: "only_stats v v"
    by (auto simp: only_stats_def intro!: exI [of _ "\<lambda>x. x"])
  define r where "r = k_get_user K (ktrace s) (pkt_data_len pkt)"
  define s1 where "s1 = log (Get_user (pkt_data_len pkt) r) s"
  have h1: "holding s1 a v x b xs" unfolding s1_def by (rule holding_log [OF h]) simp_all
  show ?thesis
  proof (cases r)
    case None
    have "io_read_fill_network_packet K pkt x s = Some (- EFAULT, s1)"
      using None by (simp add: io_read_fill_network_packet_def r_def s1_def)
    with h1 refl show ?thesis by (auto simp: s1_def lock_simps)
  next
    case (Some dlen)
    define len where "len = min (skb_len b') dlen"
    define bs where "bs = take (unat len) (skb_data b')"
    define left where "left = k_copy_to_user K (ktrace s1) (pkt_data pkt) bs"
    define s2 where "s2 = log (Copy_to_user (pkt_data pkt) bs left) s1"
    have "len \<le> skb_len b'" by (simp add: len_def)
    then have fits: "unat len \<le> length (skb_data b')"
      using b'(3) by (simp add: skb_linear_def word_le_nat_alt)
    have at: "skb_at x s1 = Some b'" using b' by (simp add: s1_def skb_at_def)
    have h2: "holding s2 a v x b xs" unfolding s2_def by (rule holding_log [OF h1]) simp_all
    define s3 where "s3 = s2\<lparr>gs_vnet := Some (a, net_dev_update (vn_stats_update (count_tx len)) v)\<rparr>"
    define ok where "ok = k_put_user K (ktrace s3) (pkt_data_len pkt) len"
    define s4 where "s4 = log (Put_user (pkt_data_len pkt) len ok) s3"
    have h4: "holding s4 a (net_dev_update (vn_stats_update (count_tx len)) v) x b xs"
      unfolding s4_def s3_def by (rule holding_log [OF holding_stats [OF h2]]) simp_all
    have eq: "io_read_fill_network_packet K pkt x s =
        (if left \<noteq> 0 then Some (- EFAULT, s2) else Some (if ok then 0 else - EFAULT, s4))"
      using Some at fits holding_gs_vnet [OF h]
      by (simp add: io_read_fill_network_packet_def r_def s1_def len_def bs_def left_def s2_def
          s3_def ok_def s4_def Let_def)
    have fr: "skbs s2 = skbs s" "netdevs s2 = netdevs s" "skbs s4 = skbs s" "netdevs s4 = netdevs s"
      "held_of s2 = held_of s" "held_of s4 = held_of s"
      by (simp_all add: s1_def s2_def s3_def s4_def lock_simps)
    have os: "only_stats v (net_dev_update (vn_stats_update (count_tx len)) v)"
      by (auto simp: only_stats_def)
    show ?thesis unfolding eq using h2 h4 fr refl os by auto
  qed
qed

section \<open>The loop: always safe\<close>

lemma only_stats_keeps:
  "only_stats v w \<Longrightarrow> netdevs s' = netdevs s \<Longrightarrow> held_of s' = held_of s \<Longrightarrow> keeps s v s' w"
  by (auto simp: only_stats_def keeps_def)

lemma inv_pool: "drv_inv s a v (x # xs) \<Longrightarrow> \<exists>b. pool_of s x = Some b"
  by (auto simp: inv_defs pool_of_def)

text \<open>One round of the loop with a packet in the queue, whatever the kernel answers.\<close>

lemma read_round:
  assumes inv: "drv_inv s a v (x # xs)"
  shows "\<exists>s1 s2 s3 r w. with_queue queue_remove s = Some (x, s1) \<and> x \<noteq> NULL \<and>
    io_read_fill_network_packet K pkt x s1 = Some (r, s2) \<and> (r = 0 \<or> r = - EFAULT) \<and>
    kfree_skb x s2 = Some s3 \<and> drv_inv s3 a w xs \<and> keeps s v s3 w \<and>
    pool_of s3 = (pool_of s)(x := None) \<and> held_of s3 = held_of s \<and> up_of s3 = up_of s"
proof -
  obtain b where "pool_of s x = Some b" using inv_pool [OF inv] by blast
  from take_packet [OF inv this] obtain s1 q where
    s1: "with_queue queue_remove s = Some (x, s1)"
      "holding s1 a (net_dev_update (vn_queue_update (\<lambda>_. q)) v) x b xs"
      "netdevs s1 = netdevs s" "pool_of s1 = pool_of s" "held_of s1 = held_of s"
      "q_enabled q = q_enabled (vn_queue (net_dev v))" by blast
  from fill_total [OF s1(2), of K pkt] obtain r s2 w where
    s2: "io_read_fill_network_packet K pkt x s1 = Some (r, s2)" "r = 0 \<or> r = - EFAULT"
      "holding s2 a w x b xs" "only_stats (net_dev_update (vn_queue_update (\<lambda>_. q)) v) w"
      "skbs s2 = skbs s1" "netdevs s2 = netdevs s1" "held_of s2 = held_of s1" by blast
  from free_held [OF s2(3)] obtain s3 where
    s3: "kfree_skb x s2 = Some s3" "drv_inv s3 a w xs" "netdevs s3 = netdevs s2"
      "pool_of s3 = (pool_of s2)(x := None)" "held_of s3 = held_of s2" by blast
  have "keeps s v s3 w"
    using s1(3,5) s2(4,6,7) s3(3,5) by (auto simp: only_stats_def keeps_def)
  moreover have "pool_of s2 = pool_of s1" using s2(5) by (simp add: pool_of_def fun_eq_iff)
  moreover have "x \<noteq> NULL" using s1(2) by (simp add: holding_def)
  moreover have "up_of s3 = up_of s"
    using inv s1(6) s2(4) s3(2) by (auto simp: only_stats_def inv_defs)
  ultimately show ?thesis using s1 s2 s3 by simp blast
qed

definition loop_result :: "int \<Rightarrow> nat list \<Rightarrow> addr list \<Rightarrow> int \<Rightarrow> nat \<Rightarrow> bool" where
  "loop_result ret js xs ret' k \<longleftrightarrow>
     (ret' = ret + int k \<and> k = min (length js) (length xs) \<and> (ret' = 0 \<longrightarrow> js = [])) \<or>
     (ret' = - EAGAIN \<and> ret = 0 \<and> k = 0 \<and> xs = []) \<or>
     (ret' = - EFAULT \<and> 0 < k)"

lemma io_read_loop_total:
  assumes "drv_inv s a v xs" and "\<And>i. i \<in> set js \<Longrightarrow> hdr_pkt m (int i) \<noteq> None" and "0 \<le> ret"
  shows "\<exists>ret' s' w k. io_read_loop K m js ret s = Some (ret', s') \<and>
    k \<le> length xs \<and> k \<le> length js \<and> loop_result ret js xs ret' k \<and>
    drv_inv s' a w (drop k xs) \<and> keeps s v s' w \<and> held_of s' = held_of s \<and>
    pool_of s' = (pool_of s) |` (- set (take k xs)) \<and> up_of s' = up_of s"
  using assms
proof (induction js arbitrary: s v xs ret)
  case Nil
  then show ?case
    by (auto simp: loop_result_def restrict_map_def intro!: exI [of _ v] exI [of _ "0::nat"])
next
  case (Cons i js)
  show ?case
  proof (cases xs)
    case Nil
    with take_packet_empty [of s a v] Cons.prems(1) obtain s' where
      s': "with_queue queue_remove s = Some (NULL, s')" "drv_inv s' a v []"
        "same_but_trace s s'" "held_of s' = held_of s" by blast
    have "pool_of s' = pool_of s" using s'(3) by (simp add: same_but_trace_def pool_of_def fun_eq_iff)
    moreover have "keeps s v s' v" "up_of s' = up_of s"
      using s'(3,4) by (simp_all add: same_but_trace_def keeps_def)
    moreover have "io_read_loop K m (i # js) ret s = Some (if ret = 0 then - EAGAIN else ret, s')"
      using s' by (simp add: IS_PTR_VALID_def)
    ultimately show ?thesis using s' Nil
      by (auto simp: loop_result_def restrict_map_def intro!: exI [of _ v] exI [of _ "0::nat"])
  next
    case (Cons x ys)
    obtain pkt where pkt: "hdr_pkt m (int i) = Some pkt" using Cons.prems(2) [of i] by auto
    from read_round [of s a v x ys K pkt] Cons Cons.prems(1) obtain s1 s2 s3 r w where
      r: "with_queue queue_remove s = Some (x, s1)" "x \<noteq> NULL"
        "io_read_fill_network_packet K pkt x s1 = Some (r, s2)" "r = 0 \<or> r = - EFAULT"
        "kfree_skb x s2 = Some s3" "drv_inv s3 a w ys" "keeps s v s3 w"
        "pool_of s3 = (pool_of s)(x := None)" "held_of s3 = held_of s" "up_of s3 = up_of s" by blast
    show ?thesis
    proof (cases "r = 0")
      case True
      from Cons.IH [OF r(6), of "ret + 1"] Cons.prems obtain ret' s' w' k where
        k: "io_read_loop K m js (ret + 1) s3 = Some (ret', s')" "k \<le> length ys" "k \<le> length js"
          "loop_result (ret + 1) js ys ret' k" "drv_inv s' a w' (drop k ys)" "keeps s3 w s' w'"
          "held_of s' = held_of s3" "pool_of s' = (pool_of s3) |` (- set (take k ys))"
          "up_of s' = up_of s3"
        by auto
      have "io_read_loop K m (i # js) ret s = Some (ret', s')"
        using r True pkt k(1) by (simp add: IS_PTR_VALID_def)
      moreover have "loop_result ret (i # js) xs ret' (Suc k)"
        using k(4) Cons.prems(3) Cons by (auto simp: loop_result_def)
      moreover have "pool_of s' = (pool_of s) |` (- set (take (Suc k) xs))"
        using k(8) r(8) Cons by (auto simp: restrict_map_def fun_eq_iff)
      moreover have "keeps s v s' w'" using keeps_trans [OF r(7) k(6)] .
      ultimately show ?thesis using k r Cons
        by (intro exI [of _ ret'] exI [of _ s'] exI [of _ w'] exI [of _ "Suc k"]) simp
    next
      case False
      then have "io_read_loop K m (i # js) ret s = Some (- EFAULT, s3)"
        using r pkt by (simp add: IS_PTR_VALID_def)
      moreover have "pool_of s3 = (pool_of s) |` (- set (take 1 xs))"
        using r(8) Cons by (auto simp: restrict_map_def fun_eq_iff)
      ultimately show ?thesis using r Cons
        by (intro exI [of _ "- EFAULT"] exI [of _ s3] exI [of _ w] exI [of _ "1::nat"])
          (simp add: loop_result_def)
    qed
  qed
qed

section \<open>A whole read: always safe\<close>

lemma drv_inv_same_but_trace:
  assumes "drv_inv s a v xs" and "same_but_trace s t"
  shows "drv_inv t a v xs"
  using assms dev_wf_cong [of t s v v] by (simp add: same_but_trace_def inv_defs)

lemma same_but_trace_free: "lock_of s = Some False \<Longrightarrow> same_but_trace s (free_paged_mem p s)"
  by (simp add: free_paged_mem_def same_but_trace_def lock_simps)

lemma held_of_free:
  "held_of s = do { rs \<leftarrow> ls; Some (Block p # rs) } \<Longrightarrow> p \<noteq> NULL \<Longrightarrow> held_of (free_paged_mem p s) = ls"
  by (simp add: free_paged_mem_def IS_PTR_VALID_def lock_simps)

text \<open>The end of a read or a write, whatever the loop returned.\<close>

lemma return_count_total:
  assumes f: "fetched len hdr count" and n: "ret < 2 ^ 32" and lk: "lock_of s = Some False"
    and l: "held_of s = do { rs \<leftarrow> ls; Some (Block (kb_addr hdr) # rs) }"
  shows "\<exists>ret' s'. return_count K hdr ret s = Some (ret', s') \<and> same_but_trace s s' \<and>
    held_of s' = ls \<and>
    (if 0 \<le> ret then ret' = (if ret = 0 then 12 else 4 + 8 * ret) \<or> ret' = - EFAULT
     else ret' = ret)"
proof (cases "0 \<le> ret")
  case True
  let ?bs = "le_bytes 4 (nat ret)"
  let ?s1 = "log (Memcpy_toiovec ?bs (k_memcpy_toiovec K (ktrace s) ?bs)) s"
  have "same_but_trace s ?s1" "lock_of ?s1 = Some False"
    using lk by (simp_all add: same_but_trace_def lock_simps)
  then have "same_but_trace s (free_paged_mem (kb_addr hdr) ?s1)"
    using same_but_trace_trans same_but_trace_free by blast
  moreover have "held_of (free_paged_mem (kb_addr hdr) ?s1) = ls"
    by (rule held_of_free) (use f l in \<open>simp_all add: fetched_def lock_simps\<close>)
  ultimately show ?thesis using return_count_eq [OF f True n, of K s] True by (auto simp: Let_def)
next
  case False
  then show ?thesis
    using same_but_trace_free [OF lk] held_of_free [OF l] f
    by (simp add: return_count_error fetched_def)
qed

text \<open>The values a read can return, and how many packets it has taken off the queue then.\<close>

definition read_result :: "u64 \<Rightarrow> 'p list \<Rightarrow> int \<Rightarrow> nat \<Rightarrow> bool" where
  "read_result len xs ret k \<longleftrightarrow> k \<le> length xs \<and>
     ((ret \<in> {- EINVAL, - ENOMEM} \<and> k = 0) \<or> ret = - EFAULT \<or>
      (ret = - EAGAIN \<and> xs = []) \<or>
      (1 \<le> k \<and> ret = 4 + 8 * int k \<and> ret \<le> int (unat len)))"

text \<open>After the loop the interface's queue is woken, which leaves the driver as it is.\<close>

lemma wake_queue_ok:
  assumes t: "drv_inv t a w xs" and dev: "vn_device (net_dev w) \<noteq> NULL"
  shows "\<exists>u. netif_wake_queue (vn_device (net_dev w)) t = Some u \<and> u = log (Netif_wake_queue (vn_device (net_dev w))) t \<and>
    drv_inv u a w xs \<and> lock_of u = Some False"
proof -
  let ?u = "log (Netif_wake_queue (vn_device (net_dev w))) t"
  have l: "lock_of ?u = Some False" using t by (simp add: inv_defs lock_simps)
  have "drv_inv ?u a w xs" by (rule drv_inv_log [OF l _ t]) (simp add: lock_simps)
  moreover have "netif_wake_queue (vn_device (net_dev w)) t = Some ?u"
    using t dev by (auto simp: netif_wake_queue_def netdev_at_def inv_defs dev_wf_def)
  ultimately show ?thesis using l by blast
qed

text \<open>The value returned, from what the loop returned.\<close>

lemma loop_result_bound:
  fixes count :: u32
  assumes "loop_result 0 [0..<unat count] xs ret k"
  shows "ret < 2 ^ 32"
proof -
  have "unat count < 2 ^ 32" using unsigned_less [of count] by simp
  then show ?thesis using assms by (auto simp: loop_result_def)
qed

lemma read_result_loop:
  assumes l: "loop_result 0 [0..<unat count] xs ret k" "k \<le> length xs" "k \<le> unat count"
    and c: "count \<noteq> 0" "header_size count \<le> len"
    and r: "if 0 \<le> ret then ret' = (if ret = 0 then 12 else 4 + 8 * ret) \<or> ret' = - EFAULT else ret' = ret"
  shows "read_result len xs ret' k"
proof -
  have cl: "4 + 8 * unat count \<le> unat len" "0 < unat count"
    using c header_size_exact [of count] by (simp_all add: word_le_nat_alt unat_gt_0)
  show ?thesis
  proof (cases "0 \<le> ret")
    case True
    with l(1) cl(2) have "ret = int k" "1 \<le> k" by (auto simp: loop_result_def Suc_le_eq)
    moreover from this r have "ret' = 4 + 8 * int k \<or> ret' = - EFAULT" by auto
    moreover have "4 + 8 * int k \<le> int (unat len)" using cl(1) l(3) by linarith
    ultimately show ?thesis using l(2) by (auto simp: read_result_def)
  next
    case False
    then show ?thesis using l(1,2) r by (auto simp: loop_result_def read_result_def)
  qed
qed

text \<open>What follows the fetch of a header that was accepted.\<close>

lemma read_body_safe:
  assumes inv: "drv_inv s a v xs" and dev: "vn_device (net_dev v) \<noteq> NULL" and f: "fetched len hdr count"
    and h: "held_of s = do { rs \<leftarrow> ls; Some (Block (kb_addr hdr) # rs) }"
  shows "\<exists>ret ret' t u s' w k. io_read_loop K (kb_mem hdr) [0..<unat count] 0 s = Some (ret, t) \<and>
    vnet_dev t = Some w \<and> netif_wake_queue (vn_device (net_dev w)) t = Some u \<and>
    return_count K hdr ret u = Some (ret', s') \<and> drv_inv s' a w (drop k xs) \<and>
    vn_device (net_dev w) = vn_device (net_dev v) \<and> vn_added (net_dev w) = vn_added (net_dev v) \<and>
    cfg w = cfg v \<and> io_dev w = io_dev v \<and> netdevs s' = netdevs s \<and> held_of s' = ls \<and> pool_of s' = (pool_of s) |` (- set (take k xs)) \<and>
    up_of s' = up_of s \<and> k \<le> length xs \<and> read_result len xs ret' k"
proof -
  obtain bs where bs: "kb_mem hdr = map Some bs" "length bs = unat len"
    and c: "count \<noteq> 0" "header_size count \<le> len" using f by (auto simp: fetched_def)
  have pk: "hdr_pkt (kb_mem hdr) (int i) \<noteq> None" if "i \<in> set [0..<unat count]" for i
    using checked_header_pkt [OF c bs(2), of i "[]"] that bs(1) by simp
  from io_read_loop_total [where js = "[0..<unat count]" and ret = 0 and K = K, OF inv pk]
  obtain ret t w k where
    t: "io_read_loop K (kb_mem hdr) [0..<unat count] 0 s = Some (ret, t)"
      "k \<le> length xs" "k \<le> unat count" "loop_result 0 [0..<unat count] xs ret k"
      "drv_inv t a w (drop k xs)" "keeps s v t w" "held_of t = held_of s"
      "pool_of t = (pool_of s) |` (- set (take k xs))" "up_of t = up_of s"
    unfolding length_upt by auto
  note k = t(6) [unfolded keeps_def]
  from wake_queue_ok [OF t(5)] k dev obtain u where
    u: "netif_wake_queue (vn_device (net_dev w)) t = Some u" "u = log (Netif_wake_queue (vn_device (net_dev w))) t"
      "drv_inv u a w (drop k xs)" "lock_of u = Some False" by auto
  have hu: "held_of u = do { rs \<leftarrow> ls; Some (Block (kb_addr hdr) # rs) }"
    using t(7) h by (simp add: u(2) lock_simps)
  from return_count_total [OF f loop_result_bound [OF t(4)] u(4) hu, of K]
  obtain ret' s' where s': "return_count K hdr ret u = Some (ret', s')" "same_but_trace u s'" "held_of s' = ls"
      "if 0 \<le> ret then ret' = (if ret = 0 then 12 else 4 + 8 * ret) \<or> ret' = - EFAULT else ret' = ret" by blast
  have "netdevs s' = netdevs t" "pool_of s' = pool_of t" "up_of s' = up_of t"
    using s'(2) by (simp_all add: u(2) same_but_trace_def pool_of_def fun_eq_iff lock_simps)
  moreover have "vnet_dev t = Some w" using t(5) by (simp add: inv_defs)
  ultimately show ?thesis
    using t(1,2,8,9) u(1) s'(1,3) k drv_inv_same_but_trace [OF u(3) s'(2)] read_result_loop [OF t(4,2,3) c s'(4)]
    by (intro exI [of _ ret] exI [of _ ret'] exI [of _ t] exI [of _ u] exI [of _ s'] exI [of _ w] exI [of _ k]) simp
qed

lemma io_read_safe:
  assumes inv: "drv_inv s a v xs" and dev: "vn_device (net_dev v) \<noteq> NULL"
    and K: "iovec_laws K" and len: "unat len < 2 ^ 31"
  shows "\<exists>ret s' w k. io_read_to_iovec K len s = Some (ret, s') \<and> k \<le> length xs \<and>
    drv_inv s' a w (drop k xs) \<and> keeps s v s' w \<and>
    pool_of s' = (pool_of s) |` (- set (take k xs)) \<and> up_of s' = up_of s \<and>
    read_result len xs ret k"
proof -
  from inv have lk: "lock_of s = Some False" by (simp add: inv_defs)
  from fetch_header_safe [OF K len lk] obtain r s1 where
    s1: "fetch_header K len s = Some (r, s1)" "same_but_trace s s1"
      "case r of
       Inl e \<Rightarrow> e \<in> {- EINVAL, - ENOMEM, - EFAULT} \<and> held_of s1 = held_of s
     | Inr (hdr, count) \<Rightarrow> fetched len hdr count \<and> held_of s1 = do { rs \<leftarrow> held_of s; Some (Block (kb_addr hdr) # rs) }"
    by blast
  have i1: "drv_inv s1 a v xs" by (rule drv_inv_same_but_trace [OF inv s1(2)])
  have nd1: "netdevs s1 = netdevs s" "up_of s1 = up_of s" "pool_of s1 = pool_of s"
    using s1(2) by (simp_all add: same_but_trace_def pool_of_def fun_eq_iff)
  show ?thesis
  proof (cases r)
    case (Inl e)
    with s1 have "io_read_to_iovec K len s = Some (e, s1)" by (simp add: io_read_to_iovec_def)
    with Inl s1(3) i1 nd1 show ?thesis
      by (intro exI [of _ e] exI [of _ s1] exI [of _ v] exI [of _ "0::nat"])
        (auto simp: keeps_def read_result_def restrict_map_def)
  next
    case (Inr hc)
    obtain hdr count where hc: "hc = (hdr, count)" by fastforce
    with Inr s1(3) have f: "fetched len hdr count" "held_of s1 = do { rs \<leftarrow> held_of s; Some (Block (kb_addr hdr) # rs) }"
      by auto
    from read_body_safe [OF i1 dev f, of K] obtain ret ret' t u s' w k where
      b: "io_read_loop K (kb_mem hdr) [0..<unat count] 0 s1 = Some (ret, t)" "vnet_dev t = Some w"
        "netif_wake_queue (vn_device (net_dev w)) t = Some u" "return_count K hdr ret u = Some (ret', s')"
        "drv_inv s' a w (drop k xs)" "keeps s v s' w" "pool_of s' = (pool_of s) |` (- set (take k xs))"
        "up_of s' = up_of s" "k \<le> length xs" "read_result len xs ret' k"
      unfolding keeps_def nd1 by blast
    then have "io_read_to_iovec K len s = Some (ret', s')"
      using s1(1) Inr hc by (simp add: io_read_to_iovec_def)
    with b show ?thesis by blast
  qed
qed

section \<open>A read into accessible memory: exactly\<close>

text \<open>
  \<open>user_ok K h P cap\<close>: from history \<open>h\<close> on, the user buffers at the addresses \<open>P\<close> are
  accessible, and the one at \<open>p\<close> says it takes \<open>cap p\<close> bytes until the driver overwrites
  that.
\<close>

definition user_ok :: "kernel \<Rightarrow> kcall list \<Rightarrow> addr set \<Rightarrow> (addr \<Rightarrow> u32) \<Rightarrow> bool" where
  "user_ok K h P cap \<longleftrightarrow> (\<forall>es. \<forall>p\<in>P.
     ((\<forall>v r. Put_user p v r \<notin> set es) \<longrightarrow> k_get_user K (h @ es) p = Some (cap p)) \<and>
     (\<forall>bs. k_copy_to_user K (h @ es) (pkt_data p) bs = 0) \<and>
     (\<forall>v. k_put_user K (h @ es) p v))"

lemma user_ok_mono: "P' \<subseteq> P \<Longrightarrow> user_ok K h P cap \<Longrightarrow> user_ok K h P' cap"
  unfolding user_ok_def by blast

text \<open>What one delivered packet adds to the trace.\<close>

definition deliver_len :: "(addr \<Rightarrow> u32) \<Rightarrow> addr \<Rightarrow> sk_buff \<Rightarrow> u32" where
  "deliver_len cap p b = min (skb_len b) (cap p)"

definition deliver_calls :: "(addr \<Rightarrow> u32) \<Rightarrow> addr \<Rightarrow> addr \<Rightarrow> sk_buff \<Rightarrow> kcall list" where
  "deliver_calls cap p x b =
     [Spin_lock_bh Queue_lock, Spin_unlock_bh Queue_lock,
      Get_user p (Some (cap p)),
      Copy_to_user (pkt_data p) (take (unat (deliver_len cap p b)) (skb_data b)) 0,
      Put_user p (deliver_len cap p b) True,
      Kfree_skb x]"

lemma fill_exact:
  assumes h: "holding s a v x b xs"
    and g: "k_get_user K (ktrace s) p = Some (cap p)"
    and c: "\<And>es bs. k_copy_to_user K (ktrace s @ es) (pkt_data p) bs = 0"
    and pu: "\<And>es n. k_put_user K (ktrace s @ es) p n"
  shows "\<exists>s'. io_read_fill_network_packet K p x s = Some (0, s') \<and>
    holding s' a (net_dev_update (vn_stats_update (count_tx (deliver_len cap p b))) v) x b xs \<and>
    ktrace s' = ktrace s @ [Get_user p (Some (cap p)),
      Copy_to_user (pkt_data p) (take (unat (deliver_len cap p b)) (skb_data b)) 0,
      Put_user p (deliver_len cap p b) True] \<and>
    skbs s' = skbs s \<and> netdevs s' = netdevs s \<and> held_of s' = held_of s"
proof -
  from h obtain b' where b': "x \<noteq> NULL" "skbs s x = Some b'" "payload b' = b" "skb_linear b'"
    by (auto simp: holding_def)
  then have f: "skb_len b = skb_len b'" "skb_data b = skb_data b'" by (auto simp: payload_def)
  define len where "len = deliver_len cap p b"
  define bs where "bs = take (unat len) (skb_data b)"
  define s1 where "s1 = log (Get_user p (Some (cap p))) s"
  define s2 where "s2 = log (Copy_to_user (pkt_data p) bs 0) s1"
  define s3 where "s3 = s2\<lparr>gs_vnet := Some (a, net_dev_update (vn_stats_update (count_tx len)) v)\<rparr>"
  define s4 where "s4 = log (Put_user p len True) s3"
  have "len \<le> skb_len b'" by (simp add: len_def deliver_len_def f)
  then have fits: "unat len \<le> length (skb_data b')"
    using b'(4) by (simp add: skb_linear_def word_le_nat_alt)
  have h1: "holding s1 a v x b xs" unfolding s1_def by (rule holding_log [OF h]) simp_all
  have h2: "holding s2 a v x b xs" unfolding s2_def by (rule holding_log [OF h1]) simp_all
  have h4: "holding s4 a (net_dev_update (vn_stats_update (count_tx len)) v) x b xs"
    unfolding s4_def s3_def by (rule holding_log [OF holding_stats [OF h2]]) simp_all
  have k: "k_copy_to_user K (ktrace s1) (pkt_data p) bs = 0" "k_put_user K (ktrace s3) p len"
    using c [of "[Get_user p (Some (cap p))]" bs]
      pu [of "[Get_user p (Some (cap p)), Copy_to_user (pkt_data p) bs 0]" len]
    by (simp_all add: s1_def s2_def s3_def)
  have at: "skb_at x s1 = Some b'" using b' by (simp add: s1_def skb_at_def)
  have upd: "vnet_upd (net_dev_update (vn_stats_update (count_tx len))) s2 = Some s3"
    using holding_gs_vnet [OF h2] by (simp add: s3_def)
  have "io_read_fill_network_packet K p x s = Some (0, s4)"
    using g at fits k upd f
    by (simp add: io_read_fill_network_packet_def pkt_data_len_def s1_def [symmetric]
        deliver_len_def [of cap p b, folded len_def, unfolded f(1), symmetric]
        bs_def [unfolded f(2), symmetric] s2_def [symmetric] s4_def Let_def)
  with h4 show ?thesis
    by (simp add: s1_def s2_def s3_def s4_def bs_def len_def lock_simps)
qed

lemma read_round_exact:
  assumes inv: "drv_inv s a v (x # xs)" and b: "pool_of s x = Some b"
    and g: "\<And>es. (\<And>v r. Put_user p v r \<notin> set es) \<Longrightarrow> k_get_user K (ktrace s @ es) p = Some (cap p)"
    and c: "\<And>es bs. k_copy_to_user K (ktrace s @ es) (pkt_data p) bs = 0"
    and pu: "\<And>es n. k_put_user K (ktrace s @ es) p n"
  shows "\<exists>s1 s2 s3 w. with_queue queue_remove s = Some (x, s1) \<and> x \<noteq> NULL \<and>
    io_read_fill_network_packet K p x s1 = Some (0, s2) \<and>
    kfree_skb x s2 = Some s3 \<and> drv_inv s3 a w xs \<and> keeps s v s3 w \<and>
    pool_of s3 = (pool_of s)(x := None) \<and> ktrace s3 = ktrace s @ deliver_calls cap p x b \<and>
    vn_stats (net_dev w) = count_tx (deliver_len cap p b) (vn_stats (net_dev v))"
proof -
  from take_packet [OF inv b] obtain s1 q where
    s1: "with_queue queue_remove s = Some (x, s1)"
      "holding s1 a (net_dev_update (vn_queue_update (\<lambda>_. q)) v) x b xs"
      "ktrace s1 = ktrace s @ [Spin_lock_bh Queue_lock, Spin_unlock_bh Queue_lock]"
      "netdevs s1 = netdevs s" "pool_of s1 = pool_of s" "held_of s1 = held_of s" by blast
  let ?w = "net_dev_update (vn_stats_update (count_tx (deliver_len cap p b)))
    (net_dev_update (vn_queue_update (\<lambda>_. q)) v)"
  have "k_get_user K (ktrace s1) p = Some (cap p)"
    "\<And>es bs. k_copy_to_user K (ktrace s1 @ es) (pkt_data p) bs = 0"
    "\<And>es n. k_put_user K (ktrace s1 @ es) p n"
    using g [of "[Spin_lock_bh Queue_lock, Spin_unlock_bh Queue_lock]"]
      c [of "Spin_lock_bh Queue_lock # Spin_unlock_bh Queue_lock # _"]
      pu [of "Spin_lock_bh Queue_lock # Spin_unlock_bh Queue_lock # _"]
    by (simp_all add: s1(3))
  from fill_exact [where cap = cap and p = p and K = K, OF s1(2) this] obtain s2 where
    s2: "io_read_fill_network_packet K p x s1 = Some (0, s2)" "holding s2 a ?w x b xs"
      "ktrace s2 = ktrace s1 @ [Get_user p (Some (cap p)),
      Copy_to_user (pkt_data p) (take (unat (deliver_len cap p b)) (skb_data b)) 0,
      Put_user p (deliver_len cap p b) True]" "skbs s2 = skbs s1" "netdevs s2 = netdevs s1"
      "held_of s2 = held_of s1"
    by blast
  from free_held [OF s2(2)] obtain s3 where
    s3: "kfree_skb x s2 = Some s3" "drv_inv s3 a ?w xs" "ktrace s3 = ktrace s2 @ [Kfree_skb x]"
      "netdevs s3 = netdevs s2" "pool_of s3 = (pool_of s2)(x := None)"
      "held_of s3 = held_of s2" by blast
  have "keeps s v s3 ?w" using s1(4,6) s2(5,6) s3(4,6) by (simp add: keeps_def)
  moreover have "pool_of s2 = pool_of s1" using s2(4) by (simp add: pool_of_def fun_eq_iff)
  moreover have "ktrace s3 = ktrace s @ deliver_calls cap p x b"
    using s1(3) s2(3) s3(3) by (simp add: deliver_calls_def)
  moreover have "x \<noteq> NULL" using s1(2) by (simp add: holding_def)
  ultimately show ?thesis using s1 s2 s3
    by (intro exI [of _ s1] exI [of _ s2] exI [of _ s3] exI [of _ ?w]) simp
qed

text \<open>The calls of the whole loop, for header slots \<open>js\<close> with pointers \<open>P\<close> and queue \<open>xs\<close>.\<close>

definition loop_calls ::
    "(addr \<Rightarrow> u32) \<Rightarrow> (nat \<Rightarrow> addr) \<Rightarrow> (addr \<rightharpoonup> sk_buff) \<Rightarrow> nat list \<Rightarrow> addr list \<Rightarrow> kcall list" where
  "loop_calls cap P pool js xs =
     concat (map (\<lambda>(i, x). deliver_calls cap (P i) x (the (pool x))) (zip js xs)) @
     (if length xs < length js then [Spin_lock_bh Queue_lock, Spin_unlock_bh Queue_lock] else [])"

definition loop_lens ::
    "(addr \<Rightarrow> u32) \<Rightarrow> (nat \<Rightarrow> addr) \<Rightarrow> (addr \<rightharpoonup> sk_buff) \<Rightarrow> nat list \<Rightarrow> addr list \<Rightarrow> u32 list" where
  "loop_lens cap P pool js xs =
     map (\<lambda>(i, x). deliver_len cap (P i) (the (pool x))) (zip js xs)"

lemma loop_calls_cong:
  "(\<And>x. x \<in> set xs \<Longrightarrow> pool x = pool' x) \<Longrightarrow> loop_calls cap P pool js xs = loop_calls cap P pool' js xs"
  "(\<And>x. x \<in> set xs \<Longrightarrow> pool x = pool' x) \<Longrightarrow> loop_lens cap P pool js xs = loop_lens cap P pool' js xs"
  by (auto simp: loop_calls_def loop_lens_def intro!: arg_cong [where f = concat])
    (metis set_zip_rightD)+

lemma loop_calls_Cons:
  "loop_calls cap P pool (i # js) (x # xs) =
     deliver_calls cap (P i) x (the (pool x)) @ loop_calls cap P pool js xs"
  "loop_lens cap P pool (i # js) (x # xs) =
     deliver_len cap (P i) (the (pool x)) # loop_lens cap P pool js xs"
  "loop_calls cap P pool [] xs = []" "loop_lens cap P pool [] xs = []"
  "loop_calls cap P pool (i # js) [] = [Spin_lock_bh Queue_lock, Spin_unlock_bh Queue_lock]"
  "loop_lens cap P pool js [] = []"
  by (simp_all add: loop_calls_def loop_lens_def)

lemma io_read_loop_exact:
  assumes "drv_inv s a v xs" and "ktrace s = h @ es"
    and "\<And>i. i \<in> set js \<Longrightarrow> hdr_pkt m (int i) = Some (P i)"
    and "\<And>i u r. i \<in> set js \<Longrightarrow> Put_user (P i) u r \<notin> set es"
    and "distinct (map P js)" and "user_ok K h (P ` set js) cap" and "0 \<le> ret"
  shows "\<exists>s' w. io_read_loop K m js ret s = Some
      (if js \<noteq> [] \<and> xs = [] \<and> ret = 0 then - EAGAIN
       else ret + int (min (length js) (length xs)), s') \<and>
    drv_inv s' a w (drop (length js) xs) \<and> keeps s v s' w \<and>
    ktrace s' = ktrace s @ loop_calls cap P (pool_of s) js xs \<and>
    vn_stats (net_dev w) = fold count_tx (loop_lens cap P (pool_of s) js xs) (vn_stats (net_dev v))"
  using assms
proof (induction js arbitrary: s v xs es ret)
  case Nil
  then show ?case by (auto simp: loop_calls_Cons intro!: exI [of _ v])
next
  case (Cons i js)
  show ?case
  proof (cases xs)
    case Nil
    with take_packet_empty [of s a v] Cons.prems(1) obtain s' where
      s': "with_queue queue_remove s = Some (NULL, s')" "drv_inv s' a v []"
        "ktrace s' = ktrace s @ [Spin_lock_bh Queue_lock, Spin_unlock_bh Queue_lock]"
        "same_but_trace s s'" "held_of s' = held_of s" by blast
    have "keeps s v s' v" using s'(4,5) by (simp add: same_but_trace_def keeps_def)
    with s' Nil show ?thesis
      by (auto simp: loop_calls_Cons IS_PTR_VALID_def intro!: exI [of _ v])
  next
    case (Cons x ys)
    obtain b where b: "pool_of s x = Some b" using inv_pool Cons Cons.prems(1) by blast
    note U = Cons.prems(6) [unfolded user_ok_def]
    have g: "k_get_user K (ktrace s @ fs) (P i) = Some (cap (P i))"
      if "\<And>u r. Put_user (P i) u r \<notin> set fs" for fs
      using U [rule_format, of "P i" "es @ fs"] that Cons.prems(2) Cons.prems(4) [of i] by auto
    have c: "k_copy_to_user K (ktrace s @ fs) (pkt_data (P i)) bs = 0" for fs bs
      using U [rule_format, of "P i" "es @ fs"] Cons.prems(2) by auto
    have pu: "k_put_user K (ktrace s @ fs) (P i) n" for fs n
      using U [rule_format, of "P i" "es @ fs"] Cons.prems(2) by auto
    have inv: "drv_inv s a v (x # ys)" using Cons.prems(1) Cons by simp
    from read_round_exact [where cap = cap and p = "P i" and K = K, OF inv b g c pu] obtain s1 s2 s3 w where
      r: "with_queue queue_remove s = Some (x, s1)" "x \<noteq> NULL"
        "io_read_fill_network_packet K (P i) x s1 = Some (0, s2)"
        "kfree_skb x s2 = Some s3" "drv_inv s3 a w ys" "keeps s v s3 w"
        "pool_of s3 = (pool_of s)(x := None)" "ktrace s3 = ktrace s @ deliver_calls cap (P i) x b"
        "vn_stats (net_dev w) = count_tx (deliver_len cap (P i) b) (vn_stats (net_dev v))" by blast
    have x: "x \<notin> set ys" using inv by (auto simp: inv_defs queue_rep_def)
    have "Put_user (P j) u r \<notin> set (es @ deliver_calls cap (P i) x b)" if "j \<in> set js" for j u r
      using that Cons.prems(4) [of j] Cons.prems(5) by (auto simp: deliver_calls_def image_iff)
    moreover have "user_ok K h (P ` set js) cap" 
      by (rule user_ok_mono [OF _ Cons.prems(6)]) auto
    moreover have "ktrace s3 = h @ (es @ deliver_calls cap (P i) x b)" using r(8) Cons.prems(2) by simp
    ultimately obtain s' w' where
      k: "io_read_loop K m js (ret + 1) s3 = Some
          (if js \<noteq> [] \<and> ys = [] \<and> ret + 1 = 0 then - EAGAIN
           else ret + 1 + int (min (length js) (length ys)), s')"
        "drv_inv s' a w' (drop (length js) ys)" "keeps s3 w s' w'"
        "ktrace s' = ktrace s3 @ loop_calls cap P (pool_of s3) js ys"
        "vn_stats (net_dev w') = fold count_tx (loop_lens cap P (pool_of s3) js ys) (vn_stats (net_dev w))"
      using Cons.IH [OF r(5), of "es @ deliver_calls cap (P i) x b" "ret + 1"] Cons.prems by auto
    have "loop_calls cap P (pool_of s3) js ys = loop_calls cap P (pool_of s) js ys"
      "loop_lens cap P (pool_of s3) js ys = loop_lens cap P (pool_of s) js ys"
      using x r(7) by (intro loop_calls_cong; auto)+
    moreover have "io_read_loop K m (i # js) ret s = io_read_loop K m js (ret + 1) s3"
      using r Cons.prems(3) [of i] by (simp add: IS_PTR_VALID_def)
    ultimately show ?thesis
      using k r b Cons keeps_trans [OF r(6) k(3)] Cons.prems(7)
      by (intro exI [of _ s'] exI [of _ w']) (simp add: loop_calls_Cons)
  qed
qed

section \<open>A whole read: exactly\<close>

text \<open>
  The calls of a whole read for a request with \<open>ptrs\<close>: the copy of the header, one
  delivery per packet, the wake-up of the interface's queue, the count and the release of
  the copy.
\<close>

definition read_calls ::
    "kernel \<Rightarrow> drv \<Rightarrow> u64 \<Rightarrow> addr list \<Rightarrow> u8 list \<Rightarrow> (addr \<Rightarrow> u32) \<Rightarrow> addr \<Rightarrow> addr list \<Rightarrow> kcall list" where
  "read_calls K s len ptrs rest cap dev xs =
     (let p = k_kmalloc K (ktrace s) len in
      [Kmalloc len p,
       Memcpy_fromiovecend len (Some (header_bytes (of_nat (length ptrs)) ptrs @ rest))] @
      loop_calls cap (\<lambda>i. ptrs ! i) (pool_of s) [0..<length ptrs] xs @
      [Netif_wake_queue dev] @
      (if xs = [] then []
       else [Memcpy_toiovec (le_bytes 4 (min (length ptrs) (length xs))) True]) @
      [Kfree p])"

text \<open>The header of a good request fetched, and the packets delivered.\<close>

lemma read_loop_request:
  assumes inv: "drv_inv s a v xs" and hdr: "good_header K s len ptrs rest" and dist: "distinct ptrs"
    and user: "user_ok K (ktrace s) (set ptrs) cap"
    and p: "p = k_kmalloc K (ktrace s) len" and bs: "bs = header_bytes (of_nat (length ptrs)) ptrs @ rest"
  shows "\<exists>hd c s1 t w. fetch_header K len s = Some (Inr (hd, c), s1) \<and> kb_addr hd = p \<and> p \<noteq> NULL \<and>
    fetched len hd c \<and> unat c = length ptrs \<and> 0 < length ptrs \<and> length ptrs < 2 ^ 32 \<and>
    io_read_loop K (kb_mem hd) [0..<length ptrs] 0 s1 =
      Some (if xs = [] then - EAGAIN else int (min (length ptrs) (length xs)), t) \<and>
    drv_inv t a w (drop (length ptrs) xs) \<and> vn_device (net_dev w) = vn_device (net_dev v) \<and>
    ktrace t = ktrace s @ [Kmalloc len p, Memcpy_fromiovecend len (Some bs)] @
      loop_calls cap (\<lambda>i. ptrs ! i) (pool_of s) [0..<length ptrs] xs \<and>
    vn_stats (net_dev w) = fold count_tx
      (loop_lens cap (\<lambda>i. ptrs ! i) (pool_of s) [0..<length ptrs] xs) (vn_stats (net_dev v))"
proof -
  define c where "c = (of_nat (length ptrs) :: u32)"
  let ?s1 = "log (Memcpy_fromiovecend len (Some bs)) (log (Kmalloc len p) s)"
  from fetch_header_ok [OF hdr] obtain hd where
    fh: "fetch_header K len s = Some (Inr (hd, c), ?s1)" "kb_addr hd = p" "fetched len hd c"
      "unat c = length ptrs" "\<And>i. i < length ptrs \<Longrightarrow> hdr_pkt (kb_mem hd) (int i) = Some (ptrs ! i)"
    unfolding p bs c_def by blast
  have "unat c < 2 ^ 32" using unsigned_less [of c] by simp
  then have n: "0 < length ptrs" "length ptrs < 2 ^ 32" using hdr fh(4) by (simp_all add: good_header_def)
  have i1: "drv_inv ?s1 a v xs"
    by (intro drv_inv_log inv) (use inv in \<open>simp_all add: inv_defs lock_simps\<close>)
  have "(\<lambda>i. ptrs ! i) ` set [0..<length ptrs] = set ptrs" by (metis list.set_map map_nth)
  with user have user': "user_ok K (ktrace s) ((\<lambda>i. ptrs ! i) ` set [0..<length ptrs]) cap" by simp
  have "\<exists>t w. io_read_loop K (kb_mem hd) [0..<length ptrs] 0 ?s1 = Some
      (if [0..<length ptrs] \<noteq> [] \<and> xs = [] \<and> (0::int) = 0 then - EAGAIN
       else 0 + int (min (length [0..<length ptrs]) (length xs)), t) \<and>
    drv_inv t a w (drop (length [0..<length ptrs]) xs) \<and> keeps ?s1 v t w \<and>
    ktrace t = ktrace ?s1 @ loop_calls cap (\<lambda>i. ptrs ! i) (pool_of ?s1) [0..<length ptrs] xs \<and>
    vn_stats (net_dev w) = fold count_tx
      (loop_lens cap (\<lambda>i. ptrs ! i) (pool_of ?s1) [0..<length ptrs] xs) (vn_stats (net_dev v))"
    by (rule io_read_loop_exact [where h = "ktrace s"
          and es = "[Kmalloc len p, Memcpy_fromiovecend len (Some bs)]", OF i1 _ _ _ _ user'])
      (use fh(5) dist in \<open>simp_all add: map_nth\<close>)
  moreover have pool1: "pool_of ?s1 = pool_of s" by simp
  ultimately obtain t w where
    "io_read_loop K (kb_mem hd) [0..<length ptrs] 0 ?s1 =
        Some (if xs = [] then - EAGAIN else int (min (length ptrs) (length xs)), t)"
      "drv_inv t a w (drop (length ptrs) xs)" "keeps ?s1 v t w"
      "ktrace t = ktrace ?s1 @ loop_calls cap (\<lambda>i. ptrs ! i) (pool_of s) [0..<length ptrs] xs"
      "vn_stats (net_dev w) = fold count_tx
        (loop_lens cap (\<lambda>i. ptrs ! i) (pool_of s) [0..<length ptrs] xs) (vn_stats (net_dev v))"
    using n(1) unfolding pool1 by (auto simp del: log_simps)
  moreover have "p \<noteq> NULL" using fh(2,3) by (simp add: fetched_def)
  ultimately show ?thesis using fh(1-4) n
    by (intro exI [of _ hd] exI [of _ c] exI [of _ ?s1] exI [of _ t] exI [of _ w]) (simp add: keeps_def)
qed

lemma io_read_exact:
  assumes inv: "drv_inv s a v xs" and dev: "vn_device (net_dev v) \<noteq> NULL"
    and hdr: "good_header K s len ptrs rest" and dist: "distinct ptrs"
    and user: "user_ok K (ktrace s) (set ptrs) cap"
    and out: "\<And>h bs. k_memcpy_toiovec K h bs"
  shows "\<exists>s' w. io_read_to_iovec K len s = Some
      (if xs = [] then - EAGAIN else 4 + 8 * int (min (length ptrs) (length xs)), s') \<and>
    drv_inv s' a w (drop (length ptrs) xs) \<and>
    vn_stats (net_dev w) = fold count_tx
      (loop_lens cap (\<lambda>i. ptrs ! i) (pool_of s) [0..<length ptrs] xs) (vn_stats (net_dev v)) \<and>
    ktrace s' = ktrace s @ read_calls K s len ptrs rest cap (vn_device (net_dev v)) xs"
proof -
  define p where "p = k_kmalloc K (ktrace s) len"
  define bs where "bs = header_bytes (of_nat (length ptrs)) ptrs @ rest"
  from read_loop_request [OF inv hdr dist user p_def bs_def] obtain hd c s1 t w where
    fh: "fetch_header K len s = Some (Inr (hd, c), s1)" "kb_addr hd = p" "p \<noteq> NULL" "fetched len hd c"
      "unat c = length ptrs" "0 < length ptrs" "length ptrs < 2 ^ 32" and
    t: "io_read_loop K (kb_mem hd) [0..<length ptrs] 0 s1 =
        Some (if xs = [] then - EAGAIN else int (min (length ptrs) (length xs)), t)"
      "drv_inv t a w (drop (length ptrs) xs)" "vn_device (net_dev w) = vn_device (net_dev v)"
      "ktrace t = ktrace s @ [Kmalloc len p, Memcpy_fromiovecend len (Some bs)] @
        loop_calls cap (\<lambda>i. ptrs ! i) (pool_of s) [0..<length ptrs] xs"
      "vn_stats (net_dev w) = fold count_tx
        (loop_lens cap (\<lambda>i. ptrs ! i) (pool_of s) [0..<length ptrs] xs) (vn_stats (net_dev v))" by blast
  let ?u = "log (Netif_wake_queue (vn_device (net_dev v))) t"
  from wake_queue_ok [OF t(2)] dev t(3) have wake: "netif_wake_queue (vn_device (net_dev w)) t = Some ?u"
    and iu: "drv_inv ?u a w (drop (length ptrs) xs)" and lku: "lock_of ?u = Some False" by auto
  have gt: "gs_vnet t = Some (a, w)" using t(2) by (simp add: inv_defs)
  note calls = read_calls_def free_paged_mem_def IS_PTR_VALID_def Let_def p_def [symmetric] bs_def [symmetric]
  show ?thesis
  proof (cases "xs = []")
    case True
    let ?e = "free_paged_mem p ?u"
    have "io_read_to_iovec K len s = Some (- EAGAIN, ?e)"
      using fh(1,2,5) t(1) gt wake True by (simp add: io_read_to_iovec_def return_count_error)
    moreover have "drv_inv ?e a w (drop (length ptrs) xs)"
      by (rule drv_inv_same_but_trace [OF iu same_but_trace_free [OF lku]])
    moreover have "ktrace ?e = ktrace s @ read_calls K s len ptrs rest cap (vn_device (net_dev v)) xs"
      using t(4) True fh(3) by (simp add: calls)
    ultimately show ?thesis using t(5) True
      by (intro exI [of _ ?e] exI [of _ w] conjI) simp_all
  next
    case False
    define n where "n = min (length ptrs) (length xs)"
    let ?e = "free_paged_mem p (log (Memcpy_toiovec (le_bytes 4 n) True) ?u)"
    have n: "0 < n" "n < 2 ^ 32" using False fh(6,7) by (simp_all add: n_def)
    have "return_count K hd (int n) ?u = Some (4 + 8 * int n, ?e)"
      using return_count_eq [OF fh(4), of "int n" K ?u] n out by (simp add: fh(2) Let_def)
    then have "io_read_to_iovec K len s = Some (4 + 8 * int n, ?e)"
      using fh(1,5) t(1) gt wake False by (simp add: io_read_to_iovec_def n_def)
    moreover have "drv_inv ?e a w (drop (length ptrs) xs)"
      by (rule drv_inv_same_but_trace [OF drv_inv_log [OF _ _ iu] same_but_trace_free])
        (use lku in \<open>simp_all add: lock_simps\<close>)
    moreover have "ktrace ?e = ktrace s @ read_calls K s len ptrs rest cap (vn_device (net_dev v)) xs"
      using t(4) False fh(3) by (simp add: calls n_def)
    ultimately show ?thesis using t(5) False
      by (intro exI [of _ ?e] exI [of _ w] conjI) (simp_all add: n_def)
  qed
qed

end
