(* ===== verification/Io_Write.thy ===== *)
theory Io_Write
  imports Io_Read
begin

text \<open>
  \<open>io_write.c\<close>: a write copies each packet its header names from user memory into a fresh
  socket buffer and hands it to the network stack. The theorems give the frames the stack
  receives when user memory is accessible; that for any answers of the kernel a write
  neither faults nor leaks nor touches the transmit queue, unless a length given by the
  user wraps around and does not fit; and that a length that does wrap around panics the kernel.
\<close>

section \<open>Socket buffers\<close>

definition empty_skb :: sk_buff where
  "empty_skb = \<lparr>skb_next = NULL, skb_len = 0, skb_data = [], skb_protocol = 0, skb_mac_len = 0,
     skb_dev = NULL\<rparr>"

definition dev_alloc_skb :: "kernel \<Rightarrow> u32 \<Rightarrow> drv \<Rightarrow> addr \<times> drv" where
  "dev_alloc_skb K n s =
     (let p = k_dev_alloc_skb K (ktrace s) n;
          s = log (Dev_alloc_skb n p) s
      in (p, if p = NULL then s else s\<lparr>skbs := (skbs s)(p \<mapsto> empty_skb)\<rparr>))"

definition skb_reserve :: "addr \<Rightarrow> u32 \<Rightarrow> drv \<Rightarrow> drv option" where
  "skb_reserve p n s = do { _ \<leftarrow> skb_at p s; Some (log (Skb_reserve p n) s) }"

text \<open>\<open>skb_put\<close> extends the data, or panics; the new bytes are written before they are read.\<close>

definition skb_put :: "kernel \<Rightarrow> addr \<Rightarrow> u32 \<Rightarrow> drv \<Rightarrow> drv option" where
  "skb_put K p n s =
     (if k_skb_put_fits K (ktrace s) p n
      then skb_update p (\<lambda>b. b\<lparr>skb_len := skb_len b + n, skb_data := skb_data b @ replicate (unat n) 0\<rparr>)
             (log (Skb_put p n) s)
      else None)"

definition eth_type_trans :: "kernel \<Rightarrow> addr \<Rightarrow> addr \<Rightarrow> drv \<Rightarrow> (u16 \<times> drv) option" where
  "eth_type_trans K p dev s = do {
     b \<leftarrow> skb_at p s;
     let (proto, data) = k_eth_type_trans K (ktrace s) (skb_data b);
     s \<leftarrow> skb_update p (\<lambda>b. b\<lparr>skb_dev := dev, skb_data := data, skb_len := of_nat (length data)\<rparr>) s;
     Some (proto, s) }"

text \<open>The stack takes the buffer over.\<close>

definition netif_rx_ni :: "addr \<Rightarrow> drv \<Rightarrow> drv option" where
  "netif_rx_ni p s = do {
     b \<leftarrow> skb_at p s;
     Some (log (Netif_rx_ni p b) (s\<lparr>skbs := (skbs s)(p := None)\<rparr>)) }"

section \<open>The operations\<close>

definition count_rx :: "u32 \<Rightarrow> u32 net_stats \<Rightarrow> u32 net_stats" where
  "count_rx len t = t\<lparr>rx_packets := rx_packets t + 1, rx_bytes := rx_bytes t + len\<rparr>"

text \<open>
  One round of the loop: 0 to go on, or the error with which the loop is left. The calls
  in the branch of a valid buffer are in the order of the code, \<open>skb_put\<close> before
  \<open>copy_from_user\<close>.
\<close>

definition io_write_packet :: "kernel \<Rightarrow> addr \<Rightarrow> drv \<Rightarrow> (int \<times> drv) option" where
  "io_write_packet K pkt s =
     (let r = k_get_user K (ktrace s) (pkt_data_len pkt);
          s = log (Get_user (pkt_data_len pkt) r) s in
      case r of
        None \<Rightarrow> Some (- EFAULT, s)
      | Some data_len \<Rightarrow>
          (let (skb, s) = dev_alloc_skb K (data_len + k_net_ip_align K) s in
           if \<not> IS_PTR_VALID skb then Some (- ENOMEM, s)
           else do {
             s \<leftarrow> skb_reserve skb (k_net_ip_align K) s;
             s \<leftarrow> skb_put K skb data_len s;
             let r = k_copy_from_user K (ktrace s) (pkt_data pkt) data_len;
             let s = log (Copy_from_user (pkt_data pkt) data_len r) s;
             (case r of
                None \<Rightarrow> do { s \<leftarrow> kfree_skb skb s; Some (- EFAULT, s) }
              | Some bs \<Rightarrow> do {
                  s \<leftarrow> skb_update skb
                    (\<lambda>b. b\<lparr>skb_data := take (length (skb_data b) - unat data_len) (skb_data b) @ bs\<rparr>) s;
                  v \<leftarrow> vnet_dev s;
                  let dev = vn_device (net_dev v);
                  (proto, s) \<leftarrow> eth_type_trans K skb dev s;
                  s \<leftarrow> skb_update skb (\<lambda>b. b\<lparr>skb_protocol := proto\<rparr>) s;
                  s \<leftarrow> skb_update skb (\<lambda>b. b\<lparr>skb_mac_len := 14\<rparr>) s;
                  s \<leftarrow> skb_update skb (\<lambda>b. b\<lparr>skb_dev := dev\<rparr>) s;
                  s \<leftarrow> netif_rx_ni skb s;
                  s \<leftarrow> netdev_update dev (nd_last_rx_update (\<lambda>_. k_jiffies K (ktrace s))) s;
                  s \<leftarrow> vnet_upd (net_dev_update (vn_stats_update (count_rx data_len))) s;
                  Some (0, s) }) }))"

text \<open>The loop over \<open>i < hdr->count\<close>; its \<open>i\<close> is an \<open>int\<close>.\<close>

fun io_write_loop :: "kernel \<Rightarrow> block \<Rightarrow> nat list \<Rightarrow> int \<Rightarrow> drv \<Rightarrow> (int \<times> drv) option" where
  "io_write_loop K m [] ret s = Some (ret, s)"
| "io_write_loop K m (i # js) ret s = do {
     pkt \<leftarrow> hdr_pkt m (sint (of_nat i :: u32));
     (r, s) \<leftarrow> io_write_packet K pkt s;
     if r \<noteq> 0 then Some (r, s) else io_write_loop K m js (ret + 1) s }"

definition io_write_from_iovec :: "kernel \<Rightarrow> u64 \<Rightarrow> drv \<Rightarrow> (int \<times> drv) option" where
  "io_write_from_iovec K len s = do {
     (r, s) \<leftarrow> fetch_header K len s;
     (case r of
        Inl e \<Rightarrow> Some (e, s)
      | Inr (hdr, count) \<Rightarrow> do {
          (ret, s) \<leftarrow> io_write_loop K (kb_mem hdr) [0..<unat count] 0 s;
          return_count K hdr ret s }) }"

section \<open>What the kernel promises\<close>

text \<open>
  A buffer allocated with \<open>r\<close> bytes has room for them; a successful copy from user memory
  has the length asked for; what \<open>dev_alloc_skb\<close> returns is not a buffer the driver still
  owns.
\<close>

definition skb_laws :: "kernel \<Rightarrow> bool" where
  "skb_laws K \<longleftrightarrow>
     (\<forall>h r k n p. p = k_dev_alloc_skb K h r \<longrightarrow> p \<noteq> NULL \<longrightarrow> unat k + unat n \<le> unat r \<longrightarrow>
        k_skb_put_fits K (h @ [Dev_alloc_skb r p, Skb_reserve p k]) p n) \<and>
     (\<forall>h a n bs. k_copy_from_user K h a n = Some bs \<longrightarrow> length bs = unat n)"

definition fresh_skbs :: "kernel \<Rightarrow> drv \<Rightarrow> bool" where
  "fresh_skbs K s \<longleftrightarrow> (\<forall>es r. skbs s (k_dev_alloc_skb K (ktrace s @ es) r) = None)"

section \<open>Lengths that wrap around\<close>

text \<open>
  The one thing that a write does not survive: a user's packet whose length, with the alignment
  added, wraps around, so that the buffer allocated for it cannot take the length, and \<open>skb_put\<close>
  panics. \<open>write_overrun\<close> follows the packets of a request up to the first such one.
\<close>

definition skb_overrun :: "kernel \<Rightarrow> addr \<Rightarrow> drv \<Rightarrow> bool" where
  "skb_overrun K pkt s \<longleftrightarrow>
     (case k_get_user K (ktrace s) pkt of
        None \<Rightarrow> False
      | Some n \<Rightarrow>
          (let al = k_net_ip_align K; p = k_dev_alloc_skb K (ktrace s @ [Get_user pkt (Some n)]) (n + al) in
           2 ^ 32 \<le> unat n + unat al \<and> p \<noteq> NULL \<and>
           \<not> k_skb_put_fits K (ktrace s @ [Get_user pkt (Some n), Dev_alloc_skb (n + al) p, Skb_reserve p al]) p n))"

fun loop_overrun :: "kernel \<Rightarrow> block \<Rightarrow> nat list \<Rightarrow> drv \<Rightarrow> bool" where
  "loop_overrun K m [] s \<longleftrightarrow> False"
| "loop_overrun K m (i # js) s \<longleftrightarrow>
     (case hdr_pkt m (sint (of_nat i :: u32)) of
        None \<Rightarrow> False
      | Some pkt \<Rightarrow> skb_overrun K pkt s \<or>
          (case io_write_packet K pkt s of Some (r, t) \<Rightarrow> r = 0 \<and> loop_overrun K m js t | None \<Rightarrow> False))"

definition write_overrun :: "kernel \<Rightarrow> u64 \<Rightarrow> drv \<Rightarrow> bool" where
  "write_overrun K len s \<longleftrightarrow>
     (case fetch_header K len s of
        Some (Inr (hdr, count), t) \<Rightarrow> loop_overrun K (kb_mem hdr) [0..<unat count] t
      | _ \<Rightarrow> False)"

section \<open>Receiving one packet\<close>

text \<open>The calls for one packet, up to the copy of its data.\<close>

definition rx_calls :: "kernel \<Rightarrow> addr \<Rightarrow> u32 \<Rightarrow> addr \<Rightarrow> u8 list option \<Rightarrow> kcall list" where
  "rx_calls K pkt n p r =
     [Get_user pkt (Some n), Dev_alloc_skb (n + k_net_ip_align K) p,
      Skb_reserve p (k_net_ip_align K), Skb_put p n, Copy_from_user (pkt_data pkt) n r]"

definition with_trace :: "kcall list \<Rightarrow> drv \<Rightarrow> drv" where
  "with_trace es s = s\<lparr>ktrace := ktrace s @ es\<rparr>"

lemma with_trace_simps [simp]:
  "skbs (with_trace es s) = skbs s" "netdevs (with_trace es s) = netdevs s"
  "gs_vnet (with_trace es s) = gs_vnet s" "ktrace (with_trace es s) = ktrace s @ es"
  "g_utils_debug_enabled (with_trace es s) = g_utils_debug_enabled s"
  by (simp_all add: with_trace_def)

text \<open>The buffer as the stack gets it.\<close>

definition rx_skb :: "addr \<Rightarrow> u16 \<Rightarrow> u8 list \<Rightarrow> sk_buff" where
  "rx_skb dev proto data = \<lparr>skb_next = NULL, skb_len = of_nat (length data), skb_data = data,
     skb_protocol = proto, skb_mac_len = 14, skb_dev = dev\<rparr>"

lemma write_packet_no_user:
  "k_get_user K (ktrace s) pkt = None \<Longrightarrow>
   io_write_packet K pkt s = Some (- EFAULT, with_trace [Get_user pkt None] s)"
  by (simp add: io_write_packet_def pkt_data_len_def with_trace_def log_def)

lemma write_packet_no_mem:
  "k_get_user K (ktrace s) pkt = Some n \<Longrightarrow>
   k_dev_alloc_skb K (ktrace s @ [Get_user pkt (Some n)]) (n + k_net_ip_align K) = NULL \<Longrightarrow>
   io_write_packet K pkt s = Some (- ENOMEM,
     with_trace [Get_user pkt (Some n), Dev_alloc_skb (n + k_net_ip_align K) NULL] s)"
  by (simp add: io_write_packet_def pkt_data_len_def with_trace_def log_def dev_alloc_skb_def
      IS_PTR_VALID_def Let_def)

lemma write_packet_no_fit:
  assumes "k_get_user K (ktrace s) pkt = Some n"
    and "p = k_dev_alloc_skb K (ktrace s @ [Get_user pkt (Some n)]) (n + k_net_ip_align K)" "p \<noteq> NULL"
    and "\<not> k_skb_put_fits K (ktrace s @ [Get_user pkt (Some n), Dev_alloc_skb (n + k_net_ip_align K) p,
      Skb_reserve p (k_net_ip_align K)]) p n"
  shows "io_write_packet K pkt s = None"
  using assms
  by (simp add: io_write_packet_def pkt_data_len_def dev_alloc_skb_def IS_PTR_VALID_def Let_def
      skb_reserve_def skb_at_def skb_put_def log_def)

lemma write_packet_alloc:
  assumes "k_get_user K (ktrace s) pkt = Some n"
    and p: "p = k_dev_alloc_skb K (ktrace s @ [Get_user pkt (Some n)]) (n + k_net_ip_align K)" "p \<noteq> NULL"
    and free: "skbs s p = None"
    and fits: "k_skb_put_fits K (ktrace s @ [Get_user pkt (Some n), Dev_alloc_skb (n + k_net_ip_align K) p,
      Skb_reserve p (k_net_ip_align K)]) p n"
    and r: "r = k_copy_from_user K (ktrace s @ [Get_user pkt (Some n), Dev_alloc_skb (n + k_net_ip_align K) p,
      Skb_reserve p (k_net_ip_align K), Skb_put p n]) (pkt_data pkt) n"
  shows write_packet_fault: "r = None \<Longrightarrow>
      io_write_packet K pkt s = Some (- EFAULT, with_trace (rx_calls K pkt n p None @ [Kfree_skb p]) s)"
    and write_packet_ok: "r = Some bs \<Longrightarrow> length bs = unat n \<Longrightarrow> gs_vnet s = Some (a, v) \<Longrightarrow>
      dev = vn_device (net_dev v) \<Longrightarrow> dev \<noteq> NULL \<Longrightarrow> netdevs s dev = Some d \<Longrightarrow>
      k_eth_type_trans K (ktrace s @ rx_calls K pkt n p (Some bs)) bs = (proto, data) \<Longrightarrow>
      io_write_packet K pkt s = Some (0,
        (with_trace (rx_calls K pkt n p (Some bs) @ [Netif_rx_ni p (rx_skb dev proto data)]) s)
          \<lparr>netdevs := (netdevs s)(dev \<mapsto> d\<lparr>nd_last_rx := k_jiffies K (ktrace s @ rx_calls K pkt n p (Some bs) @
               [Netif_rx_ni p (rx_skb dev proto data)])\<rparr>),
           gs_vnet := Some (a, net_dev_update (vn_stats_update (count_rx n)) v)\<rparr>)"
proof -
  let ?b = "empty_skb\<lparr>skb_len := n, skb_data := replicate (unat n) 0\<rparr>"
  have h: "(skbs s)(p := None) = skbs s" using free by auto
  have put: "skb_put K p n (log (Skb_reserve p (k_net_ip_align K))
      ((log (Dev_alloc_skb (n + k_net_ip_align K) p) (log (Get_user pkt (Some n)) s))
         \<lparr>skbs := (skbs s)(p \<mapsto> empty_skb)\<rparr>)) =
      Some ((with_trace [Get_user pkt (Some n), Dev_alloc_skb (n + k_net_ip_align K) p,
        Skb_reserve p (k_net_ip_align K), Skb_put p n] s)\<lparr>skbs := (skbs s)(p \<mapsto> ?b)\<rparr>)"
    using fits p(2) by (simp add: skb_put_def skb_update_def skb_at_def log_def with_trace_def empty_skb_def)
  note S = io_write_packet_def pkt_data_len_def dev_alloc_skb_def IS_PTR_VALID_def Let_def
    skb_reserve_def skb_at_def p(1) [symmetric]
  {
    assume "r = None"
    then show "io_write_packet K pkt s =
        Some (- EFAULT, with_trace (rx_calls K pkt n p None @ [Kfree_skb p]) s)"
      using assms(1) p(2) put h r
      by (simp add: S rx_calls_def log_def with_trace_def)
  next
    assume B: "r = Some bs" "length bs = unat n" and G: "gs_vnet s = Some (a, v)"
      and D: "dev = vn_device (net_dev v)" "dev \<noteq> NULL" "netdevs s dev = Some d"
      and E: "k_eth_type_trans K (ktrace s @ rx_calls K pkt n p (Some bs)) bs = (proto, data)"
    then show "io_write_packet K pkt s = Some (0,
        (with_trace (rx_calls K pkt n p (Some bs) @ [Netif_rx_ni p (rx_skb dev proto data)]) s)
          \<lparr>netdevs := (netdevs s)(dev \<mapsto> d\<lparr>nd_last_rx := k_jiffies K (ktrace s @ rx_calls K pkt n p (Some bs) @
               [Netif_rx_ni p (rx_skb dev proto data)])\<rparr>),
           gs_vnet := Some (a, net_dev_update (vn_stats_update (count_rx n)) v)\<rparr>)"
      using assms(1) p(2) put h r
      by (simp add: S rx_calls_def skb_update_def eth_type_trans_def netif_rx_ni_def
          netdev_update_def netdev_at_def vnet_dev_def vnet_upd_def)
        (simp add: log_def with_trace_def rx_skb_def empty_skb_def)
  }
qed

section \<open>A write: always safe\<close>

text \<open>What every step of a write leaves alone: the packets, the memory and the past.\<close>

definition received :: "drv \<Rightarrow> drv \<Rightarrow> bool" where
  "received s s' \<longleftrightarrow> skbs s' = skbs s \<and> held_of s' = held_of s \<and>
     (\<exists>es. ktrace s' = ktrace s @ es)"

lemma received_refl [simp]: "received s s"
  by (simp add: received_def)

lemma received_trans: "received s t \<Longrightarrow> received t u \<Longrightarrow> received s u"
  by (auto simp: received_def)

lemma fresh_skbs_mono: "fresh_skbs K s \<Longrightarrow> received s t \<Longrightarrow> fresh_skbs K t"
  by (auto simp: fresh_skbs_def received_def)

lemma trace_readings:
  "lock_of s = Some False \<Longrightarrow> lock_of (with_trace es s) = lock_run es False"
  "up_of (with_trace es s) = fold up_step es (up_of s)"
  "held_of (with_trace es s) = do { rs \<leftarrow> held_of s; held_run es rs }"
  by (simp_all add: lock_of_def up_of_def up_in_def held_of_def lock_run_append held_run_append)

lemma drv_inv_with_trace:
  assumes "drv_inv s a v xs" and "lock_run es False = Some False" and "fold up_step es (up_of s) = up_of s"
  shows "drv_inv (with_trace es s) a v xs"
  using assms dev_wf_cong [of "with_trace es s" s v v] by (simp add: inv_defs trace_readings)

text \<open>Touching a field of the device that the invariant does not look at, and the counters.\<close>

lemma drv_inv_last_rx:
  assumes inv: "drv_inv s a v xs" and dev: "vn_device (net_dev v) \<noteq> NULL"
    and d: "netdevs s (vn_device (net_dev v)) = Some d"
  shows "drv_inv (s\<lparr>netdevs := (netdevs s)(vn_device (net_dev v) \<mapsto> d\<lparr>nd_last_rx := j\<rparr>),
      gs_vnet := Some (a, net_dev_update (vn_stats_update f) v)\<rparr>) a
    (net_dev_update (vn_stats_update f) v) xs"
proof -
  from inv dev have nd: "netdevs s = [vn_device (net_dev v) \<mapsto> d]" "dev_conf (cfg v) d"
    using d by (auto simp: inv_defs dev_wf_def)
  let ?w = "net_dev_update (vn_stats_update f) v"
  let ?t = "s\<lparr>netdevs := (netdevs s)(vn_device (net_dev v) \<mapsto> d\<lparr>nd_last_rx := j\<rparr>),
      gs_vnet := Some (a, ?w)\<rparr>"
  have "dev_wf ?t ?w"
    using dev nd by (intro dev_wfI [where d = "d\<lparr>nd_last_rx := j\<rparr>"]) (simp_all add: dev_conf_def)
  then show ?thesis using inv by (simp add: inv_defs)
qed

lemma write_packet_fits:
  assumes inv: "drv_inv s a v xs" and dev: "vn_device (net_dev v) \<noteq> NULL"
    and K: "skb_laws K" and fresh: "fresh_skbs K s" and Some: "k_get_user K (ktrace s) pkt = Some n"
    and p: "p = k_dev_alloc_skb K (ktrace s @ [Get_user pkt (Some n)]) (n + k_net_ip_align K)" "p \<noteq> NULL"
    and fits: "k_skb_put_fits K (ktrace s @ [Get_user pkt (Some n), Dev_alloc_skb (n + k_net_ip_align K) p,
      Skb_reserve p (k_net_ip_align K)]) p n"
  shows "\<exists>r s' w. io_write_packet K pkt s = Some (r, s') \<and> r \<in> {0, - EFAULT} \<and>
    drv_inv s' a w xs \<and> only_stats v w \<and> received s s'"
proof -
  have os: "only_stats v v" by (auto simp: only_stats_def intro!: exI [of _ "\<lambda>x. x"])
  have free: "skbs s p = None" using fresh by (simp add: fresh_skbs_def p(1))
  define r where "r = k_copy_from_user K (ktrace s @ [Get_user pkt (Some n),
    Dev_alloc_skb (n + k_net_ip_align K) p, Skb_reserve p (k_net_ip_align K), Skb_put p n]) (pkt_data pkt) n"
  note A = write_packet_fault [OF Some p free fits r_def] write_packet_ok [OF Some p free fits r_def]
  show ?thesis
  proof (cases r)
    case None
    let ?es = "rx_calls K pkt n p None @ [Kfree_skb p]"
    have "drv_inv (with_trace ?es s) a v xs" "received s (with_trace ?es s)"
      by (rule drv_inv_with_trace [OF inv]) (simp_all add: rx_calls_def received_def trace_readings)
    with A(1) [OF None] os show ?thesis by auto
  next
    case (Some bs)
    let ?dev = "vn_device (net_dev v)"
    from inv dev obtain d where d: "netdevs s ?dev = Some d" by (auto simp: inv_defs dev_wf_def)
    have g: "gs_vnet s = Some (a, v)" using inv by (simp add: inv_defs)
    have len: "length bs = unat n" using K Some by (auto simp: skb_laws_def r_def)
    obtain proto data where e:
      "k_eth_type_trans K (ktrace s @ rx_calls K pkt n p (Some bs)) bs = (proto, data)" by fastforce
    let ?es = "rx_calls K pkt n p (Some bs) @ [Netif_rx_ni p (rx_skb ?dev proto data)]"
    have i: "drv_inv (with_trace ?es s) a v xs"
      by (rule drv_inv_with_trace [OF inv]) (simp_all add: rx_calls_def)
    have rc: "received s ((with_trace ?es s)\<lparr>netdevs := nd, gs_vnet := g\<rparr>)" for nd g
      by (simp add: received_def trace_readings rx_calls_def)
    show ?thesis
      using rc A(2) [OF Some len g refl dev d e] drv_inv_last_rx [OF i, of d] dev d
      by (intro exI [of _ "0 :: int"] exI [of _ "net_dev_update (vn_stats_update (count_rx n)) v"] exI conjI)
        (assumption | rule rc | simp | (simp add: only_stats_def, rule exI [of _ "count_rx n"], simp))+
  qed
qed

text \<open>One packet panics the kernel if its length wraps around and does not fit, and only then.\<close>

lemma write_packet_total:
  assumes inv: "drv_inv s a v xs" and dev: "vn_device (net_dev v) \<noteq> NULL"
    and K: "skb_laws K" and fresh: "fresh_skbs K s"
  shows "if skb_overrun K pkt s then io_write_packet K pkt s = None
    else \<exists>r s' w. io_write_packet K pkt s = Some (r, s') \<and> r \<in> {0, - EFAULT, - ENOMEM} \<and>
      drv_inv s' a w xs \<and> only_stats v w \<and> received s s'"
proof -
  have os: "only_stats v v" by (auto simp: only_stats_def intro!: exI [of _ "\<lambda>x. x"])
  have none: ?thesis if "io_write_packet K pkt s = Some (e, with_trace es s)" "\<not> skb_overrun K pkt s"
      "e \<in> {0, - EFAULT, - ENOMEM}" "lock_run es False = Some False"
      "fold up_step es (up_of s) = up_of s" "\<And>rs. held_run es rs = Some rs" for e es
    using that drv_inv_with_trace [OF inv that(4,5)] os by (auto simp: received_def trace_readings)
  show ?thesis
  proof (cases "k_get_user K (ktrace s) pkt")
    case None
    show ?thesis by (rule none [OF write_packet_no_user [where K = K, OF None]]) (simp_all add: skb_overrun_def None)
  next
    case (Some n)
    let ?al = "k_net_ip_align K"
    define p where "p = k_dev_alloc_skb K (ktrace s @ [Get_user pkt (Some n)]) (n + ?al)"
    let ?fits = "k_skb_put_fits K (ktrace s @ [Get_user pkt (Some n), Dev_alloc_skb (n + ?al) p, Skb_reserve p ?al]) p n"
    show ?thesis
    proof (cases "p = NULL")
      case True
      then show ?thesis
        by (intro none [OF write_packet_no_mem [where K = K, OF Some]]) (simp_all add: p_def skb_overrun_def Some Let_def)
    next
      case False
      have "?fits" if "unat ?al + unat n < 2 ^ 32"
      proof -
        have "unat ?al + unat n \<le> unat (n + ?al)" using that by (simp add: unat_word_ariths)
        then show ?thesis
          using K [unfolded skb_laws_def, THEN conjunct1, rule_format, of p "ktrace s @ [Get_user pkt (Some n)]"
              "n + ?al" ?al n] False by (simp add: p_def)
      qed
      then have "2 ^ 32 \<le> unat n + unat ?al" if "\<not> ?fits" using that by (metis add.commute not_le)
      then have ov: "skb_overrun K pkt s = (\<not> ?fits)"
        using False by (auto simp: skb_overrun_def Some p_def [symmetric] Let_def)
      show ?thesis
      proof (cases ?fits)
        case True
        with write_packet_fits [OF inv dev K fresh Some p_def False] ov show ?thesis by simp blast
      next
        case no_fit: False
        with write_packet_no_fit [OF Some p_def False] ov show ?thesis by simp
      qed
    qed
  qed
qed

lemma only_stats_trans: "only_stats u v \<Longrightarrow> only_stats v w \<Longrightarrow> only_stats u w"
proof -
  assume "only_stats u v" "only_stats v w"
  then obtain f g where "v = net_dev_update (vn_stats_update f) u" "w = net_dev_update (vn_stats_update g) v"
    by (auto simp: only_stats_def)
  then have "w = net_dev_update (vn_stats_update (\<lambda>t. g (f t))) u" by simp
  then show ?thesis unfolding only_stats_def by blast
qed

lemma only_stats_same:
  "only_stats v w \<Longrightarrow> vn_device (net_dev w) = vn_device (net_dev v) \<and>
     vn_queue (net_dev w) = vn_queue (net_dev v) \<and> vn_added (net_dev w) = vn_added (net_dev v) \<and>
     cfg w = cfg v \<and> io_dev w = io_dev v"
  by (auto simp: only_stats_def)

text \<open>The indices below the count of a header that passed the check stay in range of an \<open>int\<close>.\<close>

lemma sint_index: "i < 2 ^ 31 \<Longrightarrow> sint (of_nat i :: u32) = int i"
  by (rule sint_of_nat_u32)

lemma io_write_loop_total:
  assumes "drv_inv s a v xs" and "vn_device (net_dev v) \<noteq> NULL"
    and "skb_laws K" and "fresh_skbs K s"
    and "\<And>i. i \<in> set js \<Longrightarrow> hdr_pkt m (sint (of_nat i :: u32)) \<noteq> None" and "0 \<le> ret"
  shows "if loop_overrun K m js s then io_write_loop K m js ret s = None
    else \<exists>ret' s' w. io_write_loop K m js ret s = Some (ret', s') \<and>
      (ret' = ret + int (length js) \<or> ret' \<in> {- EFAULT, - ENOMEM}) \<and>
      drv_inv s' a w xs \<and> only_stats v w \<and> received s s'"
  using assms
proof (induction js arbitrary: s v ret)
  case Nil
  then show ?case by (auto simp: only_stats_def intro!: exI [of _ v] exI [of _ "\<lambda>x. x"])
next
  case (Cons i js)
  obtain pkt where pkt: "hdr_pkt m (sint (of_nat i :: u32)) = Some pkt" using Cons.prems(5) [of i] by auto
  note P = write_packet_total [OF Cons.prems(1-4), of pkt]
  show ?case
  proof (cases "skb_overrun K pkt s")
    case True
    with P pkt show ?thesis by simp
  next
    case ov: False
    with P obtain r t w where
      t: "io_write_packet K pkt s = Some (r, t)" "r \<in> {0, - EFAULT, - ENOMEM}" "drv_inv t a w xs"
        "only_stats v w" "received s t" by auto
    show ?thesis
    proof (cases "r = 0")
      case True
      have eq: "io_write_loop K m (i # js) ret s = io_write_loop K m js (ret + 1) t"
          "loop_overrun K m (i # js) s = loop_overrun K m js t"
        using pkt t(1) True ov by simp_all
      from Cons.IH [OF t(3) _ Cons.prems(3) fresh_skbs_mono [OF Cons.prems(4) t(5)], of "ret + 1"]
        Cons.prems only_stats_same [OF t(4)]
      have "if loop_overrun K m js t then io_write_loop K m js (ret + 1) t = None
        else \<exists>ret' s' x. io_write_loop K m js (ret + 1) t = Some (ret', s') \<and>
          (ret' = ret + 1 + int (length js) \<or> ret' \<in> {- EFAULT, - ENOMEM}) \<and>
          drv_inv s' a x xs \<and> only_stats w x \<and> received t s'" by auto
      then show ?thesis
        unfolding eq using only_stats_trans [OF t(4)] received_trans [OF t(5)]
        by (fastforce split: if_splits)
    next
      case False
      then have "io_write_loop K m (i # js) ret s = Some (r, t)" "\<not> loop_overrun K m (i # js) s"
        using pkt t(1) ov by simp_all
      with t False show ?thesis by auto
    qed
  qed
qed

lemma received_fetch:
  assumes "fetch_header K len s = Some (r, t)"
  shows "\<exists>es. ktrace t = ktrace s @ es"
  using assms
  by (auto simp: fetch_header_def alloc_paged_mem_def alloc_mem_def free_paged_mem_def Let_def
      split: if_splits option.splits bind_splits)

lemma io_write_safe:
  assumes inv: "drv_inv s a v xs" and dev: "vn_device (net_dev v) \<noteq> NULL"
    and K: "iovec_laws K" "skb_laws K" and fresh: "fresh_skbs K s"
    and len: "unat len < 2 ^ 31"
  shows "if write_overrun K len s then io_write_from_iovec K len s = None
    else \<exists>ret s' w. io_write_from_iovec K len s = Some (ret, s') \<and>
      drv_inv s' a w xs \<and> only_stats v w \<and> skbs s' = skbs s \<and> held_of s' = held_of s \<and>
      (ret \<in> {- EINVAL, - ENOMEM, - EFAULT} \<or> (12 \<le> ret \<and> ret \<le> int (unat len)))"
proof -
  have os: "only_stats v v" by (auto simp: only_stats_def intro!: exI [of _ "\<lambda>x. x"])
  from inv have lk: "lock_of s = Some False" by (simp add: inv_defs)
  from fetch_header_safe [OF K(1) len lk] obtain r s1 where
    s1: "fetch_header K len s = Some (r, s1)" "same_but_trace s s1"
      "case r of
       Inl e \<Rightarrow> e \<in> {- EINVAL, - ENOMEM, - EFAULT} \<and> held_of s1 = held_of s
     | Inr (hdr, count) \<Rightarrow> fetched len hdr count \<and> held_of s1 = do { rs \<leftarrow> held_of s; Some (Block (kb_addr hdr) # rs) }"
    by blast
  have i1: "drv_inv s1 a v xs" by (rule drv_inv_same_but_trace [OF inv s1(2)])
  have sk1: "skbs s1 = skbs s" using s1(2) by (simp add: same_but_trace_def)
  show ?thesis
  proof (cases r)
    case (Inl e)
    with s1 have "io_write_from_iovec K len s = Some (e, s1)" "\<not> write_overrun K len s"
      by (simp_all add: io_write_from_iovec_def write_overrun_def)
    with Inl s1(3) i1 sk1 os show ?thesis by auto
  next
    case (Inr hc)
    obtain hdr count where hc: "hc = (hdr, count)" by fastforce
    with Inr s1(3) have f: "fetched len hdr count" "held_of s1 = do { rs \<leftarrow> held_of s; Some (Block (kb_addr hdr) # rs) }"
      by auto
    then obtain bs where bs: "kb_mem hdr = map Some bs" "length bs = unat len"
      and c: "count \<noteq> 0" "header_size count \<le> len" by (auto simp: fetched_def)
    have cl: "4 + 8 * unat count \<le> unat len" "0 < unat count"
      using c header_size_exact [of count] by (simp_all add: word_le_nat_alt unat_gt_0)
    have uc: "4 + 8 * uint count \<le> uint len" "0 < uint count"
      using cl unfolding uint_nat by linarith+
    have pk: "hdr_pkt (kb_mem hdr) (sint (of_nat i :: u32)) \<noteq> None" if "i \<in> set [0..<unat count]" for i
      using checked_header_pkt [OF c bs(2), of i "[]"] that bs(1) cl(1) len
      by (simp add: sint_index)
    have fr: "fresh_skbs K s1"
      using fresh received_fetch [OF s1(1)] sk1 by (auto simp: fresh_skbs_def)
    have ov: "write_overrun K len s = loop_overrun K (kb_mem hdr) [0..<unat count] s1"
      using s1(1) Inr hc by (simp add: write_overrun_def)
    note L = io_write_loop_total [OF i1 dev K(2) fr, where js = "[0..<unat count]" and ret = 0, OF pk]
    show ?thesis
    proof (cases "write_overrun K len s")
      case True
      with L ov s1(1) Inr hc show ?thesis by (simp add: io_write_from_iovec_def)
    next
      case False
      with L ov obtain ret t w where
        t: "io_write_loop K (kb_mem hdr) [0..<unat count] 0 s1 = Some (ret, t)"
          "ret = int (unat count) \<or> ret \<in> {- EFAULT, - ENOMEM}" "drv_inv t a w xs" "only_stats v w"
          "received s1 t" by auto
      have "uint count < 2 ^ 32" using uint_lt2p [of count] by simp
      then have rb: "ret < 2 ^ 32" using t(2) by auto
      have lkt: "lock_of t = Some False" using t(3) by (simp add: inv_defs)
      have lt: "held_of t = do { rs \<leftarrow> held_of s; Some (Block (kb_addr hdr) # rs) }" using t(5) f(2) by (simp add: received_def)
      from return_count_total [OF f(1) rb lkt lt, of K] obtain ret' s' where
        s': "return_count K hdr ret t = Some (ret', s')" "same_but_trace t s'" "held_of s' = held_of s"
          "if 0 \<le> ret then ret' = (if ret = 0 then 12 else 4 + 8 * ret) \<or> ret' = - EFAULT else ret' = ret"
        by blast
      have "io_write_from_iovec K len s = Some (ret', s')"
        using s1(1) Inr hc t(1) s'(1) by (simp add: io_write_from_iovec_def)
      moreover have "drv_inv s' a w xs" by (rule drv_inv_same_but_trace [OF t(3) s'(2)])
      moreover have "skbs s' = skbs s" using s'(2) t(5) sk1 by (simp add: same_but_trace_def received_def)
      moreover have "ret' \<in> {- EINVAL, - ENOMEM, - EFAULT} \<or> (12 \<le> ret' \<and> ret' \<le> int (unat len))"
        using s'(4) t(2) uc by (auto split: if_splits)
      ultimately show ?thesis unfolding if_not_P [OF False] using s'(3) t(4) by blast
    qed
  qed
qed

section \<open>A write from accessible memory: exactly\<close>

text \<open>The frames the stack gets, in the order it gets them.\<close>

fun rx_frame :: "kcall \<Rightarrow> u8 list list" where
  "rx_frame (Netif_rx_ni p b) = [skb_data b]"
| "rx_frame e = []"

definition rx_frames :: "kcall list \<Rightarrow> u8 list list" where
  "rx_frames es = concat (map rx_frame es)"

lemma rx_frames_simps [simp]:
  "rx_frames [] = []" "rx_frames (e # es) = rx_frame e @ rx_frames es"
  "rx_frames (es @ fs) = rx_frames es @ rx_frames fs"
  by (simp_all add: rx_frames_def)

text \<open>
  \<open>writable K h P content\<close>: from history \<open>h\<close> on, the user's packet at each address \<open>p\<close> of
  \<open>P\<close> is readable and holds the frame \<open>content p\<close>, with at least a link header and short
  enough not to wrap around; and there is memory for buffers. \<open>strips_header\<close> is what
  \<open>eth_type_trans\<close> does with a whole link header.
\<close>

definition writable :: "kernel \<Rightarrow> kcall list \<Rightarrow> addr set \<Rightarrow> (addr \<Rightarrow> u8 list) \<Rightarrow> bool" where
  "writable K h P content \<longleftrightarrow>
     (\<forall>es. \<forall>p\<in>P. k_get_user K (h @ es) p = Some (of_nat (length (content p))) \<and>
        k_copy_from_user K (h @ es) (pkt_data p) (of_nat (length (content p))) = Some (content p)) \<and>
     (\<forall>p\<in>P. 14 \<le> length (content p) \<and> length (content p) + unat (k_net_ip_align K) < 2 ^ 32) \<and>
     (\<forall>es r. k_dev_alloc_skb K (h @ es) r \<noteq> NULL)"

definition strips_header :: "kernel \<Rightarrow> bool" where
  "strips_header K \<longleftrightarrow> (\<forall>h d. 14 \<le> length d \<longrightarrow> snd (k_eth_type_trans K h d) = drop 14 d)"

lemma writable_mono:
  assumes w: "writable K h P content" and sub: "P' \<subseteq> P"
  shows "writable K (h @ es) P' content"
  unfolding writable_def
proof (intro conjI allI ballI)
  fix fs p assume "p \<in> P'"
  then have p: "p \<in> P" using sub by blast
  show "k_get_user K ((h @ es) @ fs) p = Some (of_nat (length (content p)))"
    "k_copy_from_user K ((h @ es) @ fs) (pkt_data p) (of_nat (length (content p))) = Some (content p)"
    using w [unfolded writable_def, THEN conjunct1, rule_format, OF p, of "es @ fs"] by simp_all
next
  fix p assume "p \<in> P'"
  with w sub show "14 \<le> length (content p)" "length (content p) + unat (k_net_ip_align K) < 2 ^ 32"
    unfolding writable_def by blast+
next
  fix fs r show "k_dev_alloc_skb K ((h @ es) @ fs) r \<noteq> NULL"
    using w [unfolded writable_def, THEN conjunct2, THEN conjunct2, rule_format, of "es @ fs"] by simp
qed

text \<open>One packet: it reaches the stack without its link header, and is counted.\<close>

lemma write_packet_exact:
  assumes inv: "drv_inv s a v xs" and dev: "vn_device (net_dev v) \<noteq> NULL"
    and K: "skb_laws K" "strips_header K" and fresh: "fresh_skbs K s"
    and w: "writable K (ktrace s) P content" and p: "pkt \<in> P"
  shows "\<exists>s' es. io_write_packet K pkt s = Some (0, s') \<and> ktrace s' = ktrace s @ es \<and>
    rx_frames es = [drop 14 (content pkt)] \<and> received s s' \<and>
    drv_inv s' a (net_dev_update (vn_stats_update (count_rx (of_nat (length (content pkt))))) v) xs"
proof -
  let ?dev = "vn_device (net_dev v)"
  define n where "n = (of_nat (length (content pkt)) :: u32)"
  define al where "al = k_net_ip_align K"
  define q where "q = k_dev_alloc_skb K (ktrace s @ [Get_user pkt (Some n)]) (n + al)"
  have len: "14 \<le> length (content pkt)" "length (content pkt) + unat al < 2 ^ 32"
    and q0: "q \<noteq> NULL" and get: "k_get_user K (ktrace s) pkt = Some n"
    and copy: "\<And>es. k_copy_from_user K (ktrace s @ es) (pkt_data pkt) n = Some (content pkt)"
    using w p unfolding writable_def q_def n_def al_def by (auto dest: spec [of _ "[]"])
  have un: "unat n = length (content pkt)" unfolding n_def
    by (rule unat_of_nat_small) (use len in simp)
  have free: "skbs s q = None" using fresh by (simp add: fresh_skbs_def q_def)
  have "unat al + unat n \<le> unat (n + al)" using len un by (simp add: unat_word_ariths)
  then have fits: "k_skb_put_fits K (ktrace s @ [Get_user pkt (Some n), Dev_alloc_skb (n + al) q,
      Skb_reserve q al]) q n"
    using K(1) [unfolded skb_laws_def, THEN conjunct1, rule_format, of q "ktrace s @ [Get_user pkt (Some n)]"
            "n + al" al n] q0 by (simp add: q_def)
  from inv dev obtain d where d: "netdevs s ?dev = Some d" by (auto simp: inv_defs dev_wf_def)
  have g: "gs_vnet s = Some (a, v)" using inv by (simp add: inv_defs)
  obtain proto data where e:
    "k_eth_type_trans K (ktrace s @ rx_calls K pkt n q (Some (content pkt))) (content pkt) = (proto, data)"
    by fastforce
  then have data: "data = drop 14 (content pkt)"
    using K(2) [unfolded strips_header_def, rule_format, OF len(1)] by (metis snd_conv)
  let ?es = "rx_calls K pkt n q (Some (content pkt)) @ [Netif_rx_ni q (rx_skb ?dev proto data)]"
  have i: "drv_inv (with_trace ?es s) a v xs"
    by (rule drv_inv_with_trace [OF inv]) (simp_all add: rx_calls_def)
  have rc: "received s ((with_trace ?es s)\<lparr>netdevs := nd, gs_vnet := g\<rparr>)" for nd g
    by (simp add: received_def trace_readings rx_calls_def)
  have fr: "rx_frames ?es = [drop 14 (content pkt)]" by (simp add: rx_calls_def rx_skb_def data)
  note ok = write_packet_ok [OF get q_def [unfolded al_def] q0 free fits [unfolded al_def]
      copy [symmetric] refl un [symmetric] g refl dev d e]
  show ?thesis
    using ok rc fr drv_inv_last_rx [OF i dev, of d] d unfolding n_def [symmetric]
    by (intro exI [of _ ?es] exI conjI) (assumption | rule rc | simp)+
qed

definition count_rx_all :: "u8 list list \<Rightarrow> u32 net_stats \<Rightarrow> u32 net_stats" where
  "count_rx_all fs = fold (\<lambda>f. count_rx (of_nat (length f))) fs"

lemma io_write_loop_exact:
  assumes "drv_inv s a v xs" and "vn_device (net_dev v) \<noteq> NULL"
    and "skb_laws K" and "strips_header K" and "fresh_skbs K s" and "writable K (ktrace s) P content"
    and "\<And>i. i \<in> set js \<Longrightarrow> hdr_pkt m (sint (of_nat i :: u32)) = Some (Q i) \<and> Q i \<in> P"
  shows "\<exists>s' es. io_write_loop K m js ret s = Some (ret + int (length js), s') \<and>
    ktrace s' = ktrace s @ es \<and> rx_frames es = map (\<lambda>i. drop 14 (content (Q i))) js \<and>
    received s s' \<and>
    drv_inv s' a (net_dev_update (vn_stats_update (count_rx_all (map (\<lambda>i. content (Q i)) js))) v) xs"
  using assms
proof (induction js arbitrary: s v ret)
  case Nil
  then have "net_dev_update (vn_stats_update (count_rx_all [])) v = v" by (simp add: count_rx_all_def)
  with Nil show ?case by (intro exI [of _ s] exI [of _ "[]"]) simp
next
  case (Cons i js)
  have q: "hdr_pkt m (sint (of_nat i :: u32)) = Some (Q i)" "Q i \<in> P" using Cons.prems(7) by auto
  from write_packet_exact [OF Cons.prems(1-6) q(2)] obtain t es where
    t: "io_write_packet K (Q i) s = Some (0, t)" "ktrace t = ktrace s @ es"
      "rx_frames es = [drop 14 (content (Q i))]" "received s t"
      "drv_inv t a (net_dev_update (vn_stats_update (count_rx (of_nat (length (content (Q i)))))) v) xs"
    by blast
  have w: "writable K (ktrace t) P content" unfolding t(2) by (rule writable_mono [OF Cons.prems(6)]) simp
  from Cons.IH [OF t(5) _ Cons.prems(3,4) fresh_skbs_mono [OF Cons.prems(5) t(4)] w, of "ret + 1"]
    Cons.prems(2,7) obtain s' fs where
    u: "io_write_loop K m js (ret + 1) t = Some (ret + 1 + int (length js), s')"
      "ktrace s' = ktrace t @ fs" "rx_frames fs = map (\<lambda>i. drop 14 (content (Q i))) js" "received t s'"
      "drv_inv s' a (net_dev_update (vn_stats_update (count_rx_all (map (\<lambda>i. content (Q i)) js)))
        (net_dev_update (vn_stats_update (count_rx (of_nat (length (content (Q i)))))) v)) xs"
    by auto
  have eq: "net_dev_update (vn_stats_update (count_rx_all (map (\<lambda>i. content (Q i)) js)))
        (net_dev_update (vn_stats_update (count_rx (of_nat (length (content (Q i)))))) v) =
      net_dev_update (vn_stats_update (count_rx_all (map (\<lambda>i. content (Q i)) (i # js)))) v"
    by (simp add: count_rx_all_def comp_def)
  from t u q received_trans [OF t(4) u(4)] show ?case
    unfolding eq [symmetric] by (intro exI [of _ s'] exI [of _ "es @ fs"]) simp
qed

text \<open>
  (C12) A write of accessible packets hands every one of them to the network stack, in the order of
  the request and without its Ethernet header, keeps no buffer, adds each to the counters,
  and returns the size of the request's header.
\<close>

theorem io_write_exact:
  assumes inv: "drv_inv s a v xs" and dev: "vn_device (net_dev v) \<noteq> NULL"
    and K: "skb_laws K" "strips_header K" and fresh: "fresh_skbs K s"
    and hdr: "good_header K s len ptrs rest" and user: "writable K (ktrace s) (set ptrs) content"
    and out: "\<And>h bs. k_memcpy_toiovec K h bs"
  shows "\<exists>s' es. io_write_from_iovec K len s = Some (4 + 8 * int (length ptrs), s') \<and>
    ktrace s' = ktrace s @ es \<and> rx_frames es = map (\<lambda>p. drop 14 (content p)) ptrs \<and>
    skbs s' = skbs s \<and>
    drv_inv s' a (net_dev_update (vn_stats_update (count_rx_all (map content ptrs))) v) xs"
proof -
  define p where "p = k_kmalloc K (ktrace s) len"
  define bs where "bs = header_bytes (of_nat (length ptrs)) ptrs @ rest"
  define c where "c = (of_nat (length ptrs) :: u32)"
  define s1 where "s1 = log (Memcpy_fromiovecend len (Some bs)) (log (Kmalloc len p) s)"
  from fetch_header_ok [OF hdr] obtain hd where
    fh: "fetch_header K len s = Some (Inr (hd, c), s1)" "fetched len hd c"
      "unat c = length ptrs" "\<And>i. i < length ptrs \<Longrightarrow> hdr_pkt (kb_mem hd) (int i) = Some (ptrs ! i)"
    unfolding p_def bs_def c_def s1_def by blast
  have ne: "ptrs \<noteq> []" and small: "length ptrs < 2 ^ 31"
    using hdr by (simp_all add: good_header_def length_header_bytes)
  have t1: "ktrace s1 = ktrace s @ [Kmalloc len p, Memcpy_fromiovecend len (Some bs)]" "skbs s1 = skbs s"
    by (simp_all add: s1_def)
  have lk: "lock_of s = Some False" using inv by (simp add: inv_defs)
  have i1: "drv_inv s1 a v xs" unfolding s1_def
    by (intro drv_inv_log inv) (simp_all add: lk lock_simps)
  have fr: "fresh_skbs K s1" using fresh by (simp add: fresh_skbs_def t1)
  have w: "writable K (ktrace s1) (set ptrs) content" unfolding t1(1)
    by (rule writable_mono [OF user]) simp
  have im: "map (\<lambda>i. f (ptrs ! i)) [0..<length ptrs] = map f ptrs" for f :: "addr \<Rightarrow> u8 list"
    using map_nth [of ptrs] by (metis list.map_comp comp_apply map_cong)
  from io_write_loop_exact [OF i1 dev K fr w, where js = "[0..<length ptrs]" and ret = 0
      and Q = "\<lambda>i. ptrs ! i" and m = "kb_mem hd"] fh(4) small obtain t es where
    t: "io_write_loop K (kb_mem hd) [0..<length ptrs] 0 s1 = Some (int (length ptrs), t)"
      "ktrace t = ktrace s1 @ es" "rx_frames es = map (\<lambda>p. drop 14 (content p)) ptrs" "received s1 t"
      "drv_inv t a (net_dev_update (vn_stats_update (count_rx_all (map content ptrs))) v) xs"
    by (auto simp: sint_index im [of content] im [of "\<lambda>p. drop 14 (content p)"])
  let ?u = "log (Memcpy_toiovec (le_bytes 4 (length ptrs)) True) t"
  let ?e = "free_paged_mem (kb_addr hd) ?u"
  have "return_count K hd (int (length ptrs)) t = Some (4 + 8 * int (length ptrs), ?e)"
    using return_count_eq [OF fh(2), of "int (length ptrs)" K t] ne small out by (simp add: Let_def)
  then have "io_write_from_iovec K len s = Some (4 + 8 * int (length ptrs), ?e)"
    using fh(1,3) t(1) by (simp add: io_write_from_iovec_def)
  moreover have lkt: "lock_of t = Some False" using t(5) by (simp add: inv_defs)
  have "drv_inv ?e a (net_dev_update (vn_stats_update (count_rx_all (map content ptrs))) v) xs"
    by (rule drv_inv_same_but_trace [OF drv_inv_log [OF _ _ t(5)] same_but_trace_free])
      (simp_all add: lkt lock_simps)
  moreover have "skbs ?e = skbs s" using t(4) t1(2) by (simp add: received_def free_paged_mem_def)
  moreover obtain fs where fs: "ktrace ?e = ktrace t @ fs" "rx_frames fs = []"
    using fh(2) by (simp add: free_paged_mem_def fetched_def IS_PTR_VALID_def)
  moreover have "ktrace ?e = ktrace s @
      ([Kmalloc len p, Memcpy_fromiovecend len (Some bs)] @ es @ fs)"
    using fs t(2) t1(1) by simp
  moreover have "rx_frames ([Kmalloc len p, Memcpy_fromiovecend len (Some bs)] @ es @ fs) =
      map (\<lambda>p. drop 14 (content p)) ptrs" using t(3) fs(2) by simp
  ultimately show ?thesis by blast
qed

section \<open>A length that wraps around\<close>

text \<open>
  A buffer has about the room it was allocated with: the kernel rounds the size up, to at most
  twice as much and some padding.
\<close>

definition skb_tight :: "kernel \<Rightarrow> bool" where
  "skb_tight K \<longleftrightarrow>
     (\<forall>h r p k n. k_skb_put_fits K (h @ [Dev_alloc_skb r p, Skb_reserve p k]) p n \<longrightarrow>
        unat k + unat n \<le> 2 * unat r + 2 ^ 16)"

text \<open>
  (C29) A packet whose length plus the alignment wraps around \<open>2 ^ 32\<close> gets a buffer for what is
  left over, less than the alignment, if there is memory for so small a one; \<open>skb_put\<close> of the
  whole length does not fit in it, and takes the kernel down.
\<close>

theorem write_wrap_panics:
  assumes hdr: "good_header K s len (pkt # ptrs) rest" and K: "skb_tight K"
    and get: "\<And>es. k_get_user K (ktrace s @ es) pkt = Some n"
    and mem: "\<And>es r. r < k_net_ip_align K \<Longrightarrow> k_dev_alloc_skb K (ktrace s @ es) r \<noteq> NULL"
    and wrap: "2 ^ 32 \<le> unat n + unat (k_net_ip_align K)" and al: "unat (k_net_ip_align K) \<le> 2 ^ 16"
  shows "io_write_from_iovec K len s = None"
proof -
  let ?al = "k_net_ip_align K"
  from fetch_header_ok [OF hdr] obtain hd s1 es where
    fh: "fetch_header K len s = Some (Inr (hd, of_nat (length (pkt # ptrs))), s1)"
      "unat (of_nat (length (pkt # ptrs)) :: u32) = length (pkt # ptrs)"
      "hdr_pkt (kb_mem hd) (int 0) = Some pkt" "ktrace s1 = ktrace s @ es"
    by (auto dest: spec [of _ "0::nat"])
  have n: "unat n < 2 ^ 32" using unsigned_less [of n] by simp
  have "unat (n + ?al) = (unat n + unat ?al) mod 2 ^ 32" by (simp add: unat_word_ariths)
  also have "\<dots> = (unat n + unat ?al - 2 ^ 32) mod 2 ^ 32" by (rule le_mod_geq [OF wrap])
  also have "\<dots> = unat n + unat ?al - 2 ^ 32" by (rule mod_less) (use n al in simp)
  finally have r: "unat (n + ?al) < unat ?al" using n wrap by linarith
  then have "n + ?al < ?al" by (simp add: word_less_nat_alt)
  from mem [OF this, of "es @ [Get_user pkt (Some n)]"]
  have p: "k_dev_alloc_skb K (ktrace s1 @ [Get_user pkt (Some n)]) (n + ?al) \<noteq> NULL" by (simp add: fh(4))
  have "\<not> unat ?al + unat n \<le> 2 * unat (n + ?al) + 2 ^ 16" using wrap al r by simp
  then have "\<not> k_skb_put_fits K (h @ [Dev_alloc_skb (n + ?al) q, Skb_reserve q ?al]) q n" for h q
    using K unfolding skb_tight_def by blast
  then have nf: "\<not> k_skb_put_fits K (ktrace s1 @ [Get_user pkt (Some n), Dev_alloc_skb (n + ?al) q, Skb_reserve q ?al]) q n" for q
    by (metis append_assoc append_Cons append_Nil)
  have "k_get_user K (ktrace s1) pkt = Some n" using get [of es] fh(4) by simp
  then have "io_write_packet K pkt s1 = None" by (rule write_packet_no_fit [OF _ refl p nf])
  then have "io_write_loop K (kb_mem hd) [0..<length (pkt # ptrs)] 0 s1 = None"
    using fh(3) by (simp add: upt_conv_Cons del: upt_Suc)
  then show ?thesis using fh(1,2) by (simp add: io_write_from_iovec_def del: upt_Suc)
qed

end
