(* ===== verification/Io_Dev.thy ===== *)
theory Io_Dev
  imports Io_Write
begin

text \<open>
  \<open>io_dev.c\<close>: the character device \<open>/dev/kvnet\<close>. Opening it creates the network interface
  and closing it destroys the interface; reads and writes move packets; \<open>poll\<close> reports what
  can be done without blocking; \<open>ioctl\<close> cancels a pending read or describes the driver.
  \<open>io_dev_add\<close> and \<open>io_dev_remove\<close> register the device itself.
\<close>

section \<open>Constants\<close>

abbreviation (input) O_NONBLOCK :: u32 where "O_NONBLOCK \<equiv> 0x800"

abbreviation (input) POLLIN :: u32 where "POLLIN \<equiv> 0x1"
abbreviation (input) POLLPRI :: u32 where "POLLPRI \<equiv> 0x2"
abbreviation (input) POLLOUT :: u32 where "POLLOUT \<equiv> 0x4"
abbreviation (input) POLLERR :: u32 where "POLLERR \<equiv> 0x8"
abbreviation (input) POLLRDNORM :: u32 where "POLLRDNORM \<equiv> 0x40"
abbreviation (input) POLLWRNORM :: u32 where "POLLWRNORM \<equiv> 0x100"

section \<open>Reading and writing\<close>

text \<open>\<open>iv\<close> is the list of the \<open>iov_len\<close>; the sum is a \<open>ssize_t\<close>, 64 bits that wrap around.\<close>

fun io_dev_iov_total_loop :: "u64 list \<Rightarrow> u64 \<Rightarrow> u64" where
  "io_dev_iov_total_loop [] len = len"
| "io_dev_iov_total_loop (n # iv) len = io_dev_iov_total_loop iv (len + n)"

definition io_dev_iov_total :: "u64 list \<Rightarrow> u64" where
  "io_dev_iov_total iv = io_dev_iov_total_loop iv 0"

definition io_dev_aio_read :: "kernel \<Rightarrow> u32 \<Rightarrow> u64 list \<Rightarrow> drv \<Rightarrow> (int \<times> drv) option" where
  "io_dev_aio_read K f_flags iv s =
     (let len = io_dev_iov_total iv in
      if f_flags AND O_NONBLOCK = 0 then Some (- EINVAL, s)
      else if sint len < 0 then Some (- EINVAL, s)
      else io_read_to_iovec K len s)"

definition io_dev_aio_write :: "kernel \<Rightarrow> u32 \<Rightarrow> u64 list \<Rightarrow> drv \<Rightarrow> (int \<times> drv) option" where
  "io_dev_aio_write K f_flags iv s =
     (let len = io_dev_iov_total iv in
      if f_flags AND O_NONBLOCK = 0 then Some (- EINVAL, s)
      else if sint len < 0 then Some (- EINVAL, s)
      else io_write_from_iovec K len s)"

section \<open>Polling\<close>

definition io_dev_poll :: "drv \<Rightarrow> (u32 \<times> drv) option" where
  "io_dev_poll s = do {
     v \<leftarrow> vnet_dev s;
     if io_canceled (io_dev v) \<noteq> 0 then Some (POLLPRI OR POLLERR, s)
     else do {
       let mask = POLLOUT OR POLLWRNORM;
       let s = log Poll_wait s;
       (empty, s) \<leftarrow> with_queue (\<lambda>q s. Some (queue_is_empty q s)) s;
       Some (if empty = 0 then mask OR (POLLIN OR POLLRDNORM) else mask, s) } }"

section \<open>Control\<close>

definition io_dev_ioctl :: "kernel \<Rightarrow> u32 \<Rightarrow> addr \<Rightarrow> drv \<Rightarrow> (int \<times> drv) option" where
  "io_dev_ioctl K cmd arg s =
     (if cmd = KVNET_IOCTL_CANCEL_PENDING_READ then do {
        s \<leftarrow> vnet_upd (io_dev_update (io_canceled_update (\<lambda>_. 1))) s;
        s \<leftarrow> io_dev_wakeup s;
        Some (0, s) }
      else if cmd = KVNET_IOCTL_GET_INFO then
        (let ok = k_put_user K (ktrace s) arg KVNET_MAJOR_VERSION;
             s = log (Put_user arg KVNET_MAJOR_VERSION ok) s in
         if \<not> ok then Some (- EFAULT, s)
         else
           let ok = k_put_user K (ktrace s) (arg + 4) KVNET_MINOR_VERSION;
               s = log (Put_user (arg + 4) KVNET_MINOR_VERSION ok) s in
           if \<not> ok then Some (- EFAULT, s)
           else do {
             v \<leftarrow> vnet_dev s;
             let left = k_copy_to_user K (ktrace s) (arg + 8) (cfg_mac (cfg v));
             let s = log (Copy_to_user (arg + 8) (cfg_mac (cfg v)) left) s;
             if left \<noteq> 0 then Some (- EFAULT, s) else Some (0, s) })
      else Some (- EINVAL, s))"

section \<open>Opening and closing\<close>

definition io_dev_open :: "kernel \<Rightarrow> drv \<Rightarrow> (int \<times> drv) option" where
  "io_dev_open K s = do {
     v \<leftarrow> vnet_dev s;
     if io_opened (io_dev v) \<noteq> 0 then Some (- EACCES, s)
     else do {
       (ret, s) \<leftarrow> net_dev_add K s;
       if ret \<noteq> 0 then Some (ret, s)
       else do {
         s \<leftarrow> vnet_upd (io_dev_update (io_opened_update (\<lambda>_. 1))) s;
         s \<leftarrow> vnet_upd (io_dev_update (io_canceled_update (\<lambda>_. 0))) s;
         Some (0, s) } } }"

definition io_dev_close :: "kernel \<Rightarrow> drv \<Rightarrow> (int \<times> drv) option" where
  "io_dev_close K s = do {
     (_, s) \<leftarrow> net_dev_remove K s;
     s \<leftarrow> vnet_upd (io_dev_update (io_opened_update (\<lambda>_. 0))) s;
     Some (0, s) }"

section \<open>Registering the device\<close>

definition io_dev_add :: "kernel \<Rightarrow> drv \<Rightarrow> (int \<times> drv) option" where
  "io_dev_add K s = do {
     _ \<leftarrow> vnet_dev s;
     let s = log Init_waitqueue_head s;
     s \<leftarrow> vnet_upd (io_dev_update (io_major_number_update (\<lambda>_. - 1))) s;
     s \<leftarrow> vnet_upd (io_dev_update (io_minor_number_update (\<lambda>_. - 1))) s;
     s \<leftarrow> vnet_upd (io_dev_update (io_class_update (\<lambda>_. ERR_PTR (- ENOMEM)))) s;
     s \<leftarrow> vnet_upd (io_dev_update (io_device_update (\<lambda>_. ERR_PTR (- ENOMEM)))) s;
     let (ret, major, minor) = k_alloc_chrdev_region K (ktrace s);
     let s = log (Alloc_chrdev_region ret) s;
     if ret \<noteq> 0 then Some (ret, s)
     else do {
       s \<leftarrow> vnet_upd (io_dev_update (io_major_number_update (\<lambda>_. major))) s;
       s \<leftarrow> vnet_upd (io_dev_update (io_minor_number_update (\<lambda>_. minor))) s;
       let s = log Cdev_init s;
       let ret = k_cdev_add K (ktrace s);
       let s = log (Cdev_add ret) s;
       if ret \<noteq> 0 then Some (ret, s)
       else do {
         s \<leftarrow> vnet_upd (io_dev_update (io_added_update (\<lambda>_. 1))) s;
         let cl = k_class_create K (ktrace s);
         let s = log (Class_create cl) s;
         s \<leftarrow> vnet_upd (io_dev_update (io_class_update (\<lambda>_. cl))) s;
         if IS_ERR cl then Some (PTR_ERR cl, s)
         else do {
           let dv = k_device_create K (ktrace s);
           let s = log (Device_create cl dv) s;
           s \<leftarrow> vnet_upd (io_dev_update (io_device_update (\<lambda>_. dv))) s;
           if IS_ERR dv then Some (PTR_ERR dv, s) else Some (0, s) } } } }"

definition io_dev_remove :: "drv \<Rightarrow> (int \<times> drv) option" where
  "io_dev_remove s = do {
     v \<leftarrow> vnet_dev s;
     s \<leftarrow> (if \<not> IS_ERR (io_device (io_dev v)) then
             vnet_upd (io_dev_update (io_device_update (\<lambda>_. ERR_PTR (- ENOMEM))))
               (log (Device_destroy (io_class (io_dev v)) (io_major_number (io_dev v))
                 (io_minor_number (io_dev v))) s)
           else Some s);
     v \<leftarrow> vnet_dev s;
     s \<leftarrow> (if \<not> IS_ERR (io_class (io_dev v)) then
             vnet_upd (io_dev_update (io_class_update (\<lambda>_. ERR_PTR (- ENOMEM))))
               (log (Class_destroy (io_class (io_dev v))) s)
           else Some s);
     v \<leftarrow> vnet_dev s;
     s \<leftarrow> (if io_added (io_dev v) = 1 then
             vnet_upd (io_dev_update (io_added_update (\<lambda>_. 0))) (log Cdev_del s)
           else Some s);
     v \<leftarrow> vnet_dev s;
     s \<leftarrow> (if io_major_number (io_dev v) \<noteq> - 1 then do {
             let s = log (Unregister_chrdev_region (io_major_number (io_dev v))
               (io_minor_number (io_dev v))) s;
             s \<leftarrow> vnet_upd (io_dev_update (io_major_number_update (\<lambda>_. - 1))) s;
             vnet_upd (io_dev_update (io_minor_number_update (\<lambda>_. - 1))) s }
           else Some s);
     Some (0, s) }"

section \<open>What the device has registered\<close>

text \<open>
  \<open>io_holds rs io\<close>: the object's fields say exactly which registrations \<open>rs\<close> are
  outstanding, and each is made on top of the ones before it.
\<close>

definition io_holds :: "held list \<Rightarrow> io_dev_data \<Rightarrow> bool" where
  "io_holds rs io \<longleftrightarrow>
     rs = (if IS_ERR (io_device io) then [] else [Device (io_class io)]) @
          (if IS_ERR (io_class io) then [] else [Class (io_class io)]) @
          (if io_added io = 1 then [Cdev] else []) @
          (if io_major_number io = - 1 then [] else [Region]) \<and>
     (io_added io = 0 \<or> io_added io = 1) \<and>
     (\<not> IS_ERR (io_device io) \<longrightarrow> \<not> IS_ERR (io_class io)) \<and>
     (\<not> IS_ERR (io_class io) \<longrightarrow> io_added io = 1) \<and>
     (io_added io = 1 \<longrightarrow> io_major_number io \<noteq> - 1)"

text \<open>Major numbers are not negative, and an error pointer carries an error.\<close>

definition chrdev_laws :: "kernel \<Rightarrow> bool" where
  "chrdev_laws K \<longleftrightarrow> (\<forall>h. 0 \<le> fst (snd (k_alloc_chrdev_region K h)) \<and>
     k_class_create K h \<noteq> ERR_PTR 0 \<and> k_device_create K h \<noteq> ERR_PTR 0)"

lemma PTR_ERR_nonzero: "p \<noteq> ERR_PTR 0 \<Longrightarrow> IS_ERR p \<Longrightarrow> PTR_ERR p \<noteq> 0"
  by (cases p) auto

text \<open>Registering touches nothing but the fields of the I/O device and the trace.\<close>

definition io_only :: "drv \<Rightarrow> addr \<Rightarrow> vnet \<Rightarrow> drv \<Rightarrow> vnet \<Rightarrow> bool" where
  "io_only s a v s' v' \<longleftrightarrow> skbs s' = skbs s \<and> netdevs s' = netdevs s \<and>
     (lock_of s = Some False \<longrightarrow> lock_of s' = Some False) \<and> up_of s' = up_of s \<and>
     gs_vnet s' = Some (a, v') \<and> net_dev v' = net_dev v \<and> cfg v' = cfg v \<and>
     io_opened (io_dev v') = io_opened (io_dev v) \<and> io_canceled (io_dev v') = io_canceled (io_dev v)"

lemma io_dev_add_holds:
  assumes g: "gs_vnet s = Some (a, v)" and none: "held_of s = Some rest" "io_added (io_dev v) = 0"
    and K: "chrdev_laws K"
  shows "\<exists>r s' v' rs. io_dev_add K s = Some (r, s') \<and> io_only s a v s' v' \<and>
    held_of s' = Some (rs @ rest) \<and> io_holds rs (io_dev v') \<and> (r = 0) = (length rs = 4)"
proof -
  define h1 where "h1 = ktrace s @ [Init_waitqueue_head]"
  obtain r1 maj min where r1: "k_alloc_chrdev_region K h1 = (r1, maj, min)" by (cases "k_alloc_chrdev_region K h1")
  define r2 where "r2 = k_cdev_add K (h1 @ [Alloc_chrdev_region r1, Cdev_init])"
  define cl where "cl = k_class_create K (h1 @ [Alloc_chrdev_region r1, Cdev_init, Cdev_add r2])"
  define dv where "dv = k_device_create K (h1 @ [Alloc_chrdev_region r1, Cdev_init, Cdev_add r2, Class_create cl])"
  have maj: "maj \<noteq> - 1" using K r1 unfolding chrdev_laws_def by (metis fst_conv snd_conv neg_0_le_iff_le not_one_le_zero)
  have pe: "IS_ERR cl \<Longrightarrow> PTR_ERR cl \<noteq> 0" "IS_ERR dv \<Longrightarrow> PTR_ERR dv \<noteq> 0"
    using K unfolding chrdev_laws_def cl_def dv_def by (metis PTR_ERR_nonzero)+
  note S = io_dev_add_def io_only_def io_holds_def lock_simps Let_def
  note D = r1 [unfolded h1_def] r2_def [unfolded h1_def, symmetric] cl_def [unfolded h1_def, symmetric]
    dv_def [unfolded h1_def, symmetric]
  consider "r1 \<noteq> 0" | "r1 = 0" "r2 \<noteq> 0" | "r1 = 0" "r2 = 0" "IS_ERR cl"
    | "r1 = 0" "r2 = 0" "\<not> IS_ERR cl" "IS_ERR dv" | "r1 = 0" "r2 = 0" "\<not> IS_ERR cl" "\<not> IS_ERR dv"
    by blast
  then show ?thesis
    by cases (use g none D maj pe in \<open>simp_all add: S\<close>)
qed

lemma io_dev_remove_holds:
  assumes g: "gs_vnet s = Some (a, v)" and "held_of s = Some (rs @ rest)" "io_holds rs (io_dev v)"
  shows "\<exists>s' v'. io_dev_remove s = Some (0, s') \<and> io_only s a v s' v' \<and>
    held_of s' = Some rest \<and> io_holds [] (io_dev v')"
proof -
  define io where "io = io_dev v"
  note H = assms(3) [folded io_def, unfolded io_holds_def]
  note S = io_dev_remove_def io_only_def io_holds_def lock_simps io_def [symmetric]
  consider "\<not> IS_ERR (io_device io)" | "IS_ERR (io_device io)" "\<not> IS_ERR (io_class io)"
    | "IS_ERR (io_device io)" "IS_ERR (io_class io)" "io_added io = 1"
    | "IS_ERR (io_device io)" "IS_ERR (io_class io)" "io_added io = 0" "io_major_number io \<noteq> - 1"
    | "IS_ERR (io_device io)" "IS_ERR (io_class io)" "io_added io = 0" "io_major_number io = - 1"
    using H by blast
  then show ?thesis
    by cases (use g assms(2) H in \<open>auto simp: S\<close>)
qed

section \<open>The file operations and the invariant\<close>

lemma queue_is_empty_rep:
  assumes "queue_rep q h xs" and "length xs < 2 ^ 32"
  shows "fst (queue_is_empty q s) = (if xs = [] then 1 else 0)"
  using assms queue_rep_props(5) [OF assms(1)]
  by (simp add: queue_is_empty_def Let_def of_nat_eq_0_u32)

lemma io_dev_poll_inv:
  assumes inv: "drv_inv s a v xs"
  shows "\<exists>s'. io_dev_poll s = Some
      (if io_canceled (io_dev v) \<noteq> 0 then POLLPRI OR POLLERR
       else if xs = [] then POLLOUT OR POLLWRNORM
       else (POLLOUT OR POLLWRNORM) OR (POLLIN OR POLLRDNORM), s') \<and>
    drv_inv s' a v xs \<and> same_but_trace s s' \<and> held_of s' = held_of s"
proof (cases "io_canceled (io_dev v) = 0")
  case False
  with inv show ?thesis by (simp add: io_dev_poll_def inv_defs)
next
  case True
  let ?s0 = "log Poll_wait s"
  let ?s' = "release_lock Queue_lock (acquire_lock Queue_lock ?s0)"
  let ?q = "vn_queue (net_dev v)"
  have g: "gs_vnet s = Some (a, v)" and lk: "lock_of s = Some False" using inv by (simp_all add: inv_defs)
  have rep: "queue_rep ?q (skbs s) xs" and len: "length xs < 2 ^ 32" using inv by (simp_all add: inv_defs)
  have qe: "queue_is_empty ?q ?s0 = (if xs = [] then 1 else 0, ?q, ?s')"
    using queue_is_empty_rep [OF rep len, of ?s0] by (simp add: queue_is_empty_def Let_def)
  have eq: "?s'\<lparr>gs_vnet := Some (a, net_dev_update (vn_queue_update (\<lambda>_. ?q)) v)\<rparr> = ?s'"
    using g by simp
  have "with_queue (\<lambda>q s. Some (queue_is_empty q s)) ?s0 =
      Some (if xs = [] then 1 else 0, ?s'\<lparr>gs_vnet := Some (a, net_dev_update (vn_queue_update (\<lambda>_. ?q)) v)\<rparr>)"
    by (rule with_queue_Some) (use g qe in simp_all)
  then have "with_queue (\<lambda>q s. Some (queue_is_empty q s)) ?s0 = Some (if xs = [] then 1 else 0, ?s')"
    unfolding eq .
  then have "io_dev_poll s = Some (if xs = [] then POLLOUT OR POLLWRNORM
      else (POLLOUT OR POLLWRNORM) OR (POLLIN OR POLLRDNORM), ?s')"
    using g True by (simp add: io_dev_poll_def)
  moreover have "same_but_trace s ?s'" using lk by (simp add: same_but_trace_def lock_simps)
  moreover have "held_of ?s' = held_of s" by (simp add: lock_simps)
  ultimately show ?thesis using True drv_inv_same_but_trace [OF inv] by auto
qed

lemma drv_inv_io_upd:
  "drv_inv s a v xs \<Longrightarrow> drv_inv (s\<lparr>gs_vnet := Some (a, io_dev_update f v)\<rparr>) a (io_dev_update f v) xs"
  by (rule drv_inv_vnet_upd) simp_all

text \<open>Logging calls that take no lock and leave the interface as it is.\<close>

lemma drv_inv_log_neutral:
  "drv_inv s a v xs \<Longrightarrow> lock_step e False = Some False \<Longrightarrow> (\<And>u. up_step e u = u) \<Longrightarrow>
   drv_inv (log e s) a v xs"
  by (rule drv_inv_log) (simp_all add: inv_defs lock_simps)

definition cancel_vnet :: "vnet \<Rightarrow> vnet" where
  "cancel_vnet = io_dev_update (io_canceled_update (\<lambda>_. 1))"

definition ioctl_result :: "u32 \<Rightarrow> int \<Rightarrow> bool" where
  "ioctl_result cmd r \<longleftrightarrow>
     (if cmd = KVNET_IOCTL_CANCEL_PENDING_READ then r = 0
      else if cmd = KVNET_IOCTL_GET_INFO then r \<in> {0, - EFAULT} else r = - EINVAL)"

lemma io_dev_ioctl_inv:
  assumes inv: "drv_inv s a v xs"
  shows "\<exists>r s'. io_dev_ioctl K cmd arg s = Some (r, s') \<and> ioctl_result cmd r \<and>
    drv_inv s' a (if cmd = KVNET_IOCTL_CANCEL_PENDING_READ then cancel_vnet v else v) xs \<and>
    skbs s' = skbs s \<and> netdevs s' = netdevs s \<and> held_of s' = held_of s"
proof -
  have g: "gs_vnet s = Some (a, v)" using inv by (simp add: inv_defs)
  consider "cmd = KVNET_IOCTL_CANCEL_PENDING_READ"
    | "cmd = KVNET_IOCTL_GET_INFO" "cmd \<noteq> KVNET_IOCTL_CANCEL_PENDING_READ"
    | "cmd \<noteq> KVNET_IOCTL_CANCEL_PENDING_READ" "cmd \<noteq> KVNET_IOCTL_GET_INFO" by blast
  then show ?thesis
  proof cases
    case 1
    with g drv_inv_log_neutral [OF drv_inv_io_upd [OF inv]] show ?thesis
      by (simp add: io_dev_ioctl_def io_dev_wakeup_def cancel_vnet_def ioctl_result_def lock_simps)
  next
    case 2
    have i: "drv_inv (log (Copy_to_user p bs n) s) a v xs" "drv_inv (log (Put_user q w b) s) a v xs"
      if "drv_inv s a v xs" for p bs n q w b and s :: drv
      using that by (auto intro: drv_inv_log_neutral)
    from 2 g inv show ?thesis
      by (auto simp: io_dev_ioctl_def ioctl_result_def Let_def lock_simps intro!: i)
  next
    case 3
    with inv show ?thesis by (simp add: io_dev_ioctl_def ioctl_result_def)
  qed
qed

text \<open>
  \<open>KVNET_IOCTL_GET_INFO\<close> writes the version 2.1 and the configured MAC address into the
  caller's structure, at the offsets of its fields, and changes nothing.
\<close>

theorem io_dev_ioctl_info:
  assumes inv: "drv_inv s a v xs"
    and user: "\<And>es p n. k_put_user K (ktrace s @ es) p n" "\<And>es p bs. k_copy_to_user K (ktrace s @ es) p bs = 0"
  shows "\<exists>s'. io_dev_ioctl K KVNET_IOCTL_GET_INFO arg s = Some (0, s') \<and>
    ktrace s' = ktrace s @ [Put_user arg 2 True, Put_user (arg + 4) 1 True,
      Copy_to_user (arg + 8) (cfg_mac (cfg v)) 0] \<and> drv_inv s' a v xs"
proof -
  have g: "gs_vnet s = Some (a, v)" using inv by (simp add: inv_defs)
  have "KVNET_IOCTL_GET_INFO \<noteq> KVNET_IOCTL_CANCEL_PENDING_READ" by (simp add: ioctl_numbers)
  then show ?thesis
    using g user(1) [of "[]"] user(1) [of "[_]"] user(2) [of "[_, _]"] inv
    by (auto simp: io_dev_ioctl_def KVNET_MAJOR_VERSION_def KVNET_MINOR_VERSION_def Let_def
        intro!: drv_inv_log_neutral)
qed

text \<open>
  \<open>drv_ok\<close>: the invariant, with the file and the interface in step: the file is open
  exactly while the interface exists, and then the interface is registered. The address in
  the configuration is a whole one.
\<close>

definition file_wf :: "vnet \<Rightarrow> bool" where
  "file_wf v \<longleftrightarrow> (io_opened (io_dev v) \<noteq> 0) = (vn_device (net_dev v) \<noteq> NULL) \<and>
     (vn_device (net_dev v) \<noteq> NULL \<longrightarrow> vn_added (net_dev v) \<noteq> 0) \<and> 6 \<le> length (cfg_mac (cfg v))"

definition drv_ok :: "drv \<Rightarrow> addr \<Rightarrow> vnet \<Rightarrow> addr list \<Rightarrow> bool" where
  "drv_ok s a v xs \<longleftrightarrow> drv_inv s a v xs \<and> file_wf v"

lemma drv_ok_closed:
  "drv_ok s a v xs \<Longrightarrow> io_opened (io_dev v) = 0 \<Longrightarrow>
     xs = [] \<and> vn_device (net_dev v) = NULL \<and> netdevs s = Map.empty"
proof -
  assume ok: "drv_ok s a v xs" and cl: "io_opened (io_dev v) = 0"
  then have inv: "drv_inv s a v xs" and dev: "vn_device (net_dev v) = NULL"
    by (simp_all add: drv_ok_def file_wf_def)
  then have nd: "netdevs s = Map.empty" "vn_added (net_dev v) = 0" by (simp_all add: inv_defs dev_wf_def)
  with dev_down [OF inv] dev show ?thesis by simp
qed

text \<open>The fields that say what is registered; opening and closing leave them alone.\<close>

definition io_same :: "vnet \<Rightarrow> vnet \<Rightarrow> bool" where
  "io_same v v' \<longleftrightarrow> cfg v' = cfg v \<and> io_added (io_dev v') = io_added (io_dev v) \<and>
     io_major_number (io_dev v') = io_major_number (io_dev v) \<and>
     io_minor_number (io_dev v') = io_minor_number (io_dev v) \<and>
     io_class (io_dev v') = io_class (io_dev v) \<and> io_device (io_dev v') = io_device (io_dev v)"

lemma io_same_refl [simp]: "io_same v v"
  by (simp add: io_same_def)

lemma io_same_trans: "io_same u v \<Longrightarrow> io_same v w \<Longrightarrow> io_same u w"
  by (simp add: io_same_def)

lemma io_same_holds: "io_same v v' \<Longrightarrow> io_holds rs (io_dev v') = io_holds rs (io_dev v)"
  by (simp add: io_same_def io_holds_def)

lemma io_dev_open_busy:
  "gs_vnet s = Some (a, v) \<Longrightarrow> io_opened (io_dev v) \<noteq> 0 \<Longrightarrow> io_dev_open K s = Some (- EACCES, s)"
  by (simp add: io_dev_open_def)

lemma io_dev_open_ok:
  assumes ok: "drv_ok s a v xs" and closed: "io_opened (io_dev v) = 0" and K: "netdev_laws K"
  shows "\<exists>r s' v'. io_dev_open K s = Some (r, s') \<and> drv_ok s' a v' [] \<and> io_same v v' \<and>
    held_of s' = held_of s \<and>
    q_enabled (vn_queue (net_dev v')) = 0 \<and>
    (if r = 0 then io_opened (io_dev v') = 1 \<and> io_canceled (io_dev v') = 0
     else io_dev v' = io_dev v)"
proof -
  from drv_ok_closed [OF ok closed] have xs: "xs = []" and dev: "vn_device (net_dev v) = NULL" by auto
  from ok xs have inv: "drv_inv s a v []" and mac: "6 \<le> length (cfg_mac (cfg v))"
    by (simp_all add: drv_ok_def file_wf_def)
  have g: "gs_vnet s = Some (a, v)" using inv by (simp add: inv_defs)
  from net_dev_add_inv [OF inv dev K mac] obtain r t w where
    t: "net_dev_add K s = Some (r, t)" "drv_inv t a w []" "cfg w = cfg v" "io_dev w = io_dev v"
      "held_of t = held_of s" "q_enabled (vn_queue (net_dev w)) = 0"
      "if r = 0 then vn_device (net_dev w) \<noteq> NULL \<and> vn_added (net_dev w) \<noteq> 0
       else vn_device (net_dev w) = NULL" by blast
  have gt: "gs_vnet t = Some (a, w)" using t(2) by (simp add: inv_defs)
  show ?thesis
  proof (cases "r = 0")
    case True
    let ?w = "io_dev_update (io_canceled_update (\<lambda>_. 0)) (io_dev_update (io_opened_update (\<lambda>_. 1)) w)"
    have "io_dev_open K s = Some (0, t\<lparr>gs_vnet := Some (a, ?w)\<rparr>)"
      using g closed t(1) True gt by (simp add: io_dev_open_def)
    moreover have "drv_inv (t\<lparr>gs_vnet := Some (a, ?w)\<rparr>) a ?w []"
      using t(2) by (rule drv_inv_vnet_upd) simp_all
    ultimately show ?thesis using t True mac
      by (intro exI [of _ 0] exI [of _ "t\<lparr>gs_vnet := Some (a, ?w)\<rparr>"] exI [of _ ?w])
        (simp add: drv_ok_def file_wf_def io_same_def)
  next
    case False
    then have "io_dev_open K s = Some (r, t)" using g closed t(1) by (simp add: io_dev_open_def)
    with t False mac closed show ?thesis
      by (intro exI [of _ r] exI [of _ t] exI [of _ w]) (simp add: drv_ok_def file_wf_def io_same_def)
  qed
qed

lemma io_dev_close_ok:
  assumes ok: "drv_ok s a v xs" and K: "netdev_laws K"
  shows "\<exists>s' v'. io_dev_close K s = Some (0, s') \<and> drv_ok s' a v' [] \<and> io_same v v' \<and>
    held_of s' = held_of s \<and> io_opened (io_dev v') = 0 \<and> netdevs s' = Map.empty \<and> skbs s' = Map.empty"
proof -
  from ok have inv: "drv_inv s a v xs" and mac: "6 \<le> length (cfg_mac (cfg v))"
    by (simp_all add: drv_ok_def file_wf_def)
  from net_dev_remove_inv [OF inv K] obtain t w where
    t: "net_dev_remove K s = Some (0, t)" "drv_inv t a w []" "vn_device (net_dev w) = NULL"
      "cfg w = cfg v" "io_dev w = io_dev v" "held_of t = held_of s" by blast
  have gt: "gs_vnet t = Some (a, w)" using t(2) by (simp add: inv_defs)
  let ?w = "io_dev_update (io_opened_update (\<lambda>_. 0)) w"
  let ?u = "t\<lparr>gs_vnet := Some (a, ?w)\<rparr>"
  have "io_dev_close K s = Some (0, ?u)" using t(1) gt by (simp add: io_dev_close_def)
  moreover have "drv_inv ?u a ?w []" by (rule drv_inv_io_upd [OF t(2)])
  moreover have "netdevs ?u = Map.empty" "skbs ?u = Map.empty"
    using t(2,3) by (auto simp: inv_defs dev_wf_def)
  ultimately show ?thesis using t mac
    by (intro exI [of _ ?u] exI [of _ ?w]) (simp add: drv_ok_def file_wf_def io_same_def)
qed

text \<open>The opened file as a resource.\<close>

definition file_closed :: "kernel \<Rightarrow> drv \<Rightarrow> bool" where
  "file_closed K s \<longleftrightarrow> netdev_laws K \<and> (\<exists>a v. drv_ok s a v [] \<and> io_opened (io_dev v) = 0)"

definition file_opened :: "kernel \<Rightarrow> drv \<Rightarrow> bool" where
  "file_opened K s \<longleftrightarrow> netdev_laws K \<and> (\<exists>a v xs. drv_ok s a v xs \<and> io_opened (io_dev v) \<noteq> 0)"

interpretation file_life: robust_lifecycle
  "io_dev_open K" "io_dev_close K" "file_closed K" "file_opened K"
  for K :: kernel
proof unfold_locales
  fix s assume "file_closed K s"
  then obtain a v where K: "netdev_laws K" and "drv_ok s a v []" "io_opened (io_dev v) = 0"
    by (auto simp: file_closed_def)
  from io_dev_open_ok [OF this(2,3) K] this(3) K
  show "\<exists>r s'. io_dev_open K s = Some (r, s') \<and> (if r = 0 then file_opened K s' else file_closed K s')"
    unfolding file_closed_def file_opened_def by (metis zero_neq_one)
next
  fix s assume "file_opened K s"
  then obtain a v xs where "netdev_laws K" "drv_ok s a v xs" by (auto simp: file_opened_def)
  with io_dev_close_ok [OF this(2,1)]
  show "\<exists>s'. io_dev_close K s = Some (0, s') \<and> file_closed K s'" unfolding file_closed_def by metis
next
  fix s assume "file_closed K s"
  then obtain a v where "netdev_laws K" "drv_ok s a v []" by (auto simp: file_closed_def)
  with io_dev_close_ok [OF this(2,1)]
  show "\<exists>s'. io_dev_close K s = Some (0, s') \<and> file_closed K s'" unfolding file_closed_def by metis
qed

section \<open>Registration and its undoing\<close>

text \<open>
  (C25) Whatever step of \<open>io_dev_add\<close> fails, \<open>io_dev_remove\<close> gives back what was registered, in
  the reverse order, and nothing else; 0 is returned exactly when all four
  registrations are held.
\<close>

theorem registration_undone:
  assumes "gs_vnet s = Some (a, v)" and "held_of s = Some rest" and "io_added (io_dev v) = 0"
    and "chrdev_laws K"
  shows "\<exists>r s1 s2 rs. io_dev_add K s = Some (r, s1) \<and> held_of s1 = Some (rs @ rest) \<and>
    (r = 0 \<longleftrightarrow> length rs = 4) \<and> io_dev_remove s1 = Some (0, s2) \<and> held_of s2 = Some rest"
proof -
  from io_dev_add_holds [OF assms] obtain r s1 v1 rs where
    add: "io_dev_add K s = Some (r, s1)" "io_only s a v s1 v1" "held_of s1 = Some (rs @ rest)"
      "io_holds rs (io_dev v1)" "(r = 0) = (length rs = 4)" by blast
  from add(2) have "gs_vnet s1 = Some (a, v1)" by (simp add: io_only_def)
  from io_dev_remove_holds [OF this add(3,4)] add show ?thesis by blast
qed

text \<open>
  Any number of opens of the device, each followed by a close if it succeeded, returns to
  a state in which the file is closed, with the invariant, no interface and no packets.
\<close>

theorem open_close_cycles:
  assumes "netdev_laws K" and "drv_ok s a v []" and "io_opened (io_dev v) = 0"
  shows "\<exists>s' a' v'. uses (io_dev_open K) (io_dev_close K) n s = Some s' \<and> drv_ok s' a' v' [] \<and>
    io_opened (io_dev v') = 0 \<and> netdevs s' = Map.empty \<and> skbs s' = Map.empty"
proof -
  have "file_closed K s" using assms by (auto simp: file_closed_def)
  from file_life.uses_idle [OF this, of n] obtain s' where
    s': "uses (io_dev_open K) (io_dev_close K) n s = Some s'" "file_closed K s'" by blast
  then obtain a' v' where ok: "drv_ok s' a' v' []" "io_opened (io_dev v') = 0"
    by (auto simp: file_closed_def)
  moreover have "netdevs s' = Map.empty" "skbs s' = Map.empty"
    using drv_ok_closed [OF ok] ok(1) by (auto simp: drv_ok_def inv_defs)
  ultimately show ?thesis using s'(1) by blast
qed

end
