(* ===== verification/Init.thy ===== *)
theory Init
  imports Io_Dev
begin

text \<open>
  \<open>init.c\<close>: loading and unloading the module. Loading creates the object \<open>gs_vnet\<close>, fills
  in its configuration and registers the character device; when a step fails, everything
  done so far is undone by \<open>module_stop\<close>. The debug switch \<open>g_utils_debug_enabled\<close> is a field
  of the state \<open>drv\<close>.
\<close>

section \<open>The operations\<close>

definition module_stop :: "drv \<Rightarrow> drv option" where
  "module_stop s = do {
     (_, s) \<leftarrow> io_dev_remove s;
     let (_, s) = vnet_close s;
     Some s }"

definition module_start :: "kernel \<Rightarrow> drv \<Rightarrow> (int \<times> drv) option" where
  "module_start K s = do {
     let (r, s) = vnet_init K s;
     (ret, s) \<leftarrow>
       (if r \<noteq> 0 then Some (- EINVAL, s)
        else do {
          s \<leftarrow> vnet_upd (cfg_update (cfg_max_queue_len_update (\<lambda>_. 256))) s;
          s \<leftarrow> vnet_upd (cfg_update (cfg_mac_update (\<lambda>m.
            m[0 := 0x44, 1 := 0x45, 2 := 0x53, 3 := 0x54, 4 := 0x4f, 5 := 0x53]))) s;
          io_dev_add K s });
     if ret \<noteq> 0 then do { s \<leftarrow> module_stop s; Some (ret, s) } else Some (ret, s) }"

section \<open>Loading and unloading\<close>

text \<open>
  The state of an unloaded module: no object, no packets, no devices, nothing held, the lock
  not held.
\<close>

definition unloaded :: "drv \<Rightarrow> bool" where
  "unloaded s \<longleftrightarrow> gs_vnet s = None \<and> skbs s = Map.empty \<and> netdevs s = Map.empty \<and>
     held_of s = Some [] \<and> lock_of s = Some False \<and> \<not> up_of s"

text \<open>
  The state of a loaded module that nobody has open: the object is configured, and the
  driver holds its registrations and the object, in this order.
\<close>

definition loaded :: "drv \<Rightarrow> addr \<Rightarrow> vnet \<Rightarrow> bool" where
  "loaded s a v \<longleftrightarrow> drv_ok s a v [] \<and> io_opened (io_dev v) = 0 \<and>
     cfg v = \<lparr>cfg_mac = [0x44, 0x45, 0x53, 0x54, 0x4f, 0x53], cfg_max_queue_len = 256\<rparr> \<and>
     (\<exists>rs. length rs = 4 \<and> io_holds rs (io_dev v) \<and> held_of s = Some (rs @ [Block a]))"

text \<open>The object that \<open>module_start\<close> has made when it registers the device.\<close>

definition configured_vnet :: vnet where
  "configured_vnet = zero_vnet
     \<lparr>cfg := \<lparr>cfg_mac = [0x44, 0x45, 0x53, 0x54, 0x4f, 0x53], cfg_max_queue_len = 256\<rparr>\<rparr>"

lemma module_stop_holds:
  assumes inv: "gs_vnet s = Some (a, v)" "a \<noteq> NULL" "held_of s = Some (rs @ [Block a])" "io_holds rs (io_dev v)"
    and rest: "skbs s = Map.empty" "netdevs s = Map.empty" "lock_of s = Some False" "\<not> up_of s"
  shows "\<exists>s'. module_stop s = Some s' \<and> unloaded s'"
proof -
  from io_dev_remove_holds [OF inv(1,3,4)] obtain t w where
    t: "io_dev_remove s = Some (0, t)" "io_only s a v t w" "held_of t = Some [Block a]" by blast
  have "module_stop s = Some ((free_nonpaged_mem a (free_lock Queue_lock t))\<lparr>gs_vnet := None\<rparr>)"
    using t(1,2) by (simp add: module_stop_def vnet_close_def queue_close_def io_only_def)
  moreover have "unloaded ((free_nonpaged_mem a (free_lock Queue_lock t))\<lparr>gs_vnet := None\<rparr>)"
    using t(2,3) rest inv(2)
    by (simp add: unloaded_def io_only_def free_nonpaged_mem_def free_lock_def IS_PTR_VALID_def lock_simps)
  ultimately show ?thesis by blast
qed

lemma module_start_cases:
  assumes s: "unloaded s" and mem: "k_kmalloc K (ktrace s) (alloc_size (k_sizeof_vnet K)) \<noteq> NULL"
    and K: "chrdev_laws K"
  shows "\<exists>r s'. module_start K s = Some (r, s') \<and>
    (if r = 0 then \<exists>a v. loaded s' a v else unloaded s')"
proof -
  define a where "a = k_kmalloc K (ktrace s) (alloc_size (k_sizeof_vnet K))"
  define t where "t = (log (Spin_lock_init Queue_lock) (log (Kmalloc (alloc_size (k_sizeof_vnet K)) a) s))
    \<lparr>gs_vnet := Some (a, configured_vnet)\<rparr>"
  have a: "a \<noteq> NULL" using mem by (simp add: a_def)
  have gt: "gs_vnet t = Some (a, configured_vnet)" and ht: "held_of t = Some [Block a]"
    and added: "io_added (io_dev configured_vnet) = 0"
    using s a by (simp_all add: t_def unloaded_def lock_simps configured_vnet_def zero_vnet_def)
  have start: "module_start K s = do {
      (ret, s) \<leftarrow> io_dev_add K t;
      if ret \<noteq> 0 then do { s \<leftarrow> module_stop s; Some (ret, s) } else Some (ret, s) }"
    using s a by (simp add: module_start_def vnet_init_def unloaded_def alloc_nonpaged_mem_def alloc_mem_def
        a_def [symmetric] IS_PTR_VALID_def queue_init_def alloc_lock_def Let_def t_def configured_vnet_def
        zero_vnet_def numeral_eq_Suc)
  from io_dev_add_holds [OF gt ht added K] obtain r u w rs where
    u: "io_dev_add K t = Some (r, u)" "io_only t a configured_vnet u w" "held_of u = Some (rs @ [Block a])"
      "io_holds rs (io_dev w)" "(r = 0) = (length rs = 4)" by blast
  have tt: "skbs t = Map.empty" "netdevs t = Map.empty" "lock_of t = Some False" "\<not> up_of t"
    using s by (simp_all add: t_def unloaded_def lock_simps)
  have io: "skbs u = Map.empty" "netdevs u = Map.empty" "lock_of u = Some False" "\<not> up_of u"
    "gs_vnet u = Some (a, w)" "net_dev w = net_dev configured_vnet" "cfg w = cfg configured_vnet"
    "io_opened (io_dev w) = 0"
    using u(2) tt by (simp_all add: io_only_def configured_vnet_def zero_vnet_def)
  show ?thesis
  proof (cases "r = 0")
    case True
    have "drv_ok u a w []"
      using io a by (simp add: drv_ok_def inv_defs file_wf_def dev_wf_def configured_vnet_def zero_vnet_def)
    then have "loaded u a w" using True u(3,4,5) io by (auto simp: loaded_def configured_vnet_def)
    moreover have "module_start K s = Some (0, u)" using start u(1) True by simp
    ultimately show ?thesis by auto
  next
    case False
    from module_stop_holds [OF io(5) a u(3,4) io(1,2,3,4)] obtain s' where
      "module_stop u = Some s'" "unloaded s'" by blast
    with False u(1) start show ?thesis by simp
  qed
qed

lemma module_stop_loaded:
  assumes "loaded s a v"
  shows "\<exists>s'. module_stop s = Some s' \<and> unloaded s'"
proof -
  from assms obtain rs where rs: "io_holds rs (io_dev v)" "held_of s = Some (rs @ [Block a])"
    and ok: "drv_ok s a v []" and cl: "io_opened (io_dev v) = 0" by (auto simp: loaded_def)
  from ok have inv: "drv_inv s a v []" by (simp add: drv_ok_def)
  with drv_ok_closed [OF ok cl] have "gs_vnet s = Some (a, v)" "a \<noteq> NULL" "skbs s = Map.empty"
      "netdevs s = Map.empty" "lock_of s = Some False" "\<not> up_of s"
    by (auto simp: inv_defs dev_wf_def)
  with module_stop_holds rs show ?thesis by blast
qed

text \<open>Without memory for the object, the rollback dereferences the object that does not exist.\<close>

lemma module_start_oops:
  "gs_vnet s = None \<Longrightarrow> k_kmalloc K (ktrace s) (alloc_size (k_sizeof_vnet K)) = NULL \<Longrightarrow> module_start K s = None"
  by (simp add: module_start_def vnet_init_def alloc_nonpaged_mem_def alloc_mem_def IS_PTR_VALID_def
      module_stop_def io_dev_remove_def vnet_dev_def Let_def)

text \<open>The module as a resource.\<close>

definition kmalloc_works :: "kernel \<Rightarrow> bool" where
  "kmalloc_works K \<longleftrightarrow> (\<forall>h n. k_kmalloc K h n \<noteq> NULL)"

interpretation module_life: lifecycle
  "module_start K" "\<lambda>s. do { s \<leftarrow> module_stop s; Some (0, s) }"
  "\<lambda>s. chrdev_laws K \<and> kmalloc_works K \<and> unloaded s"
  "\<lambda>s. chrdev_laws K \<and> kmalloc_works K \<and> (\<exists>a v. loaded s a v)"
  for K :: kernel
proof unfold_locales
  fix s assume "chrdev_laws K \<and> kmalloc_works K \<and> unloaded s"
  with module_start_cases [of s K] obtain r s' where "module_start K s = Some (r, s')"
      "if r = 0 then \<exists>a v. loaded s' a v else unloaded s'" "chrdev_laws K" "kmalloc_works K"
    by (auto simp: kmalloc_works_def)
  then show "\<exists>r s'. module_start K s = Some (r, s') \<and>
      (if r = 0 then chrdev_laws K \<and> kmalloc_works K \<and> (\<exists>a v. loaded s' a v)
       else chrdev_laws K \<and> kmalloc_works K \<and> unloaded s')"
    by (intro exI [of _ r] exI [of _ s']) simp
next
  fix s assume "chrdev_laws K \<and> kmalloc_works K \<and> (\<exists>a v. loaded s a v)"
  then show "\<exists>s'. (do { s \<leftarrow> module_stop s; Some (0, s) }) = Some (0, s') \<and>
      chrdev_laws K \<and> kmalloc_works K \<and> unloaded s'"
    using module_stop_loaded by force
qed

section \<open>No memory for the object\<close>

text \<open>
  (C30) When there is no memory for the module's object, loading the module faults: the rollback
  calls \<open>io_dev_remove\<close>, which dereferences the object that does not exist.
\<close>

theorem module_start_no_memory:
  assumes "gs_vnet s = None" and "k_kmalloc K (ktrace s) (alloc_size (k_sizeof_vnet K)) = NULL"
  shows "module_start K s = None"
  using assms by (rule module_start_oops)

section \<open>Loading and unloading\<close>

text \<open>
  (C19) Loading an unloaded module ends in one of three ways: without memory for its object it
  faults; otherwise it returns 0 with the object configured, all four registrations held and the
  file not open, or it returns an error with everything undone, at whichever of the four
  registrations it failed.
\<close>

theorem load_outcome:
  assumes "unloaded s" and "chrdev_laws K"
  shows "if k_kmalloc K (ktrace s) (alloc_size (k_sizeof_vnet K)) = NULL then module_start K s = None
    else \<exists>r s'. module_start K s = Some (r, s') \<and>
      (if r = 0
       then \<exists>a v rs. gs_vnet s' = Some (a, v) \<and> io_opened (io_dev v) = 0 \<and>
         cfg_max_queue_len (cfg v) = 256 \<and> cfg_mac (cfg v) = [0x44, 0x45, 0x53, 0x54, 0x4f, 0x53] \<and>
         held_of s' = Some (rs @ [Block a]) \<and> length rs = 4
       else unloaded s')"
proof (cases "k_kmalloc K (ktrace s) (alloc_size (k_sizeof_vnet K)) = NULL")
  case True
  with assms(1) module_start_oops show ?thesis by (simp add: unloaded_def)
next
  case False
  from module_start_cases [OF assms(1) this assms(2)] False show ?thesis
    by (fastforce simp: loaded_def drv_ok_def inv_defs split: if_splits)
qed

text \<open>
  Any number of loads, each followed by an unload if it succeeded, leaves nothing behind.
\<close>

theorem load_cycles:
  assumes "unloaded s" and "chrdev_laws K" and "kmalloc_works K"
  shows "\<exists>s'. uses (module_start K) (\<lambda>s. do { s \<leftarrow> module_stop s; Some (0, s) }) n s = Some s' \<and> unloaded s'"
  using module_life.uses_idle [of K s n] assms by blast

end
