(* ===== verification/Driver.thy ===== *)
theory Driver
  imports Init
begin

text \<open>
  The driver as a whole: a state machine whose steps are the entry points the kernel calls
  (\<open>module_init\<close> and \<open>module_exit\<close> of \<open>init.c\<close>, \<open>io_fops\<close> of \<open>io_dev.c\<close> and
  \<open>kvnet_netdev_ops\<close> of \<open>net_dev.c\<close>), in any order in which the kernel may call them and with
  any answers the kernel may give. Every entry point runs to its end before the next one.
\<close>

section \<open>Entry points\<close>

datatype entry =
    Load
  | Unload
  | Open_file
  | Release_file
  | Read_file u32 "u64 list"
  | Write_file u32 "u64 list"
  | Poll_file
  | Ioctl_file u32 addr
  | Dev_open
  | Dev_stop
  | Dev_xmit addr sk_buff
  | Dev_stats
  | Dev_ioctl int

definition the_dev :: "drv \<Rightarrow> addr" where
  "the_dev s = (case gs_vnet s of None \<Rightarrow> NULL | Some (a, v) \<Rightarrow> vn_device (net_dev v))"

text \<open>
  The dispatch tables. A packet to transmit is handed over with the call. The result is
  the value the kernel gets, or \<open>None\<close> when the driver faults.
\<close>

fun dispatch :: "kernel \<Rightarrow> entry \<Rightarrow> drv \<Rightarrow> (int \<times> drv) option" where
  "dispatch K Load s = module_start K s"
| "dispatch K Unload s = do { s \<leftarrow> module_stop s; Some (0, s) }"
| "dispatch K Open_file s = io_dev_open K s"
| "dispatch K Release_file s = io_dev_close K s"
| "dispatch K (Read_file flags iv) s = io_dev_aio_read K flags iv s"
| "dispatch K (Write_file flags iv) s = io_dev_aio_write K flags iv s"
| "dispatch K Poll_file s = do { (mask, s) \<leftarrow> io_dev_poll s; Some (uint mask, s) }"
| "dispatch K (Ioctl_file cmd arg) s = io_dev_ioctl K cmd arg s"
| "dispatch K Dev_open s = net_dev_open (the_dev s) s"
| "dispatch K Dev_stop s = net_dev_close (the_dev s) s"
| "dispatch K (Dev_xmit p b) s = net_dev_send K p (the_dev s) (handed p b s)"
| "dispatch K Dev_stats s = do { (st, s) \<leftarrow> net_dev_get_stats (the_dev s) s; Some (0, s) }"
| "dispatch K (Dev_ioctl cmd) s = net_dev_ioctl (the_dev s) cmd s"

text \<open>
  When the kernel calls what: the module is loaded once and unloaded only while its device
  is not open; file operations other than \<open>open\<close> come with an open file; the
  interface's operations come while it exists, and it is opened only while it is down; a
  packet handed over is a linear buffer the driver does not own. A single read or
  write is at most 2 GB.
\<close>

definition file_is_open :: "drv \<Rightarrow> bool" where
  "file_is_open s \<longleftrightarrow> (case gs_vnet s of None \<Rightarrow> False | Some (a, v) \<Rightarrow> io_opened (io_dev v) \<noteq> 0)"

definition is_loaded :: "drv \<Rightarrow> bool" where
  "is_loaded s \<longleftrightarrow> gs_vnet s \<noteq> None"

fun may_call :: "kernel \<Rightarrow> drv \<Rightarrow> entry \<Rightarrow> bool" where
  "may_call K s Load \<longleftrightarrow> \<not> is_loaded s"
| "may_call K s Unload \<longleftrightarrow> is_loaded s \<and> \<not> file_is_open s"
| "may_call K s Open_file \<longleftrightarrow> is_loaded s"
| "may_call K s Release_file \<longleftrightarrow> file_is_open s"
| "may_call K s (Read_file flags iv) \<longleftrightarrow> file_is_open s \<and> unat (io_dev_iov_total iv) < 2 ^ 31"
| "may_call K s (Write_file flags iv) \<longleftrightarrow>
     file_is_open s \<and> unat (io_dev_iov_total iv) < 2 ^ 31 \<and> fresh_skbs K s"
| "may_call K s Poll_file \<longleftrightarrow> file_is_open s"
| "may_call K s (Ioctl_file cmd arg) \<longleftrightarrow> file_is_open s"
| "may_call K s Dev_open \<longleftrightarrow> the_dev s \<noteq> NULL \<and> \<not> up_of s"
| "may_call K s Dev_stop \<longleftrightarrow> the_dev s \<noteq> NULL \<and> up_of s"
| "may_call K s (Dev_xmit p b) \<longleftrightarrow> the_dev s \<noteq> NULL \<and> p \<noteq> NULL \<and> skbs s p = None \<and> skb_linear b"
| "may_call K s Dev_stats \<longleftrightarrow> the_dev s \<noteq> NULL"
| "may_call K s (Dev_ioctl cmd) \<longleftrightarrow> the_dev s \<noteq> NULL"

text \<open>
  The two entries that fault, which no law of the kernel rules out: loading without memory for the
  module's object (\<open>module_start_no_memory\<close>), and a write, not refused for its flags or its length,
  of a packet whose length wraps around (\<open>write_wrap_panics\<close>).
\<close>

definition refused :: "u32 \<Rightarrow> u64 list \<Rightarrow> bool" where
  "refused flags iv \<longleftrightarrow> flags AND O_NONBLOCK = 0 \<or> sint (io_dev_iov_total iv) < 0"

fun faulting :: "kernel \<Rightarrow> entry \<Rightarrow> drv \<Rightarrow> bool" where
  "faulting K Load s \<longleftrightarrow> k_kmalloc K (ktrace s) (alloc_size (k_sizeof_vnet K)) = NULL"
| "faulting K (Write_file flags iv) s \<longleftrightarrow> \<not> refused flags iv \<and> write_overrun K (io_dev_iov_total iv) s"
| "faulting K e s \<longleftrightarrow> False"

section \<open>Steps and reachable states\<close>

inductive dstep :: "kernel \<Rightarrow> drv \<Rightarrow> entry \<Rightarrow> int \<Rightarrow> drv \<Rightarrow> bool" for K where
  call: "may_call K s e \<Longrightarrow> dispatch K e s = Some (r, s') \<Longrightarrow> dstep K s e r s'"

inductive_cases dstepE: "dstep K s e r s'"

inductive_simps dstep_load: "dstep K s Load r s'"
inductive_simps dstep_open: "dstep K s Open_file r s'"

inductive reachable :: "kernel \<Rightarrow> drv \<Rightarrow> bool" for K where
  init: "unloaded s \<Longrightarrow> reachable K s"
| step: "reachable K s \<Longrightarrow> dstep K s e r s' \<Longrightarrow> reachable K s'"

text \<open>The laws of the kernel that the driver relies on.\<close>

definition kernel_laws :: "kernel \<Rightarrow> bool" where
  "kernel_laws K \<longleftrightarrow> netdev_laws K \<and> iovec_laws K \<and> skb_laws K \<and> chrdev_laws K"

section \<open>The invariant of the whole driver\<close>

definition module_cfg :: vnet_cfg where
  "module_cfg = \<lparr>cfg_mac = [0x44, 0x45, 0x53, 0x54, 0x4f, 0x53], cfg_max_queue_len = 256\<rparr>"

definition running :: "drv \<Rightarrow> addr \<Rightarrow> vnet \<Rightarrow> addr list \<Rightarrow> bool" where
  "running s a v xs \<longleftrightarrow> drv_ok s a v xs \<and> cfg v = module_cfg \<and>
     (\<exists>rs. length rs = 4 \<and> io_holds rs (io_dev v) \<and> held_of s = Some (rs @ [Block a]))"

definition driver_inv :: "drv \<Rightarrow> bool" where
  "driver_inv s \<longleftrightarrow> unloaded s \<or> (\<exists>a v xs. running s a v xs)"

lemma running_step:
  assumes "running s a v xs" and "drv_ok s' a v' xs'" and "io_same v v'" and "held_of s' = held_of s"
  shows "running s' a v' xs'"
  using assms by (auto simp: running_def io_same_holds) (auto simp: io_same_def)

lemma running_facts:
  assumes "running s a v xs"
  shows "drv_inv s a v xs" "gs_vnet s = Some (a, v)" "file_wf v" "the_dev s = vn_device (net_dev v)"
    "file_is_open s = (io_opened (io_dev v) \<noteq> 0)" "is_loaded s"
    "(io_opened (io_dev v) \<noteq> 0) = (vn_device (net_dev v) \<noteq> NULL)"
    "vn_device (net_dev v) \<noteq> NULL \<Longrightarrow> vn_added (net_dev v) \<noteq> 0"
    "up_of s = (q_enabled (vn_queue (net_dev v)) \<noteq> 0)"
  using assms
  by (auto simp: running_def drv_ok_def inv_defs the_dev_def file_is_open_def is_loaded_def file_wf_def)

lemma loaded_running: "loaded s a v \<Longrightarrow> running s a v []"
  by (auto simp: loaded_def running_def module_cfg_def)

lemma running_loaded: "running s a v xs \<Longrightarrow> io_opened (io_dev v) = 0 \<Longrightarrow> loaded s a v"
  using drv_ok_closed [of s a v xs] by (auto simp: loaded_def running_def module_cfg_def)

section \<open>Frames of the steps\<close>

lemma file_wf_only_stats: "only_stats v w \<Longrightarrow> file_wf v \<Longrightarrow> file_wf w \<and> io_same v w"
  by (auto simp: only_stats_def file_wf_def io_same_def)

lemma file_wf_keeps: "keeps s v s' w \<Longrightarrow> file_wf v \<Longrightarrow> file_wf w \<and> io_same v w \<and> held_of s' = held_of s"
  by (auto simp: keeps_def file_wf_def io_same_def)

text \<open>Reading the invariant of the whole driver off its state.\<close>

lemma may_call_unloaded: "unloaded s \<Longrightarrow> may_call K s e \<Longrightarrow> e = Load"
  by (cases e) (auto simp: unloaded_def is_loaded_def file_is_open_def the_dev_def)

lemma driver_inv_loaded:
  assumes "driver_inv s" and g: "gs_vnet s = Some (a, v)"
  shows "\<exists>xs. running s a v xs"
proof -
  from assms obtain b w xs where run: "running s b w xs" by (auto simp: driver_inv_def unloaded_def)
  with running_facts(2) [OF run] g show ?thesis by auto
qed

lemma driver_inv_unloaded: "driver_inv s \<Longrightarrow> gs_vnet s = None \<Longrightarrow> unloaded s"
  using running_facts(2) by (fastforce simp: driver_inv_def)

end
