(* ===== verification/Driver_Spec.thy ===== *)
theory Driver_Spec
  imports Driver
begin

text \<open>
  What the driver promises, as a small machine, and the proof that the driver implements it.
  The machine knows whether the module is loaded, the file open and its read cancelled,
  the interface up, and the packets waiting, as a list of at most 256; each entry point is
  a relation between two such states and the value returned. \<open>refines\<close> relates a state of
  the driver, with its linked list, lock and registrations, to a state of the machine.
\<close>

section \<open>The abstract machine\<close>

record spec =
  sp_loaded :: bool
  sp_open :: bool
  sp_cancelled :: bool
  sp_up :: bool
  sp_queue :: "sk_buff list"

definition spec_off :: spec where
  "spec_off = \<lparr>sp_loaded = False, sp_open = False, sp_cancelled = False, sp_up = False, sp_queue = []\<rparr>"

definition spec_mask :: "spec \<Rightarrow> u32" where
  "spec_mask t =
     (if sp_cancelled t then POLLPRI OR POLLERR
      else if sp_queue t = [] then POLLOUT OR POLLWRNORM
      else (POLLOUT OR POLLWRNORM) OR (POLLIN OR POLLRDNORM))"

definition write_result :: "u64 \<Rightarrow> int \<Rightarrow> bool" where
  "write_result len r \<longleftrightarrow> r \<in> {- EINVAL, - ENOMEM, - EFAULT} \<or> (12 \<le> r \<and> r \<le> int (unat len))"

text \<open>
  One step. Loading and opening succeed or change nothing; opening twice is refused; a read
  takes packets off the front; a packet to transmit joins the end if the interface is up
  and there is room, and is dropped otherwise; stopping the interface empties the queue.
\<close>

fun spec_step :: "entry \<Rightarrow> spec \<Rightarrow> int \<Rightarrow> spec \<Rightarrow> bool" where
  "spec_step Load t r t' \<longleftrightarrow> (if r = 0 then t' = spec_off\<lparr>sp_loaded := True\<rparr> else t' = t)"
| "spec_step Unload t r t' \<longleftrightarrow> r = 0 \<and> t' = spec_off"
| "spec_step Open_file t r t' \<longleftrightarrow>
     (if sp_open t then r = - EACCES \<and> t' = t
      else if r = 0 then t' = t\<lparr>sp_open := True\<rparr> else t' = t)"
| "spec_step Release_file t r t' \<longleftrightarrow>
     r = 0 \<and> t' = t\<lparr>sp_open := False, sp_cancelled := False, sp_up := False, sp_queue := []\<rparr>"
| "spec_step (Read_file flags iv) t r t' \<longleftrightarrow>
     (if refused flags iv then r = - EINVAL \<and> t' = t
      else \<exists>k. read_result (io_dev_iov_total iv) (sp_queue t) r k \<and>
             t' = t\<lparr>sp_queue := drop k (sp_queue t)\<rparr>)"
| "spec_step (Write_file flags iv) t r t' \<longleftrightarrow>
     (if refused flags iv then r = - EINVAL else write_result (io_dev_iov_total iv) r) \<and> t' = t"
| "spec_step Poll_file t r t' \<longleftrightarrow> r = uint (spec_mask t) \<and> t' = t"
| "spec_step (Ioctl_file cmd arg) t r t' \<longleftrightarrow>
     (if cmd = KVNET_IOCTL_CANCEL_PENDING_READ then r = 0 \<and> t' = t\<lparr>sp_cancelled := True\<rparr>
      else if cmd = KVNET_IOCTL_GET_INFO then r \<in> {0, - EFAULT} \<and> t' = t
      else r = - EINVAL \<and> t' = t)"
| "spec_step Dev_open t r t' \<longleftrightarrow> r = 0 \<and> t' = t\<lparr>sp_up := True\<rparr>"
| "spec_step Dev_stop t r t' \<longleftrightarrow> r = 0 \<and> t' = t\<lparr>sp_up := False, sp_queue := []\<rparr>"
| "spec_step (Dev_xmit p b) t r t' \<longleftrightarrow>
     r = 0 \<and> (if sp_up t \<and> length (sp_queue t) < 256
       then t' = t\<lparr>sp_queue := sp_queue t @ [payload b]\<rparr> else t' = t)"
| "spec_step Dev_stats t r t' \<longleftrightarrow> r = 0 \<and> t' = t"
| "spec_step (Dev_ioctl cmd) t r t' \<longleftrightarrow> r = - ENOSYS \<and> t' = t"

section \<open>The relation\<close>

text \<open>The packets in the queue, without the links.\<close>

definition frames :: "drv \<Rightarrow> addr list \<Rightarrow> sk_buff list" where
  "frames s xs = map (\<lambda>x. the (pool_of s x)) xs"

lemma frames_cong: "(\<And>x. x \<in> set xs \<Longrightarrow> pool_of s x = pool_of t x) \<Longrightarrow> frames s xs = frames t xs"
  by (simp add: frames_def)

lemma frames_skbs: "skbs s = skbs t \<Longrightarrow> frames s xs = frames t xs"
  by (simp add: frames_def pool_of_def)

lemma length_frames [simp]: "length (frames s xs) = length xs"
  by (simp add: frames_def)

lemma frames_Nil [simp]: "frames s [] = []" "(frames s xs = []) = (xs = [])"
  by (simp_all add: frames_def)

definition view :: "drv \<Rightarrow> vnet \<Rightarrow> addr list \<Rightarrow> spec" where
  "view s v xs = \<lparr>sp_loaded = True, sp_open = (io_opened (io_dev v) \<noteq> 0),
     sp_cancelled = (io_opened (io_dev v) \<noteq> 0 \<and> io_canceled (io_dev v) \<noteq> 0),
     sp_up = up_of s, sp_queue = frames s xs\<rparr>"

definition refines :: "drv \<Rightarrow> spec \<Rightarrow> bool" where
  "refines s t \<longleftrightarrow> (unloaded s \<and> t = spec_off) \<or> (\<exists>a v xs. running s a v xs \<and> t = view s v xs)"

lemma refines_inv: "refines s t \<Longrightarrow> driver_inv s"
  by (auto simp: refines_def driver_inv_def)

section \<open>The simulation, entry point by entry point\<close>

text \<open>
  The call returns and the machine can do the same, unless it is one of those that fault: these do.
\<close>

definition simulates :: "kernel \<Rightarrow> entry \<Rightarrow> drv \<Rightarrow> spec \<Rightarrow> bool" where
  "simulates K e s t \<longleftrightarrow>
     (if faulting K e s then dispatch K e s = None
      else \<exists>r s' t'. dispatch K e s = Some (r, s') \<and> spec_step e t r t' \<and> refines s' t')"

lemma simulatesI:
  assumes "running s a v xs" and "dispatch K e s = Some (r, s')" and "drv_inv s' a v' xs'"
    and "file_wf v' \<and> io_same v v'" and "held_of s' = held_of s"
    and "spec_step e (view s v xs) r (view s' v' xs')" and "\<not> faulting K e s"
  shows "simulates K e s (view s v xs)"
  using assms running_step [OF assms(1), of s' v' xs']
  by (auto simp: simulates_def refines_def drv_ok_def)

text \<open>A step after which the file, the interface and the queued packets are as before.\<close>

lemma simulates_sameI:
  assumes "running s a v xs" and "dispatch K e s = Some (r, s')" and "drv_inv s' a v' xs"
    and "file_wf v' \<and> io_same v v'" and "held_of s' = held_of s"
    and "io_dev v' = io_dev v" "up_of s' = up_of s" "pool_of s' = pool_of s"
    and "spec_step e (view s v xs) r (view s v xs)" and "\<not> faulting K e s"
  shows "simulates K e s (view s v xs)"
proof -
  have "view s' v' xs = view s v xs" using assms(6-8) by (simp add: view_def frames_def)
  with simulatesI [OF assms(1-5)] assms(9,10) show ?thesis by simp
qed

lemma same_enabled_up:
  "drv_inv s a v xs \<Longrightarrow> drv_inv s' a v' xs' \<Longrightarrow>
   q_enabled (vn_queue (net_dev v')) = q_enabled (vn_queue (net_dev v)) \<Longrightarrow> up_of s' = up_of s"
  by (simp add: inv_defs)

lemma pool_of_skbs_eq: "skbs s' = skbs s \<Longrightarrow> pool_of s' = pool_of s"
  by (simp add: pool_of_def fun_eq_iff)

lemma simulates_read:
  assumes run: "running s a v xs" and K: "kernel_laws K" and en: "may_call K s (Read_file flags iv)"
  shows "simulates K (Read_file flags iv) s (view s v xs)"
proof (cases "refused flags iv")
  case True
  then have "dispatch K (Read_file flags iv) s = Some (- EINVAL, s)"
    by (auto simp: io_dev_aio_read_def Let_def refused_def)
  then show ?thesis
    by (rule simulates_sameI [OF run _ running_facts(1) [OF run]])
      (use running_facts [OF run] True in auto)
next
  case False
  note F = running_facts [OF run]
  have dev: "vn_device (net_dev v) \<noteq> NULL" using en F by auto
  from io_read_safe [OF F(1) dev, of K "io_dev_iov_total iv"] K en obtain ret s' w k where
    r: "io_read_to_iovec K (io_dev_iov_total iv) s = Some (ret, s')" "drv_inv s' a w (drop k xs)"
      "keeps s v s' w" "pool_of s' = (pool_of s) |` (- set (take k xs))" "up_of s' = up_of s"
      "read_result (io_dev_iov_total iv) xs ret k" by (auto simp: kernel_laws_def)
  from r(1) False have d: "dispatch K (Read_file flags iv) s = Some (ret, s')"
    by (simp add: io_dev_aio_read_def Let_def refused_def)
  have "distinct xs" using F(1) by (auto simp: inv_defs queue_rep_def)
  then have "x \<notin> set (take k xs)" if "x \<in> set (drop k xs)" for x
    using that set_take_disj_set_drop_if_distinct [of xs k k] by blast
  then have "frames s' (drop k xs) = frames s (drop k xs)"
    by (intro frames_cong) (simp add: r(4))
  then have "view s' w (drop k xs) = (view s v xs)\<lparr>sp_queue := drop k (sp_queue (view s v xs))\<rparr>"
    using r(3,5) by (simp add: view_def keeps_def frames_def drop_map)
  moreover have "read_result (io_dev_iov_total iv) (sp_queue (view s v xs)) ret k"
    using r(6) by (simp add: read_result_def view_def)
  ultimately have "spec_step (Read_file flags iv) (view s v xs) ret (view s' w (drop k xs))"
    using False by auto
  then show ?thesis by (rule simulatesI [OF run d r(2), rotated 2]) (use file_wf_keeps [OF r(3) F(3)] in auto)
qed

lemma simulates_write:
  assumes run: "running s a v xs" and K: "kernel_laws K" and en: "may_call K s (Write_file flags iv)"
  shows "simulates K (Write_file flags iv) s (view s v xs)"
proof (cases "refused flags iv")
  case True
  then have "dispatch K (Write_file flags iv) s = Some (- EINVAL, s)"
    by (auto simp: io_dev_aio_write_def Let_def refused_def)
  then show ?thesis
    by (rule simulates_sameI [OF run _ running_facts(1) [OF run]])
      (use running_facts [OF run] True in auto)
next
  case False
  note F = running_facts [OF run]
  have dev: "vn_device (net_dev v) \<noteq> NULL" using en F by auto
  note W = io_write_safe [OF F(1) dev, of K "io_dev_iov_total iv"]
  show ?thesis
  proof (cases "write_overrun K (io_dev_iov_total iv) s")
    case True
    with W K en False show ?thesis
      by (simp add: simulates_def kernel_laws_def io_dev_aio_write_def Let_def refused_def)
  next
    case ok: False
    with W K en obtain ret s' w where
      r: "io_write_from_iovec K (io_dev_iov_total iv) s = Some (ret, s')" "drv_inv s' a w xs"
        "only_stats v w" "skbs s' = skbs s" "held_of s' = held_of s"
        "write_result (io_dev_iov_total iv) ret" by (auto simp: kernel_laws_def write_result_def)
    from r(1) False have d: "dispatch K (Write_file flags iv) s = Some (ret, s')"
      by (simp add: io_dev_aio_write_def Let_def refused_def)
    show ?thesis
      by (rule simulates_sameI [OF run d r(2) _ r(5)])
        (use file_wf_only_stats [OF r(3) F(3)] only_stats_same [OF r(3)] r False ok
          same_enabled_up [OF F(1) r(2)] in \<open>auto intro: pool_of_skbs_eq\<close>)
  qed
qed

lemma simulates_open:
  assumes run: "running s a v xs" and K: "kernel_laws K"
  shows "simulates K Open_file s (view s v xs)"
proof (cases "io_opened (io_dev v) = 0")
  case False
  with running_facts [OF run] have d: "dispatch K Open_file s = Some (- EACCES, s)"
    by (simp add: io_dev_open_busy)
  have "sp_open (view s v xs)" using False by (simp add: view_def)
  then show ?thesis
    by (intro simulates_sameI [OF run d running_facts(1) [OF run]]) (use running_facts [OF run] in auto)
next
  case True
  from run have ok: "drv_ok s a v xs" by (simp add: running_def)
  from io_dev_open_ok [OF ok True, of K] K obtain r s' v' where
    r: "io_dev_open K s = Some (r, s')" "drv_inv s' a v' []" "file_wf v'" "io_same v v'"
      "held_of s' = held_of s" "q_enabled (vn_queue (net_dev v')) = 0"
      "if r = 0 then io_opened (io_dev v') = 1 \<and> io_canceled (io_dev v') = 0 else io_dev v' = io_dev v"
    by (auto simp: kernel_laws_def drv_ok_def)
  from drv_ok_closed [OF ok True] have xs: "xs = []" "vn_device (net_dev v) = NULL" by auto
  with running_facts(1) [OF run] have "\<not> up_of s" by (auto simp: inv_defs dev_wf_def)
  moreover have "\<not> up_of s'" using r(2,6) by (simp add: inv_defs)
  ultimately have "spec_step Open_file (view s v xs) r (view s' v' [])"
    using r(7) True xs(1) by (auto simp: view_def)
  then show ?thesis by (rule simulatesI [OF run _ r(2) _ r(5), rotated 2]) (use r in auto)
qed

lemma simulates_release:
  assumes run: "running s a v xs" and K: "kernel_laws K"
  shows "simulates K Release_file s (view s v xs)"
proof -
  from run have ok: "drv_ok s a v xs" by (simp add: running_def)
  from io_dev_close_ok [OF ok, of K] K obtain s' v' where
    r: "io_dev_close K s = Some (0, s')" "drv_inv s' a v' []" "file_wf v'" "io_same v v'"
      "held_of s' = held_of s" "io_opened (io_dev v') = 0"
    by (auto simp: kernel_laws_def drv_ok_def)
  then have "vn_device (net_dev v') = NULL" by (simp add: file_wf_def)
  with r(2) have "\<not> up_of s'" by (auto simp: inv_defs dev_wf_def)
  with r(6) have "spec_step Release_file (view s v xs) 0 (view s' v' [])" by (simp add: view_def)
  then show ?thesis by (rule simulatesI [OF run _ r(2) _ r(5), rotated 2]) (use r in auto)
qed

lemma simulates_poll:
  assumes run: "running s a v xs" and en: "may_call K s Poll_file"
  shows "simulates K Poll_file s (view s v xs)"
proof -
  note F = running_facts [OF run]
  have "io_opened (io_dev v) \<noteq> 0" using en F by simp
  then have "spec_mask (view s v xs) =
      (if io_canceled (io_dev v) \<noteq> 0 then POLLPRI OR POLLERR
       else if xs = [] then POLLOUT OR POLLWRNORM
       else (POLLOUT OR POLLWRNORM) OR (POLLIN OR POLLRDNORM))"
    by (simp add: spec_mask_def view_def)
  from io_dev_poll_inv [OF F(1), folded this] obtain s' where
    m: "io_dev_poll s = Some (spec_mask (view s v xs), s')" "drv_inv s' a v xs" "same_but_trace s s'"
      "held_of s' = held_of s" by blast
  have "dispatch K Poll_file s = Some (uint (spec_mask (view s v xs)), s')" using m(1) by simp
  then show ?thesis
    by (rule simulates_sameI [OF run _ m(2) _ m(4)])
      (use F m(3) in \<open>auto simp: same_but_trace_def intro: pool_of_skbs_eq\<close>)
qed

lemma simulates_ioctl:
  assumes run: "running s a v xs" and en: "may_call K s (Ioctl_file cmd arg)"
  shows "simulates K (Ioctl_file cmd arg) s (view s v xs)"
proof -
  note F = running_facts [OF run]
  let ?v' = "if cmd = KVNET_IOCTL_CANCEL_PENDING_READ then cancel_vnet v else v"
  from io_dev_ioctl_inv [OF F(1), of K cmd arg] obtain r s' where
    r: "io_dev_ioctl K cmd arg s = Some (r, s')" "drv_inv s' a ?v' xs" "skbs s' = skbs s"
      "held_of s' = held_of s" "ioctl_result cmd r" by blast
  have "up_of s' = up_of s"
    by (rule same_enabled_up [OF F(1) r(2)]) (simp add: cancel_vnet_def)
  moreover have "io_opened (io_dev v) \<noteq> 0" using en F by simp
  ultimately have "view s' ?v' xs = (if cmd = KVNET_IOCTL_CANCEL_PENDING_READ
      then (view s v xs)\<lparr>sp_cancelled := True\<rparr> else view s v xs)"
    using frames_skbs [OF r(3)] by (simp add: view_def cancel_vnet_def)
  then have "spec_step (Ioctl_file cmd arg) (view s v xs) r (view s' ?v' xs)"
    using r(5) by (auto simp: ioctl_result_def split: if_splits)
  then show ?thesis
    by (rule simulatesI [OF run _ r(2) _ r(4), rotated 2])
      (use F(3) r(1) in \<open>auto simp: cancel_vnet_def file_wf_def io_same_def\<close>)
qed

lemma simulates_dev_open:
  assumes run: "running s a v xs" and dev: "vn_device (net_dev v) \<noteq> NULL"
  shows "simulates K Dev_open s (view s v xs)"
proof -
  note F = running_facts [OF run]
  from net_dev_open_inv [OF F(1) F(8) [OF dev], of "the_dev s"] obtain s1 v1 where
    o: "net_dev_open (the_dev s) s = Some (0, s1)" "drv_inv s1 a v1 xs"
      "v1 = net_dev_update (vn_connected_update (\<lambda>_. 1)) (net_dev_update (vn_queue_update (q_enabled_update (\<lambda>_. 1))) v)"
      "skbs s1 = skbs s" "held_of s1 = held_of s" by blast
  have "up_of s1" using o(2,3) by (simp add: inv_defs)
  then have "spec_step Dev_open (view s v xs) 0 (view s1 v1 xs)"
    using frames_skbs [OF o(4)] o(3) by (simp add: view_def)
  then show ?thesis
    by (rule simulatesI [OF run _ o(2) _ o(5), rotated 2])
      (use o(1,3) F(3) in \<open>auto simp: file_wf_def io_same_def\<close>)
qed

lemma simulates_dev_stop:
  assumes run: "running s a v xs"
  shows "simulates K Dev_stop s (view s v xs)"
proof -
  note F = running_facts [OF run]
  from F(1) have "drv_core s a v xs" by (simp add: drv_inv_def)
  from net_dev_close_core [OF this, of "the_dev s"] obtain s2 q where
    c: "net_dev_close (the_dev s) s = Some (0, s2)" "drv_inv s2 a (closed_vnet q (length xs) v) []"
      "q_enabled q = 0" "held_of s2 = held_of s" by blast
  have "\<not> up_of s2" using c(2,3) by (simp add: inv_defs closed_vnet_def)
  then have "spec_step Dev_stop (view s v xs) 0 (view s2 (closed_vnet q (length xs) v) [])"
    by (simp add: view_def closed_vnet_def)
  then show ?thesis
    by (rule simulatesI [OF run _ c(2) _ c(4), rotated 2])
      (use c(1) F(3) in \<open>auto simp: file_wf_def io_same_def closed_vnet_def\<close>)
qed

lemma simulates_dev_stats:
  assumes run: "running s a v xs" and dev: "vn_device (net_dev v) \<noteq> NULL"
  shows "simulates K Dev_stats s (view s v xs)" "simulates K (Dev_ioctl cmd) s (view s v xs)"
proof -
  note F = running_facts [OF run]
  show "simulates K (Dev_ioctl cmd) s (view s v xs)"
    by (rule simulates_sameI [OF run _ F(1)]) (use F(3) in \<open>auto simp: net_dev_ioctl_def\<close>)
  from F(1) dev obtain d where d: "netdevs s = [the_dev s \<mapsto> d]" "dev_conf (cfg v) d" "the_dev s \<noteq> NULL"
    unfolding F(4) by (auto simp: inv_defs dev_wf_def)
  let ?s3 = "s\<lparr>netdevs := [the_dev s \<mapsto> d\<lparr>nd_priv := stats_to_kernel (vn_stats (net_dev v))\<rparr>]\<rparr>"
  have "dev_wf ?s3 v"
    using d dev unfolding F(4)
    by (intro dev_wfI [where d = "d\<lparr>nd_priv := stats_to_kernel (vn_stats (net_dev v))\<rparr>"])
      (simp_all add: dev_conf_def)
  then have i3: "drv_inv ?s3 a v xs" using F(1) by (simp add: inv_defs)
  show "simulates K Dev_stats s (view s v xs)"
    by (rule simulates_sameI [OF run _ i3])
      (use F(2,3) d in \<open>auto simp: net_dev_get_stats_def netdev_update_def netdev_at_def Let_def\<close>)
qed

lemma running_accepts:
  assumes run: "running s a v xs"
  shows "send_accepts v xs = (sp_up (view s v xs) \<and> length (sp_queue (view s v xs)) < 256)"
proof -
  have "cfg v = module_cfg" using run by (simp add: running_def)
  then show ?thesis
    using running_facts(9) [OF run] by (simp add: send_accepts_def view_def module_cfg_def)
qed

lemma simulates_xmit:
  assumes run: "running s a v xs" and en: "may_call K s (Dev_xmit p b)"
  shows "simulates K (Dev_xmit p b) s (view s v xs)"
proof -
  note F = running_facts [OF run]
  from en have dev: "vn_device (net_dev v) \<noteq> NULL" and p: "skbs s p = None" "p \<noteq> NULL" "skb_linear b"
    unfolding F(4) [symmetric] by simp_all
  show ?thesis
  proof (cases "send_accepts v xs")
    case True
    from send_accepting [OF p(3) F(1) dev p(1,2) True, of K] obtain s' v' q where
      t: "net_dev_send K p (the_dev s) (handed p b s) = Some (0, s')" "drv_inv s' a v' (xs @ [p])"
        "v' = net_dev_update (vn_queue_update (\<lambda>_. q)) v"
        "q_enabled q = q_enabled (vn_queue (net_dev v))"
        "pool_of s' = (pool_of s)(p \<mapsto> payload b)" "held_of s' = held_of s"
      unfolding F(4) by blast
    have "p \<notin> set xs" using p(1) F(1) by (auto simp: inv_defs)
    then have "frames s' (xs @ [p]) = frames s xs @ [payload b]"
      by (auto simp: frames_def t(5))
    moreover have "up_of s' = up_of s" by (rule same_enabled_up [OF F(1) t(2)]) (simp add: t(3,4))
    ultimately have "spec_step (Dev_xmit p b) (view s v xs) 0 (view s' v' (xs @ [p]))"
      using True running_accepts [OF run] t(3) by (simp add: view_def)
    then show ?thesis
      by (rule simulatesI [OF run _ t(2) _ t(6), rotated 2])
        (use t(1,3) F(3) in \<open>auto simp: file_wf_def io_same_def\<close>)
  next
    case False
    let ?v' = "net_dev_update (vn_stats_update (tx_dropped_update (\<lambda>n. n + 1))) v"
    from send_dropping [OF F(1) dev p(1,2) False, of K b] obtain s' where
      t: "net_dev_send K p (the_dev s) (handed p b s) = Some (0, s')" "drv_inv s' a ?v' xs"
        "pool_of s' = pool_of s" "held_of s' = held_of s"
      unfolding F(4) by blast
    have up: "up_of s' = up_of s" by (rule same_enabled_up [OF F(1) t(2)]) simp
    show ?thesis
      by (rule simulates_sameI [OF run _ t(2) _ t(4) _ up t(3)])
        (use t(1) F(3) False running_accepts [OF run] in \<open>auto simp: file_wf_def io_same_def\<close>)
  qed
qed

lemma simulates_load:
  assumes "unloaded s" and "kernel_laws K" and "may_call K s Load"
  shows "simulates K Load s spec_off"
proof -
  show ?thesis
  proof (cases "faulting K Load s")
    case True
    with assms(1) module_start_oops show ?thesis by (simp add: simulates_def unloaded_def)
  next
    case ok: False
    with module_start_cases [of s K] assms obtain r s' where
      r: "module_start K s = Some (r, s')" "if r = 0 then \<exists>a v. loaded s' a v else unloaded s'"
      by (auto simp: kernel_laws_def)
    have "refines s' (if r = 0 then spec_off\<lparr>sp_loaded := True\<rparr> else spec_off)"
    proof (cases "r = 0")
      case True
      with r(2) obtain a v where l: "loaded s' a v" by auto
      then have "\<not> up_of s'" "io_opened (io_dev v) = 0"
        by (auto simp: loaded_def drv_ok_def file_wf_def inv_defs dev_wf_def)
      then have "view s' v [] = spec_off\<lparr>sp_loaded := True\<rparr>" by (simp add: view_def spec_off_def)
      with True loaded_running [OF l] show ?thesis unfolding refines_def by metis
    qed (use r(2) in \<open>simp add: refines_def\<close>)
    with r(1) ok show ?thesis by (auto simp: simulates_def split: if_splits)
  qed
qed

lemma simulates_unload:
  assumes run: "running s a v xs" and "\<not> file_is_open s"
  shows "simulates K Unload s (view s v xs)"
proof -
  from assms have "loaded s a v" by (intro running_loaded) (auto dest: running_facts)
  from module_stop_loaded [OF this] show ?thesis by (auto simp: simulates_def refines_def)
qed

section \<open>The driver implements the machine\<close>

lemma step_simulates:
  assumes ref: "refines s t" and K: "kernel_laws K" and en: "may_call K s e"
  shows "simulates K e s t"
proof (cases "unloaded s")
  case True
  with ref running_facts(2) have "t = spec_off" by (fastforce simp: refines_def unloaded_def)
  with may_call_unloaded [OF True en] simulates_load [OF True K] en show ?thesis by blast
next
  case False
  with ref obtain a v xs where run: "running s a v xs" and t: "t = view s v xs" by (auto simp: refines_def)
  note F = running_facts [OF run]
  show ?thesis unfolding t
  proof (cases e)
    case Load
    with en F show "simulates K e s (view s v xs)" by simp
  next
    case Unload
    with en simulates_unload [OF run] show "simulates K e s (view s v xs)" by simp
  next
    case Open_file
    with simulates_open [OF run K] show "simulates K e s (view s v xs)" by simp
  next
    case Release_file
    with simulates_release [OF run K] show "simulates K e s (view s v xs)" by simp
  next
    case (Read_file flags iv)
    with simulates_read [OF run K] en show "simulates K e s (view s v xs)" by blast
  next
    case (Write_file flags iv)
    with simulates_write [OF run K] en show "simulates K e s (view s v xs)" by blast
  next
    case Poll_file
    with simulates_poll [OF run] en show "simulates K e s (view s v xs)" by blast
  next
    case (Ioctl_file cmd arg)
    with simulates_ioctl [OF run] en show "simulates K e s (view s v xs)" by blast
  next
    case Dev_open
    with en simulates_dev_open [OF run] F(4) show "simulates K e s (view s v xs)" by simp
  next
    case Dev_stop
    with simulates_dev_stop [OF run] show "simulates K e s (view s v xs)" by simp
  next
    case (Dev_xmit p b)
    with simulates_xmit [OF run] en show "simulates K e s (view s v xs)" by blast
  next
    case Dev_stats
    with en simulates_dev_stats [OF run] F(4) show "simulates K e s (view s v xs)" by simp
  next
    case (Dev_ioctl cmd)
    with en simulates_dev_stats [OF run] F(4) show "simulates K e s (view s v xs)" by simp
  qed
qed

lemma step_refines:
  assumes "refines s t" and "kernel_laws K" and "dstep K s e r s'"
  shows "\<exists>t'. spec_step e t r t' \<and> refines s' t'"
proof -
  from assms(3) have "may_call K s e" "dispatch K e s = Some (r, s')" by (auto elim: dstepE)
  with step_simulates [OF assms(1,2), of e] show ?thesis by (auto simp: simulates_def split: if_splits)
qed

lemma reachable_refines:
  assumes "reachable K s" and "kernel_laws K"
  shows "\<exists>t. refines s t"
  using assms
proof (induction rule: reachable.induct)
  case (init s)
  then show ?case by (auto simp: refines_def)
next
  case (step s e r s')
  then show ?case using step_refines by blast
qed

lemma reachable_inv: "reachable K s \<Longrightarrow> kernel_laws K \<Longrightarrow> driver_inv s"
  using reachable_refines refines_inv by blast

text \<open>Sequences of steps, with the calls and what they returned.\<close>

fun dsteps :: "kernel \<Rightarrow> drv \<Rightarrow> (entry \<times> int) list \<Rightarrow> drv \<Rightarrow> bool" where
  "dsteps K s [] s' \<longleftrightarrow> s' = s"
| "dsteps K s ((e, r) # es) s' \<longleftrightarrow> (\<exists>u. dstep K s e r u \<and> dsteps K u es s')"

fun spec_steps :: "spec \<Rightarrow> (entry \<times> int) list \<Rightarrow> spec \<Rightarrow> bool" where
  "spec_steps t [] t' \<longleftrightarrow> t' = t"
| "spec_steps t ((e, r) # es) t' \<longleftrightarrow> (\<exists>u. spec_step e t r u \<and> spec_steps u es t')"

lemma steps_refine:
  "refines s t \<Longrightarrow> kernel_laws K \<Longrightarrow> dsteps K s es s' \<Longrightarrow> \<exists>t'. spec_steps t es t' \<and> refines s' t'"
proof (induction es arbitrary: s t)
  case (Cons c es)
  then show ?case by (cases c) (fastforce dest: step_refines)
qed simp

text \<open>
  Stopping the interface frees every queued packet, counts each as dropped, and leaves
  the queue empty, disabled and well formed; packets sent afterwards are dropped too.
\<close>

theorem stop_flushes:
  assumes run: "running s a v xs"
  shows "\<exists>s' w. dispatch K Dev_stop s = Some (0, s') \<and> running s' a w [] \<and> skbs s' = Map.empty \<and>
    tx_dropped (vn_stats (net_dev w)) = tx_dropped (vn_stats (net_dev v)) + of_nat (length xs) \<and>
    vn_connected (net_dev w) = 0 \<and> \<not> up_of s' \<and> \<not> send_accepts w []"
proof -
  note F = running_facts [OF run]
  from F(1) have "drv_core s a v xs" by (simp add: drv_inv_def)
  from net_dev_close_core [OF this, of "the_dev s"] obtain s2 q where
    c: "net_dev_close (the_dev s) s = Some (0, s2)" "drv_inv s2 a (closed_vnet q (length xs) v) []"
      "q_enabled q = 0" "skbs s2 = Map.empty" "held_of s2 = held_of s" by blast
  have "drv_ok s2 a (closed_vnet q (length xs) v) []"
    using c(2) F(3) by (simp add: drv_ok_def file_wf_def closed_vnet_def)
  then have "running s2 a (closed_vnet q (length xs) v) []"
    using running_step [OF run _ _ c(5)] by (simp add: io_same_def closed_vnet_def)
  moreover have "\<not> up_of s2" using c(2,3) by (simp add: inv_defs closed_vnet_def)
  ultimately show ?thesis using c(1,3,4)
    by (intro exI [of _ s2] exI [of _ "closed_vnet q (length xs) v"])
      (simp add: closed_vnet_def send_accepts_def)
qed

end
