(* ===== verification/Results.thy ===== *)
theory Results
  imports Driver_Spec
begin

text \<open>
  The types of the results. The model's results are unbounded integers, where the code has \<open>int\<close>,
  \<open>ssize_t\<close> and \<open>unsigned int\<close>; here is what each entry point may return, all of it within
  those types. The kernel's own error codes, which some entry points hand on, are between
  \<open>- 4095\<close> and \<open>- 1\<close>.
\<close>

definition MAX_ERRNO :: int where
  "MAX_ERRNO = 4095"

definition errno_laws :: "kernel \<Rightarrow> bool" where
  "errno_laws K \<longleftrightarrow> (\<forall>h.
     fst (k_register_netdev K h) \<in> {- MAX_ERRNO..0} \<and>
     fst (k_alloc_chrdev_region K h) \<in> {- MAX_ERRNO..0} \<and> k_cdev_add K h \<in> {- MAX_ERRNO..0} \<and>
     (\<forall>e. k_class_create K h = ERR_PTR e \<or> k_device_create K h = ERR_PTR e \<longrightarrow> e \<in> {- MAX_ERRNO..<0}))"

fun result_type :: "entry \<Rightarrow> int set" where
  "result_type Load = {- MAX_ERRNO..0}"
| "result_type Unload = {0}"
| "result_type Open_file = {- MAX_ERRNO..0}"
| "result_type Release_file = {0}"
| "result_type (Read_file flags iv) = {- EINVAL, - ENOMEM, - EFAULT, - EAGAIN} \<union>
     {r. 12 \<le> r \<and> r \<le> int (unat (io_dev_iov_total iv)) \<and> r mod 8 = 4}"
| "result_type (Write_file flags iv) = {- EINVAL, - ENOMEM, - EFAULT} \<union>
     {r. 12 \<le> r \<and> r \<le> int (unat (io_dev_iov_total iv))}"
| "result_type Poll_file = uint ` {POLLPRI OR POLLERR, POLLOUT OR POLLWRNORM,
     (POLLOUT OR POLLWRNORM) OR (POLLIN OR POLLRDNORM)}"
| "result_type (Ioctl_file cmd arg) = {0, - EINVAL, - EFAULT}"
| "result_type Dev_open = {0}"
| "result_type Dev_stop = {0}"
| "result_type (Dev_xmit p b) = {0}"
| "result_type Dev_stats = {0}"
| "result_type (Dev_ioctl cmd) = {- ENOSYS}"

section \<open>Errors that are handed on\<close>

lemma net_dev_add_result:
  assumes "net_dev_add K s = Some (r, t)"
  shows "r = 0 \<or> r = - ENOMEM \<or> (\<exists>h. r = fst (k_register_netdev K h))"
  using assms
  by (auto simp: net_dev_add_def register_netdev_def Let_def split_def split: bind_splits if_splits)

lemma io_dev_open_result:
  assumes "io_dev_open K s = Some (r, t)"
  shows "r = 0 \<or> r = - EACCES \<or> r = - ENOMEM \<or> (\<exists>h. r = fst (k_register_netdev K h))"
  using assms by (auto simp: io_dev_open_def dest!: net_dev_add_result split: bind_splits if_splits)

lemma PTR_ERR_range:
  "errno_laws K \<Longrightarrow> IS_ERR (k_class_create K h) \<Longrightarrow> PTR_ERR (k_class_create K h) \<in> {- MAX_ERRNO..0}"
  "errno_laws K \<Longrightarrow> IS_ERR (k_device_create K h) \<Longrightarrow> PTR_ERR (k_device_create K h) \<in> {- MAX_ERRNO..0}"
  by (cases "k_class_create K h"; force simp: errno_laws_def)
    (cases "k_device_create K h"; force simp: errno_laws_def)

lemma io_dev_add_result:
  assumes K: "errno_laws K" and r: "io_dev_add K s = Some (r, t)"
  shows "r \<in> {- MAX_ERRNO..0}"
proof -
  have E: "fst (k_alloc_chrdev_region K h) \<in> {- MAX_ERRNO..0}" "k_cdev_add K h \<in> {- MAX_ERRNO..0}" for h
    using K by (simp_all add: errno_laws_def)
  have "0 \<in> {- MAX_ERRNO..0}" by (simp add: MAX_ERRNO_def)
  with r E PTR_ERR_range [OF K] show ?thesis
    unfolding io_dev_add_def Let_def split_def
    by (auto simp del: atLeastAtMost_iff split: bind_splits if_splits)
qed

lemma module_start_result:
  assumes K: "errno_laws K" and r: "module_start K s = Some (r, t)"
  shows "r \<in> {- MAX_ERRNO..0}"
proof -
  have "- EINVAL \<in> {- MAX_ERRNO..0}" by (simp add: MAX_ERRNO_def)
  with r io_dev_add_result [OF K] show ?thesis
    unfolding module_start_def Let_def split_def
    by (auto simp del: atLeastAtMost_iff split: bind_splits if_splits)
qed

text \<open>
  (C24) What the kernel gets from an entry point, in a reachable state: a value of the type
  of that entry, by the table above. It is an error number or fits a non-negative \<open>int\<close>, so
  nothing is cut off where the code stores a result in an \<open>int\<close> and user space can tell the two apart.
\<close>

theorem results_typed:
  assumes K: "kernel_laws K" "errno_laws K" and s: "reachable K s" and may: "may_call K s e"
    and r: "dispatch K e s = Some (r, s')"
  shows "r \<in> result_type e \<and> (- MAX_ERRNO \<le> r \<and> r < 0 \<or> 0 \<le> r \<and> r < 2 ^ 31)"
proof -
  obtain t where t: "refines s t" using reachable_refines [OF s K(1)] by blast
  from step_simulates [OF t K(1) may] r obtain t' where sp: "spec_step e t r t'"
    by (auto simp: simulates_def split: if_splits)
  have ty: "r \<in> result_type e"
  proof (cases e)
    case Load
    with r module_start_result [OF K(2)] show ?thesis by simp
  next
    case Open_file
    have "fst (k_register_netdev K h) \<in> {- MAX_ERRNO..0}" for h using K(2) by (simp add: errno_laws_def)
    with r Open_file io_dev_open_result [of K s r s'] show ?thesis by (auto simp: MAX_ERRNO_def)
  next
    case Poll_file
    with sp show ?thesis by (simp add: spec_mask_def)
  next
    case (Read_file flags iv)
    have "(4 + 8 * int k) mod 8 = 4" for k by presburger
    with sp Read_file show ?thesis by (auto simp: read_result_def split: if_splits)
  qed (use sp in \<open>auto simp: write_result_def split: if_splits\<close>)
  moreover have "- MAX_ERRNO \<le> r \<and> r < 0 \<or> 0 \<le> r \<and> r < 2 ^ 31"
  proof -
    have "uint w < 2 ^ 31" if "unat w < 2 ^ 31" for w :: u64
    proof -
      from that have "int (unat w) < int (2 ^ 31)" by (simp only: of_nat_less_iff)
      then show ?thesis by simp
    qed
    then show ?thesis using ty may by (cases e) (fastforce simp: MAX_ERRNO_def)+
  qed
  ultimately show ?thesis by blast
qed

end
