(* ===== verification/Accounting.thy ===== *)
theory Accounting
  imports Results
begin

text \<open>
  What becomes of the packets to transmit. Each is at any time counted as transmitted, counted
  as dropped, or waiting in the queue; only a read that fails on the user's memory can lose
  one. \<open>account\<close> reads the sum of the three off the object, and each operation
  moves it by a known amount, whatever the kernel answers.
\<close>

section \<open>The account\<close>

text \<open>The sum is of 32-bit counters and wraps with them. Five counters are never touched.\<close>

definition ledger :: "net_dev_data \<Rightarrow> u32" where
  "ledger n = tx_packets (vn_stats n) + tx_dropped (vn_stats n) + q_size (vn_queue n)"

definition unused :: "u32 net_stats \<Rightarrow> u32 list" where
  "unused t = [rx_errors t, tx_errors t, rx_dropped t, rx_fifo_errors t, tx_fifo_errors t]"

definition account :: "drv \<Rightarrow> (u32 \<times> u32 list) option" where
  "account s = map_option (\<lambda>(a, v). (ledger (net_dev v), unused (vn_stats (net_dev v)))) (gs_vnet s)"

definition bump :: "u32 \<Rightarrow> (u32 \<times> u32 list) option \<Rightarrow> (u32 \<times> u32 list) option" where
  "bump k x = map_option (\<lambda>(n, u). (n + k, u)) x"

lemma bump_bump [simp]: "bump l (bump k x) = bump (k + l) x" "bump 0 x = x"
  by (simp_all add: bump_def option.map_comp comp_def split_def option.map_ident add.assoc)

lemma account_gs_vnet: "gs_vnet t = gs_vnet s \<Longrightarrow> account t = account s"
  by (simp add: account_def)

lemma account_more: "kmem.more t = kmem.more s \<Longrightarrow> account t = account s"
  by (rule account_gs_vnet) (rule drv_more_gs_vnet)

lemma account_simps [simp]:
  "account (log e s) = account s" "account (acquire_lock l s) = account s"
  "account (release_lock l s) = account s" "account (s\<lparr>skbs := h\<rparr>) = account s"
  "account (s\<lparr>netdevs := d\<rparr>) = account s" "account (handed p b s) = account s"
  "account (free_paged_mem p s) = account s"
  by (rule account_gs_vnet, simp add: free_paged_mem_def)+

lemma account_vnet_upd:
  "vnet_upd f s = Some t \<Longrightarrow> \<forall>v. ledger (net_dev (f v)) = ledger (net_dev v) + k \<and>
      unused (vn_stats (net_dev (f v))) = unused (vn_stats (net_dev v)) \<Longrightarrow> account t = bump k (account s)"
  by (auto simp: vnet_upd_def account_def bump_def split: option.splits)

section \<open>The kernel's calls\<close>

lemma account_kernel [dest!]:
  "kfree_skb p s = Some t \<Longrightarrow> account t = account s"
  "skb_update p f s = Some t \<Longrightarrow> account t = account s"
  "netdev_update p g s = Some t \<Longrightarrow> account t = account s"
  "SET_NEXT_PKT p n s = Some t \<Longrightarrow> account t = account s"
  "free_netdev p s = Some t \<Longrightarrow> account t = account s"
  "io_dev_wakeup s = Some t \<Longrightarrow> account t = account s"
  "netif_wake_queue p s = Some t \<Longrightarrow> account t = account s"
  by (auto simp: kfree_skb_def skb_update_def netdev_update_def SET_NEXT_PKT_def free_netdev_def
      io_dev_wakeup_def netif_wake_queue_def split: bind_splits)

section \<open>The queue\<close>

lemma with_queue_account:
  assumes "with_queue f s = Some (x, t)"
    and "\<forall>q s x q' u. f q s = Some (x, q', u) \<longrightarrow> gs_vnet u = gs_vnet s \<and> q_size q' = q_size q + g x"
  shows "account t = bump (g x) (account s)"
  using assms
  by (fastforce simp: with_queue_def vnet_dev_def vnet_upd_def account_def bump_def ledger_def
      split: bind_splits option.splits)

lemma raw_queue_remove_size:
  "raw_queue_remove q s = Some (p, q', t) \<Longrightarrow>
     kmem.more t = kmem.more s \<and> q_size q' = q_size q + (if p = NULL then 0 else - 1)"
  by (auto simp: raw_queue_remove_def SET_NEXT_PKT_def skb_update_def IS_PTR_VALID_def Let_def split: bind_splits if_splits)

lemma account_queue_remove [dest!]:
  "with_queue queue_remove s = Some (p, t) \<Longrightarrow> account t = bump (if p = NULL then 0 else - 1) (account s)"
  by (erule with_queue_account)
    (auto simp: queue_remove_raw dest!: raw_queue_remove_size drv_more_gs_vnet split: bind_splits)

lemma account_queue_insert [dest!]:
  "with_queue (\<lambda>q s. do { (q, s) \<leftarrow> raw_queue_insert p q s; Some ((), q, s) }) s = Some (x, t) \<Longrightarrow>
     account t = bump 1 (account s)"
  by (erule with_queue_account [where g = "\<lambda>_. 1"])
    (auto simp: raw_queue_insert_def SET_NEXT_PKT_def skb_update_def split: bind_splits if_splits)

lemma account_queue_flags [dest!]:
  "with_queue (\<lambda>q s. Some ((), queue_enable e q s)) s = Some (y, t) \<Longrightarrow> account t = account s"
  "with_queue (\<lambda>q s. Some (queue_is_empty q s)) s = Some (z, t) \<Longrightarrow> account t = account s"
  by (drule with_queue_account [where g = "\<lambda>_. 0"]; simp add: queue_enable_def queue_is_empty_def Let_def)+

lemma flush_loop_size:
  fixes qs :: "queue \<times> 'z kmem_scheme"
  assumes "flush_loop n qs = Some y"
  shows "kmem.more (snd (snd y)) = kmem.more (snd qs) \<and> q_size (fst (snd y)) + fst y = q_size (fst qs) + n"
  using assms
proof (rule flush_loop.raw_induct [where P = "\<lambda>n qs y.
    kmem.more (snd (snd y)) = kmem.more (snd qs) \<and> q_size (fst (snd y)) + fst y = q_size (fst qs) + n", rotated])
  fix f and n and qs :: "queue \<times> 'z kmem_scheme" and y
  assume IH: "\<And>n qs y. f n qs = Some y \<Longrightarrow>
      kmem.more (snd (snd y)) = kmem.more (snd qs) \<and> q_size (fst (snd y)) + fst y = q_size (fst qs) + n"
    and c: "do { (skb, qs) \<leftarrow> raw_queue_remove (fst qs) (snd qs);
        if skb \<noteq> NULL then do { qs \<leftarrow> q_free skb qs; f (n + 1) qs } else Some (n, qs) } = Some y"
  show "kmem.more (snd (snd y)) = kmem.more (snd qs) \<and> q_size (fst (snd y)) + fst y = q_size (fst qs) + n"
    using c by (auto simp: q_free_def kfree_skb_def dest!: raw_queue_remove_size IH split: bind_splits if_splits)
qed

lemma account_flush [dest!]: "net_dev_flush_tx_queue s = Some t \<Longrightarrow> account t = account s"
proof -
  assume "net_dev_flush_tx_queue s = Some t"
  then obtain n u where u: "with_queue (\<lambda>q s. flush_loop 0 (q, s)) (acquire_lock Queue_lock s) = Some (n, u)"
    and t: "vnet_upd (net_dev_update (vn_stats_update (tx_dropped_update (\<lambda>m. m + n)))) (release_lock Queue_lock u) = Some t"
    by (auto simp: net_dev_flush_tx_queue_def Let_def split: bind_splits)
  have "account u = bump (- n) (account s)"
    by (rule with_queue_account [OF u, where g = "\<lambda>n. - n", simplified])
      (auto dest!: flush_loop_size drv_more_gs_vnet simp: algebra_simps)
  moreover have "account t = bump n (account u)"
    using account_vnet_upd [OF t, of n] by (simp add: ledger_def unused_def)
  ultimately show ?thesis by simp
qed

section \<open>The object\<close>

lemma account_neutral [dest!]:
  "vnet_upd (io_dev_update f) s = Some t \<Longrightarrow> account t = account s"
  "vnet_upd (net_dev_update (vn_connected_update h)) s = Some t \<Longrightarrow> account t = account s"
  "vnet_upd (net_dev_update (vn_added_update h)) s = Some t \<Longrightarrow> account t = account s"
  "vnet_upd (net_dev_update (vn_device_update p)) s = Some t \<Longrightarrow> account t = account s"
  "vnet_upd (net_dev_update (vn_stats_update (count_rx n))) s = Some t \<Longrightarrow> account t = account s"
  by (drule account_vnet_upd [where k = 0]; simp add: ledger_def unused_def count_rx_def)+

lemma account_counted [dest!]:
  "vnet_upd (net_dev_update (vn_stats_update (count_tx n))) s = Some t \<Longrightarrow> account t = bump 1 (account s)"
  "vnet_upd (net_dev_update (vn_stats_update (tx_dropped_update (\<lambda>m. m + 1)))) s = Some t \<Longrightarrow>
     account t = bump 1 (account s)"
  by (drule account_vnet_upd [where k = 1]; simp add: ledger_def unused_def count_tx_def)+

section \<open>The interface\<close>

lemma account_net_dev_open [dest!]: "net_dev_open d s = Some (r, t) \<Longrightarrow> account t = account s"
  by (auto simp: net_dev_open_def split: bind_splits)

lemma account_net_dev_close [dest!]: "net_dev_close d s = Some (r, t) \<Longrightarrow> account t = account s"
  by (auto simp: net_dev_close_def split: bind_splits)

lemma account_net_dev_send: "net_dev_send K p d s = Some (r, t) \<Longrightarrow> account t = bump 1 (account s)"
  by (auto simp: net_dev_send_def Let_def split: bind_splits if_splits)

lemma account_net_dev_get_stats: "net_dev_get_stats d s = Some (st, t) \<Longrightarrow> account t = account s"
  by (auto simp: net_dev_get_stats_def Let_def split: bind_splits)

lemma account_run_ndo: "run_ndo d c s = Some t \<Longrightarrow> account t = account s"
  by (cases c) (auto simp: run_ndo_def net_dev_init_def net_dev_uninit_def net_dev_free_def split: bind_splits if_splits)

lemma account_run_ndos [dest!]: "run_ndos d cs s = Some t \<Longrightarrow> account t = account s"
  by (induction cs arbitrary: s) (auto dest!: account_run_ndo split: bind_splits)

lemma account_net_dev_remove [dest!]: "net_dev_remove K s = Some (r, t) \<Longrightarrow> account t = account s"
  by (auto simp: net_dev_remove_def unregister_netdev_def Let_def split: bind_splits if_splits)

lemma account_alloc_netdev [dest!]: "alloc_netdev K s = Some (p, t) \<Longrightarrow> account t = account s"
  by (auto simp: alloc_netdev_def net_dev_setup_def Let_def split_def split: bind_splits if_splits)

lemma account_net_dev_add [dest!]: "net_dev_add K s = Some (r, t) \<Longrightarrow> account t = account s"
  by (auto simp: net_dev_add_def register_netdev_def Let_def split_def split: bind_splits if_splits)

section \<open>The file\<close>

lemma account_fetch_header [dest!]: "fetch_header K len s = Some (r, t) \<Longrightarrow> account t = account s"
  by (auto simp: fetch_header_def alloc_paged_mem_def alloc_mem_def Let_def split: bind_splits if_splits option.splits)

lemma account_return_count: "return_count K hdr ret s = Some (r, t) \<Longrightarrow> account t = account s"
  by (auto simp: return_count_def Let_def split: bind_splits if_splits)

lemma return_count_negative: "return_count K hdr ret s = Some (r, t) \<Longrightarrow> ret < 0 \<Longrightarrow> r = ret"
  by (auto simp: return_count_def split: bind_splits)

lemma account_fill:
  "io_read_fill_network_packet K pkt p s = Some (r, t) \<Longrightarrow>
     account t = bump 1 (account s) \<or> (r = - EFAULT \<and> account t = account s)"
  by (auto simp: io_read_fill_network_packet_def Let_def split: bind_splits option.splits if_splits)

text \<open>A read loses at most one packet, and then it returns the error.\<close>

lemma account_io_read_loop:
  "io_read_loop K m js ret s = Some (r, t) \<Longrightarrow>
     account t = account s \<or> (r = - EFAULT \<and> account t = bump (- 1) (account s))"
proof (induction js arbitrary: ret s)
  case (Cons i js)
  from Cons.prems show ?case
    by (auto simp: IS_PTR_VALID_def dest!: account_fill Cons.IH split: bind_splits if_splits)
qed simp

lemma account_read:
  "io_read_to_iovec K len s = Some (r, t) \<Longrightarrow>
     account t = account s \<or> (r = - EFAULT \<and> account t = bump (- 1) (account s))"
  by (fastforce simp: io_read_to_iovec_def split: bind_splits sum.splits
      dest: account_io_read_loop account_return_count return_count_negative)

lemma account_write_packet: "io_write_packet K pkt s = Some (r, t) \<Longrightarrow> account t = account s"
  by (auto simp: io_write_packet_def dev_alloc_skb_def skb_reserve_def skb_put_def eth_type_trans_def
      netif_rx_ni_def Let_def split_def split: bind_splits option.splits if_splits)

lemma account_io_write_loop: "io_write_loop K m js ret s = Some (r, t) \<Longrightarrow> account t = account s"
  by (induction js arbitrary: ret s) (auto dest!: account_write_packet split: bind_splits if_splits)

lemma account_write: "io_write_from_iovec K len s = Some (r, t) \<Longrightarrow> account t = account s"
  by (auto simp: io_write_from_iovec_def dest!: account_io_write_loop account_return_count
      split: bind_splits sum.splits)

lemma account_poll: "io_dev_poll s = Some (r, t) \<Longrightarrow> account t = account s"
  by (auto simp: io_dev_poll_def Let_def split: bind_splits if_splits)

lemma account_ioctl: "io_dev_ioctl K cmd arg s = Some (r, t) \<Longrightarrow> account t = account s"
  by (auto simp: io_dev_ioctl_def Let_def split: bind_splits if_splits)

lemma account_open: "io_dev_open K s = Some (r, t) \<Longrightarrow> account t = account s"
  by (auto simp: io_dev_open_def split: bind_splits if_splits)

lemma account_close: "io_dev_close K s = Some (r, t) \<Longrightarrow> account t = account s"
  by (auto simp: io_dev_close_def split: bind_splits)

section \<open>Loading\<close>

lemma account_io_dev_add: "io_dev_add K s = Some (r, t) \<Longrightarrow> account t = account s"
  by (auto simp: io_dev_add_def Let_def split_def split: bind_splits if_splits)

lemma account_cfg: "vnet_upd (cfg_update f) s = Some t \<Longrightarrow> account t = account s"
  by (drule account_vnet_upd [where k = 0]) simp_all

lemma account_load:
  assumes "module_start K s = Some (0, t)" and "gs_vnet s = None"
  shows "account t = Some (0, replicate 5 0)"
proof -
  obtain r u where v: "vnet_init K s = (r, u)" by (cases "vnet_init K s")
  from assms v have r: "r = 0" by (auto simp: module_start_def split: bind_splits if_splits)
  with v assms(2) have "account u = Some (0, replicate 5 0)"
    by (auto simp: vnet_init_def Let_def queue_init_def alloc_lock_def account_def ledger_def unused_def
        zero_vnet_def zero_stats_def numeral_eq_Suc split: if_splits prod.splits)
  moreover have "account t = account u"
    using assms(1) v r
    by (auto simp: module_start_def dest!: account_io_dev_add account_cfg split: bind_splits if_splits)
  ultimately show ?thesis by simp
qed

section \<open>Sequences of calls\<close>

fun is_xmit :: "entry \<times> int \<Rightarrow> bool" where
  "is_xmit (Dev_xmit p b, r) = True"
| "is_xmit _ = False"

fun faulty_read :: "entry \<times> int \<Rightarrow> bool" where
  "faulty_read (Read_file flags iv, r) = (r = - EFAULT)"
| "faulty_read _ = False"

lemma account_step:
  assumes "dispatch K e s = Some (r, t)" and "e \<noteq> Load" "e \<noteq> Unload"
  shows "account t = bump (if is_xmit (e, r) then 1 else 0) (account s) \<or>
    (faulty_read (e, r) \<and> \<not> is_xmit (e, r) \<and> account t = bump (- 1) (account s))"
  using assms
  by (cases e) (auto simp: io_dev_aio_read_def io_dev_aio_write_def Let_def net_dev_ioctl_def
      dest: account_net_dev_send account_net_dev_get_stats account_read account_write account_poll
        account_ioctl account_open account_close split: bind_splits if_splits)

definition count :: "('c \<Rightarrow> bool) \<Rightarrow> 'c list \<Rightarrow> nat" where
  "count P es = length (filter P es)"

lemma count_simps [simp]: "count P [] = 0" "count P (e # es) = (if P e then 1 else 0) + count P es"
  by (simp_all add: count_def)

lemma account_steps:
  assumes "dsteps K s es t" and "account s \<noteq> None" and "\<forall>e r. (e, r) \<in> set es \<longrightarrow> e \<noteq> Unload"
  shows "\<exists>lost. lost \<le> count faulty_read es \<and>
    account t = bump (of_nat (count is_xmit es) - of_nat lost) (account s)"
  using assms
proof (induction es arbitrary: s)
  case (Cons c es)
  obtain e r where c: "c = (e, r)" by (cases c)
  with Cons.prems obtain u where u: "dstep K s e r u" "dsteps K u es t" by auto
  then have d: "may_call K s e" "dispatch K e s = Some (r, u)" by (auto elim: dstepE)
  have "e \<noteq> Load" using d(1) Cons.prems(2) by (auto simp: is_loaded_def account_def)
  moreover have "e \<noteq> Unload" using Cons.prems(3) c by auto
  ultimately have st: "account u = bump (if is_xmit c then 1 else 0) (account s) \<or>
      (faulty_read c \<and> \<not> is_xmit c \<and> account u = bump (- 1) (account s))"
    using account_step [OF d(2)] c by simp
  then have "account u \<noteq> None" using Cons.prems(2) by (auto simp: bump_def)
  from Cons.IH [OF u(2) this] Cons.prems(3) obtain l where
    l: "l \<le> count faulty_read es" "account t = bump (of_nat (count is_xmit es) - of_nat l) (account u)" by auto
  from st show ?case
  proof
    assume "account u = bump (if is_xmit c then 1 else 0) (account s)"
    with l show ?thesis by (intro exI [of _ l]) (simp add: algebra_simps)
  next
    assume "faulty_read c \<and> \<not> is_xmit c \<and> account u = bump (- 1) (account s)"
    with l show ?thesis by (intro exI [of _ "Suc l"]) (simp add: algebra_simps)
  qed
qed simp

text \<open>In every state that the driver can reach the five counters are zero.\<close>

lemma idle_account:
  assumes "reachable K s" and K: "kernel_laws K" and "account s = Some (n, u)"
  shows "u = replicate 5 0"
  using assms(1,3)
proof (induction arbitrary: n u rule: reachable.induct)
  case (init s)
  then show ?case by (simp add: unloaded_def account_def)
next
  case (step s e r s')
  from step.hyps(2) have d: "may_call K s e" "dispatch K e s = Some (r, s')" by (auto elim: dstepE)
  from reachable_refines [OF step.hyps(1) K] obtain t where t: "refines s t" ..
  from step_refines [OF t K step.hyps(2)] obtain t' where t': "spec_step e t r t'" "refines s' t'" by blast
  have off: False if "t' = spec_off"
    using that t'(2) step.prems by (auto simp: refines_def unloaded_def account_def view_def spec_off_def)
  show ?case
  proof (cases "e = Load \<or> e = Unload")
    case True
    with t'(1) off have e: "e = Load" by auto
    with d(1) have none: "gs_vnet s = None" by (cases "gs_vnet s") (simp_all add: is_loaded_def)
    with t running_facts(2) have "t = spec_off" by (fastforce simp: refines_def)
    with t'(1) off e have "r = 0" by (auto split: if_splits)
    with d(2) e account_load [OF _ none] step.prems show ?thesis by simp
  next
    case False
    with account_step [OF d(2)] step.prems have "\<exists>m. account s = Some (m, u)"
      by (cases "account s") (auto simp: bump_def)
    with step.IH show ?thesis by blast
  qed
qed

lemma counters_unused:
  assumes "reachable K s" and "kernel_laws K" and "gs_vnet s = Some (a, v)"
  shows "unused (vn_stats (net_dev v)) = [0, 0, 0, 0, 0]"
proof -
  from idle_account [OF assms(1,2), of "ledger (net_dev v)" "unused (vn_stats (net_dev v))"] assms(3)
  show ?thesis by (simp add: account_def numeral_eq_Suc)
qed

text \<open>
  (C5) From loading the module on, whatever is called in whatever order: the packets handed to the
  driver so far are those counted as transmitted, those counted as dropped, those waiting in the
  queue, and those lost, of which there are at most as many as reads that returned
  \<open>- EFAULT\<close>. The counters are words of 32 bits and the sum wraps with them. The error counters
  and that of dropped received packets stay zero.
\<close>

theorem packet_accounting:
  assumes K: "kernel_laws K" and s: "unloaded s" and load: "dstep K s Load 0 s0"
    and run: "dsteps K s0 es t" and up: "\<forall>e r. (e, r) \<in> set es \<longrightarrow> e \<noteq> Unload"
  shows "\<exists>a v xs lost. running t a v xs \<and> lost \<le> count faulty_read es \<and>
    of_nat (count is_xmit es) = tx_packets (vn_stats (net_dev v)) + tx_dropped (vn_stats (net_dev v)) +
      of_nat (length xs) + of_nat lost \<and>
    unused (vn_stats (net_dev v)) = [0, 0, 0, 0, 0]"
proof -
  have "gs_vnet s = None" using s by (simp add: unloaded_def)
  moreover have "module_start K s = Some (0, s0)" using load by (auto elim: dstepE)
  ultimately have a0: "account s0 = Some (0, replicate 5 0)" by (intro account_load)
  with account_steps [OF run _ up] obtain lost where
    l: "lost \<le> count faulty_read es" "account t = Some (of_nat (count is_xmit es) - of_nat lost, replicate 5 0)"
    by (auto simp: bump_def)
  have "dsteps K s ((Load, 0) # es) t" using load run by auto
  from steps_refine [OF _ K this, of spec_off] s obtain t' where "refines t t'" by (auto simp: refines_def)
  then have "driver_inv t" by (rule refines_inv)
  moreover obtain a v where g: "gs_vnet t = Some (a, v)" using l(2) by (auto simp: account_def)
  ultimately obtain xs where r: "running t a v xs" using driver_inv_loaded by blast
  have "queue_rep (vn_queue (net_dev v)) (skbs t) xs" using running_facts(1) [OF r] by (simp add: inv_defs)
  then have q: "q_size (vn_queue (net_dev v)) = of_nat (length xs)" by (rule queue_rep_props)
  have "of_nat (count is_xmit es) = ledger (net_dev v) + of_nat lost" "unused (vn_stats (net_dev v)) = replicate 5 0"
    using l(2) g by (auto simp: account_def)
  with r l(1) q show ?thesis
    by (intro exI [of _ a] exI [of _ v] exI [of _ xs] exI [of _ lost])
      (simp add: ledger_def numeral_eq_Suc)
qed

end
