(* ===== verification/Log_Lines.thy ===== *)
theory Log_Lines
  imports Format Dump Accounting
begin

text \<open>
  The lines that the driver logs: a table of the calls of \<open>TRACE\<close> of each file, with what is known
  of their arguments, the call that prints the counters, and the calls that the dumps make. All fit
  the buffers of \<open>trace\<close>, the one with the counters only because five of them are zero at all times,
  but for that of \<open>net_dev_send\<close>, which debugging switches on and which never fits.
\<close>

section \<open>The tables\<close>

text \<open>Every format but those of the raw lines starts with the name of the function.\<close>

definition msg :: "string \<Rightarrow> u32 \<Rightarrow> string \<Rightarrow> kind list \<Rightarrow> log_line" where
  "msg func flag fmt ks = (flag, ''%s: '' @ fmt, K_lit func # ks)"

definition KVNET_DEVICE :: string where
  "KVNET_DEVICE = ''/dev/kvnet''"

text \<open>The call of \<open>net_dev_get_stats\<close>: each counter is printed as an \<open>int\<close>.\<close>

definition stats_call :: "u32 net_stats \<Rightarrow> log_call" where
  "stats_call t = (LOG_DBG,
     ''%s: rx_packets=%d, tx_packets=%d, rx_errors=%d, tx_errors=%d, rx_dropped=%d, tx_dropped=%d, '' @
     ''rx_bytes=%d, tx_bytes=%d, rx_fifo_errors=%d, tx_fifo_errors=%d'',
     A_str ''net_dev_get_stats()'' # map A_word
       [rx_packets t, tx_packets t, rx_errors t, tx_errors t, rx_dropped t, tx_dropped t,
        rx_bytes t, tx_bytes t, rx_fifo_errors t, tx_fifo_errors t])"

definition module_stop_lines :: "log_line list" where
  \<open>module_stop_lines = [
     msg ''module_stop'' LOG_INFO ''==>'' [],
     msg ''module_stop'' LOG_INFO ''<=='' []]\<close>

definition module_start_lines :: "log_line list" where
  \<open>module_start_lines = [
     msg ''module_start'' LOG_INFO ''==>'' [],
     msg ''module_start'' LOG_INFO ''<=='' []]\<close>

definition io_dev_aio_read_lines :: "log_line list" where
  \<open>io_dev_aio_read_lines = [
     msg ''io_dev_aio_read()'' LOG_WARN ''this module is compiled with nonblocking file support only.'' [],
     msg ''io_dev_aio_read()'' LOG_WARN ''io_dev_iov_total(): len=%d'' [K_word]]\<close>

definition io_dev_aio_write_lines :: "log_line list" where
  \<open>io_dev_aio_write_lines = [
     msg ''io_dev_aio_write()'' LOG_WARN ''this module is compiled with nonblocking file support only.'' [],
     msg ''io_dev_aio_write()'' LOG_WARN ''io_dev_iov_total(): len=%d'' [K_word]]\<close>

definition io_dev_wakeup_lines :: "log_line list" where
  \<open>io_dev_wakeup_lines = [
     msg ''io_dev_wakeup()'' LOG_DBG ''trying to wake-up pending io request.'' []]\<close>

definition io_dev_poll_lines :: "log_line list" where
  \<open>io_dev_poll_lines = [
     msg ''io_dev_poll()'' LOG_DBG ''io request has been canceled.'' [],
     msg ''io_dev_poll()'' LOG_DBG ''writable=%s, readable=%s'' [K_str 2 3, K_str 2 3]]\<close>

definition io_dev_ioctl_lines :: "log_line list" where
  \<open>io_dev_ioctl_lines = [
     msg ''io_dev_ioctl()'' LOG_INFO ''KVNET_IOCTL_CANCEL_PENDING_READ'' [],
     msg ''io_dev_ioctl()'' LOG_INFO ''KVNET_IOCTL_GET_INFO'' [],
     msg ''io_dev_ioctl()'' LOG_WARN ''KVNET_IOCTL_GET_INFO: put_user(): segmentation fault.'' [],
     msg ''io_dev_ioctl()'' LOG_WARN ''KVNET_IOCTL_GET_INFO: put_user(): segmentation fault.'' [],
     msg ''io_dev_ioctl()'' LOG_WARN ''KVNET_IOCTL_GET_INFO: copy_to_user(): segmentation fault.'' [],
     msg ''io_dev_ioctl()'' LOG_DBG ''cmd=0x%08X, arg=0x%08X'' [K_word, K_word]]\<close>

definition io_dev_open_lines :: "log_line list" where
  \<open>io_dev_open_lines = [
     msg ''io_dev_open()'' LOG_INFO ''==>'' [],
     msg ''io_dev_open()'' LOG_DBG ''char device "%s" already opened.'' [K_lit KVNET_DEVICE],
     msg ''io_dev_open()'' LOG_INFO ''char device "%s" opened.'' [K_lit KVNET_DEVICE],
     msg ''io_dev_open()'' LOG_INFO ''<=='' []]\<close>

definition io_dev_close_lines :: "log_line list" where
  \<open>io_dev_close_lines = [
     msg ''io_dev_close()'' LOG_INFO ''==>'' [],
     msg ''io_dev_close()'' LOG_INFO ''char device "%s" closed.'' [K_lit KVNET_DEVICE],
     msg ''io_dev_close()'' LOG_INFO ''<=='' []]\<close>

definition io_dev_add_lines :: "log_line list" where
  \<open>io_dev_add_lines = [
     msg ''io_dev_add()'' LOG_INFO ''==>'' [],
     msg ''io_dev_add()'' LOG_ERR ''alloc_chrdev_region(): %d'' [K_word],
     msg ''io_dev_add()'' LOG_INFO ''device number: major=%d, minor=%d'' [K_word, K_word],
     msg ''io_dev_add()'' LOG_ERR ''cdev_add(): %d'' [K_word],
     msg ''io_dev_add()'' LOG_ERR ''class_create(): %d'' [K_word],
     msg ''io_dev_add()'' LOG_ERR ''device_create(): %d'' [K_word],
     msg ''io_dev_add()'' LOG_INFO ''char device "%s" added.'' [K_lit KVNET_DEVICE],
     msg ''io_dev_add()'' LOG_INFO ''<=='' []]\<close>

definition io_dev_remove_lines :: "log_line list" where
  \<open>io_dev_remove_lines = [
     msg ''io_dev_remove()'' LOG_INFO ''==>'' [],
     msg ''io_dev_remove()'' LOG_INFO ''char device "%s" removed.'' [K_lit KVNET_DEVICE],
     msg ''io_dev_remove()'' LOG_INFO ''<=='' []]\<close>

definition io_read_to_iovec_lines :: "log_line list" where
  \<open>io_read_to_iovec_lines = [
     msg ''io_read_to_iovec()'' LOG_WARN ''invalid len. (%d)'' [K_word],
     msg ''io_read_to_iovec()'' LOG_WARN ''alloc_paged_mem(): no memory to allocate %d byte(s).'' [K_word],
     msg ''io_read_to_iovec()'' LOG_WARN ''memcpy_fromiovecend(): segmentation fault.'' [],
     msg ''io_read_to_iovec()'' LOG_WARN ''invalid count of packets. (%d)'' [K_word],
     msg ''io_read_to_iovec()'' LOG_WARN ''invalid length of header. (%d)'' [K_word],
     msg ''io_read_to_iovec()'' LOG_DBG ''schedule(): going to sleep...'' [],
     msg ''io_read_to_iovec()'' LOG_WARN ''some system signal has occured.'' [],
     msg ''io_read_to_iovec()'' LOG_DBG ''no buffer in the queue ???'' [],
     msg ''io_read_to_iovec()'' LOG_WARN ''io_read_fill_network_packet(): segmentation fault.'' [],
     msg ''io_read_to_iovec()'' LOG_WARN ''memcpy_toiovec(): segmentation fault.'' []]\<close>

definition io_write_from_iovec_lines :: "log_line list" where
  \<open>io_write_from_iovec_lines = [
     msg ''io_write_to_iovec()'' LOG_WARN ''invalid len. (%d)'' [K_word],
     msg ''io_write_to_iovec()'' LOG_WARN ''alloc_paged_mem(): no memory to allocate %d byte(s).'' [K_word],
     msg ''io_write_to_iovec()'' LOG_WARN ''memcpy_fromiovecend(): segmentation fault.'' [],
     msg ''io_write_to_iovec()'' LOG_WARN ''invalid count of packets. (%d)'' [K_word],
     msg ''io_write_to_iovec()'' LOG_WARN ''invalid length of header. (%d)'' [K_word],
     msg ''io_write_to_iovec()'' LOG_WARN ''get_user(): segmentation fault.'' [],
     msg ''io_write_to_iovec()'' LOG_WARN ''dev_alloc_skb(): no memory to allocate %d byte(s).'' [K_word],
     msg ''io_write_to_iovec()'' LOG_WARN ''copy_from_user(): segmentation fault.'' [],
     msg ''io_write_to_iovec()'' LOG_WARN ''memcpy_toiovec(): segmentation fault.'' []]\<close>

definition net_dev_flush_tx_queue_lines :: "log_line list" where
  \<open>net_dev_flush_tx_queue_lines = [
     msg ''net_dev_flush_tx_queue()'' LOG_INFO ''flushed=%d'' [K_word]]\<close>

definition net_dev_open_lines :: "log_line list" where
  \<open>net_dev_open_lines = [
     msg ''net_dev_open()'' LOG_INFO ''==>'' [],
     msg ''net_dev_open()'' LOG_INFO ''net device "kvnet" opened.'' [],
     msg ''net_dev_open()'' LOG_INFO ''<=='' []]\<close>

definition net_dev_close_lines :: "log_line list" where
  \<open>net_dev_close_lines = [
     msg ''net_dev_close()'' LOG_INFO ''==>'' [],
     msg ''net_dev_close()'' LOG_INFO ''net device "kvnet" closed.'' [],
     msg ''net_dev_close()'' LOG_INFO ''<=='' []]\<close>

definition net_dev_ioctl_lines :: "log_line list" where
  \<open>net_dev_ioctl_lines = [
     msg ''net_dev_ioctl()'' LOG_DBG ''cmd=0x%08X'' [K_word]]\<close>

definition always_on_lines :: "log_line list" where
  \<open>always_on_lines = [
     msg ''always_on()'' LOG_INFO ''called. '' []]\<close>

definition net_dev_init_lines :: "log_line list" where
  \<open>net_dev_init_lines = [
     msg ''net_dev_init()'' LOG_INFO ''called. '' []]\<close>

definition net_dev_uninit_lines :: "log_line list" where
  \<open>net_dev_uninit_lines = [
     msg ''net_dev_uninit()'' LOG_INFO ''called. '' []]\<close>

definition net_dev_free_lines :: "log_line list" where
  \<open>net_dev_free_lines = [
     msg ''net_dev_free()'' LOG_INFO ''called. '' []]\<close>

definition net_dev_setup_lines :: "log_line list" where
  \<open>net_dev_setup_lines = [
     msg ''net_dev_setup()'' LOG_INFO ''==>'' [],
     msg ''net_dev_setup()'' LOG_INFO ''<=='' []]\<close>

definition net_dev_remove_lines :: "log_line list" where
  \<open>net_dev_remove_lines = [
     msg ''net_dev_remove'' LOG_INFO ''==>'' [],
     msg ''net_dev_remove'' LOG_INFO ''net device "kvnet" removed.'' [],
     msg ''net_dev_remove'' LOG_INFO ''<=='' []]\<close>

definition net_dev_add_lines :: "log_line list" where
  \<open>net_dev_add_lines = [
     msg ''net_dev_add()'' LOG_INFO ''==>'' [],
     msg ''net_dev_add()'' LOG_WARN ''alloc_netdev(): %d'' [K_word],
     msg ''net_dev_add()'' LOG_WARN ''register_netdev(): %d'' [K_word],
     msg ''net_dev_add()'' LOG_INFO ''net device "kvnet" added.'' [],
     msg ''net_dev_add()'' LOG_INFO ''<=='' []]\<close>

definition queue_close_lines :: "log_line list" where
  \<open>queue_close_lines = [
     msg ''queue_close'' LOG_WARN ''%d packet(s) still left in the queue.'' [K_word]]\<close>

definition vnet_init_lines :: "log_line list" where
  \<open>vnet_init_lines = [
     msg ''vnet_init()'' LOG_ERR ''vnet object already exists.'' [],
     msg ''vnet_init()'' LOG_ERR ''can't allocate %d byte(s) of memory for vnet object.'' [K_word],
     msg ''vnet_init()'' LOG_INFO ''vnet object created. (%p)'' [K_ptr]]\<close>

definition vnet_close_lines :: "log_line list" where
  \<open>vnet_close_lines = [
     msg ''vnet_close()'' LOG_INFO ''vnet object destroyed.'' []]\<close>

definition driver_lines :: "log_line list" where
  "driver_lines =
     module_stop_lines @ module_start_lines @ io_dev_aio_read_lines @ io_dev_aio_write_lines @
     io_dev_wakeup_lines @ io_dev_poll_lines @ io_dev_ioctl_lines @ io_dev_open_lines @
     io_dev_close_lines @ io_dev_add_lines @ io_dev_remove_lines @ io_read_to_iovec_lines @
     io_write_from_iovec_lines @ net_dev_flush_tx_queue_lines @ net_dev_open_lines @
     net_dev_close_lines @ net_dev_ioctl_lines @ always_on_lines @ net_dev_init_lines @
     net_dev_uninit_lines @ net_dev_free_lines @ net_dev_setup_lines @ net_dev_remove_lines @
     net_dev_add_lines @ queue_close_lines @ vnet_init_lines @ vnet_close_lines"

text \<open>
  The line \<open>net_dev_send\<close> logs about each packet while debugging is on. The name of a device has 1
  to 15 characters; that of a packet without one is \<open>"???"\<close>.
\<close>

definition send_line :: log_line where
  "send_line = msg ''net_dev_send()'' LOG_DBG
     (''skb=%p, len=%d, head_len=%d, dev='%s', frag_list=%p, nr_frags=%d, ip_summed=%d, mac=%s, '' @
      ''mac_hdr=%p, mac_len=%d, data_len=%d, ip=%p, head=%p, data=%p, tail=%p, end=%p, frag_list=%p, next=%p, prev=%p'')
     [K_ptr, K_word, K_word, K_str 1 15, K_ptr, K_word, K_word, K_str 2 3, K_ptr, K_word, K_word,
      K_ptr, K_ptr, K_ptr, K_ptr, K_ptr, K_ptr, K_ptr, K_ptr]"

section \<open>The dumps' calls\<close>

abbreviation (input) LOG_INFO_RAW :: u32 where "LOG_INFO_RAW \<equiv> LOG_INFO OR LOG_RAW"

definition words :: "'n::len word list \<Rightarrow> arg list" where
  "words ws = map (\<lambda>w. A_word (ucast w)) ws"

fun dump_call :: "addr \<Rightarrow> string \<Rightarrow> dump_line \<Rightarrow> log_call" where
  "dump_call data func Enter = (LOG_INFO, ''%s: ==>'', [A_str func])"
| "dump_call data func Leave = (LOG_INFO, ''%s: <=='', [A_str func])"
| "dump_call data func Warn_pointer = (LOG_WARN, ''%s: invalid pointer passed.'', [A_str func])"
| "dump_call data func (Warn_length h) =
     (LOG_WARN, ''%s: can't print '' @ h @ '' header: invalid length.'', [A_str func])"
| "dump_call data func (Data_start len) =
     (LOG_INFO_RAW, ''data=0x%p, len=%d byte(s)'' @ [CHR 0x0A], [A_ptr data, A_word len])"
| "dump_call data func Data_label = (LOG_INFO_RAW, ''%s'', [A_str ''data=''])"
| "dump_call data func (Data_byte b) = (LOG_INFO_RAW, ''%02X '', words [b])"
| "dump_call data func Data_end = (LOG_INFO_RAW, ''%s'', [A_str [CHR 0x0A]])"
| "dump_call data func (Eth_line src dst proto) =
     (LOG_INFO_RAW, ''ETH: SRC=%02x:%02x:%02x:%02x:%02x:%02x DST=%02x:%02x:%02x:%02x:%02x:%02x TYPE=%04X'' @ [CHR 0x0A],
      words src @ words dst @ words [proto])"
| "dump_call data func (Arp_line hrd pro hln pln opc) =
     (LOG_INFO_RAW, ''ARP: HRD=%u PRO=0x%04X HLN=%u PLN=%u OP=%u'' @ [CHR 0x0A],
      words [hrd, pro] @ words [hln, pln] @ words [opc])"
| "dump_call data func (Arp_sender sha sip) =
     (LOG_INFO_RAW, ''ARP: SHA=%02x:%02x:%02x:%02x:%02x:%02x SIP=%u.%u.%u.%u'' @ [CHR 0x0A], words sha @ words sip)"
| "dump_call data func (Arp_target tha tip) =
     (LOG_INFO_RAW, ''ARP: THA=%02x:%02x:%02x:%02x:%02x:%02x TIP=%u.%u.%u.%u'' @ [CHR 0x0A], words tha @ words tip)"
| "dump_call data func (Ip_line saddr daddr protocol tot_len flags offset) =
     (LOG_INFO_RAW, ''IP: SRC=%u.%u.%u.%u DST=%u.%u.%u.%u PROTO=%u LEN=%u FLAGS=0x%04X OFFSET=%u'' @ [CHR 0x0A],
      words saddr @ words daddr @ words [protocol] @ words [tot_len, flags, offset])"

section \<open>What fits\<close>

lemma driver_lines_fit: "list_all fits driver_lines"
  by code_simp

lemma send_line_overruns_any: "overruns send_line"
  by code_simp

text \<open>
  (C32) The line of \<open>net_dev_send\<close> never fits: with debugging on, every packet sent overruns the
  second buffer of \<open>trace\<close>.
\<close>

theorem send_line_overruns:
  assumes "\<forall>p. length (P p) = 16" and "call_of c send_line"
  shows "\<exists>t. log_text P c = Some t \<and> TRACE d (fst c) t = (if d = 0 then Some None else None)"
proof -
  have "fst c = LOG_DBG" using assms(2) by (cases c) (auto simp: send_line_def msg_def)
  with overruns_None [OF assms send_line_overruns_any] show ?thesis by (auto simp: TRACE_def)
qed

section \<open>The counters\<close>

text \<open>What is known of the call when the five counters that are never used are zero.\<close>

definition stats_kinds :: "kind list" where
  "stats_kinds = K_lit ''net_dev_get_stats()'' # [K_word, K_word, K_val 0, K_val 0, K_val 0, K_word, K_word, K_word, K_val 0, K_val 0]"

lemma stats_call_whole:
  assumes P: "\<forall>p. length (P p) = 16" and u: "unused t = [0, 0, 0, 0, 0]"
  shows "whole P (stats_call t)"
proof -
  let ?l = "(fst (stats_call t), fst (snd (stats_call t)), stats_kinds)"
  have "call_of (stats_call t) ?l" using u by (simp add: stats_call_def stats_kinds_def unused_def)
  moreover have "fits ?l"
    unfolding stats_call_def stats_kinds_def fst_conv snd_conv by code_simp
  ultimately show ?thesis by (rule fits_whole [OF P])
qed

text \<open>It fits because of those zeros: with other counts it overruns the buffer.\<close>

lemma stats_call_may_overrun:
  assumes P: "\<forall>p. length (P p) = 16"
    and t: "t = \<lparr>rx_packets = k, tx_packets = k, rx_errors = k, tx_errors = k, rx_dropped = k, tx_dropped = k,
      rx_bytes = k, tx_bytes = k, rx_fifo_errors = k, tx_fifo_errors = k\<rparr>" "k = 0x80000000"
  shows "\<exists>x. log_text P (stats_call t) = Some x \<and> trace LOG_DBG x = None"
proof -
  let ?v = "K_val 0x80000000"
  let ?l = "(fst (stats_call t), fst (snd (stats_call t)),
    [K_lit ''net_dev_get_stats()'', ?v, ?v, ?v, ?v, ?v, ?v, ?v, ?v, ?v, ?v])"
  have "call_of (stats_call t) ?l" by (simp add: t stats_call_def)
  moreover have "overruns ?l"
    by (simp add: stats_call_def digit_def digits.simps)
  ultimately show ?thesis using overruns_None [OF P, of "stats_call t" ?l] by (simp add: stats_call_def)
qed

section \<open>The dumps are printed whole\<close>

text \<open>The shape of the lines of a dump.\<close>

fun dump_line_ok :: "dump_line \<Rightarrow> bool" where
  "dump_line_ok (Warn_length h) = (h \<in> {''ethernet'', ''ARP'', ''IP''})"
| "dump_line_ok (Eth_line src dst proto) = (length src = 6 \<and> length dst = 6)"
| "dump_line_ok (Arp_sender ha ip) = (length ha = 6 \<and> length ip = 4)"
| "dump_line_ok (Arp_target ha ip) = (length ha = 6 \<and> length ip = 4)"
| "dump_line_ok (Ip_line s d p t f v) = (length s = 4 \<and> length d = 4)"
| "dump_line_ok l = True"

lemma length_rd: "rd data off n = Some bs \<Longrightarrow> length bs = n"
  by (auto simp: rd_def split: if_splits)

lemma dump_ip_header_ok: "dump_ip_header data ip = Some l \<Longrightarrow> dump_line_ok l"
  by (auto simp: dump_ip_header_def Let_def length_rd split: bind_splits)

lemma dump_arp_ok: "dump_arp data ea = Some ls \<Longrightarrow> list_all dump_line_ok ls"
  by (auto simp: dump_arp_def Let_def length_rd split: bind_splits)

lemma dump_eth_frame_ok: "dump_eth_frame ptr len = Some ls \<Longrightarrow> list_all dump_line_ok ls"
  by (auto simp: dump_eth_frame_def Let_def length_rd dump_ip_header_ok dump_arp_ok
      split: bind_splits option.splits if_splits)

lemma dump_ip_packet_ok: "dump_ip_packet ptr len = Some ls \<Longrightarrow> list_all dump_line_ok ls"
  by (auto simp: dump_ip_packet_def dump_ip_header_ok split: bind_splits option.splits if_splits)

lemma dump_data_loop_ok: "dump_data_loop data len = Some ls \<Longrightarrow> list_all dump_line_ok ls"
  by (auto simp: dump_data_loop_eq list_all_iff split: if_splits)

lemma dump_data_ok: "dump_data ptr len = Some ls \<Longrightarrow> list_all dump_line_ok ls"
  by (auto simp: dump_data_def dump_data_loop_ok split: bind_splits option.splits)

definition word_kinds :: "nat \<Rightarrow> kind list" where
  "word_kinds n = replicate n K_word"

lemma words_kinds: "list_all2 of_kind (words ws) (word_kinds (length ws))"
  by (simp add: words_def word_kinds_def list_all2_conv_all_nth)

text \<open>The kinds of a dump line's arguments; the longest name of a dump has 14 characters.\<close>

fun dump_kinds :: "dump_line \<Rightarrow> kind list" where
  "dump_kinds (Data_start len) = [K_ptr, K_word]"
| "dump_kinds Data_label = [K_str 1 5]"
| "dump_kinds (Data_byte b) = word_kinds 1"
| "dump_kinds Data_end = [K_str 1 5]"
| "dump_kinds (Eth_line src dst proto) = word_kinds 13"
| "dump_kinds (Arp_line hrd pro hln pln opc) = word_kinds 5"
| "dump_kinds (Arp_sender ha ip) = word_kinds 10"
| "dump_kinds (Arp_target ha ip) = word_kinds 10"
| "dump_kinds (Ip_line s d p t f v) = word_kinds 12"
| "dump_kinds l = [K_str 1 14]"

lemma length_words [simp]: "length (words ws) = length ws"
  by (simp add: words_def)

lemma words_all_words: "a \<in> set (words ws) \<Longrightarrow> of_kind a K_word"
  by (auto simp: words_def)

lemma all_words: "list_all2 of_kind as (word_kinds n) = (length as = n \<and> (\<forall>a \<in> set as. of_kind a K_word))"
  by (auto simp: word_kinds_def list_all2_conv_all_nth all_set_conv_all_nth)

lemma dump_call_kinds:
  assumes "dump_line_ok l" and "func \<in> {''dump_skb'', ''dump_data'', ''dump_eth_frame'', ''dump_ip_packet''}"
  shows "call_of (dump_call data func l) (fst (dump_call data func l), fst (snd (dump_call data func l)), dump_kinds l)"
  using assms by (cases l) (auto simp: all_words words_all_words)

lemma dump_call_fits:
  assumes "dump_line_ok l"
  shows "fits (fst (dump_call data func l), fst (snd (dump_call data func l)), dump_kinds l)"
proof (cases l)
  case (Warn_length h)
  with assms consider "h = ''ethernet''" | "h = ''ARP''" | "h = ''IP''" by auto
  then show ?thesis by cases (simp_all only: Warn_length, code_simp+)
qed (simp_all only: dump_call.simps dump_kinds.simps fst_conv snd_conv, code_simp+)

text \<open>Every line of every dump is printed whole.\<close>

lemma dump_lines_whole:
  assumes "\<forall>p. length (P p) = 16" and "l \<in> set ls"
    and "(func = ''dump_skb'' \<and> ls = dump_skb skb) \<or> (func = ''dump_data'' \<and> dump_data ptr len = Some ls) \<or>
         (func = ''dump_eth_frame'' \<and> dump_eth_frame ptr len = Some ls) \<or>
         (func = ''dump_ip_packet'' \<and> dump_ip_packet ptr len = Some ls)"
  shows "whole P (dump_call data func l)"
proof -
  have "list_all dump_line_ok ls" using assms(3)
    by (auto simp: dump_skb_def dest: dump_data_ok dump_eth_frame_ok dump_ip_packet_ok)
  with assms(2) have "dump_line_ok l" by (simp add: list_all_iff)
  with fits_whole [OF assms(1) dump_call_kinds dump_call_fits] assms(3) show ?thesis by auto
qed

section \<open>Every line but one\<close>

text \<open>
  The calls that the driver can make in a state \<open>s\<close>: those of the tables, that of the counters, and
  those of the dumps.
\<close>

definition dumped :: "string \<Rightarrow> dump_line list \<Rightarrow> bool" where
  "dumped func ls \<longleftrightarrow>
     (\<exists>skb. func = ''dump_skb'' \<and> ls = dump_skb skb) \<or>
     (\<exists>ptr len. func = ''dump_data'' \<and> dump_data ptr len = Some ls) \<or>
     (\<exists>ptr len. func = ''dump_eth_frame'' \<and> dump_eth_frame ptr len = Some ls) \<or>
     (\<exists>ptr len. func = ''dump_ip_packet'' \<and> dump_ip_packet ptr len = Some ls)"

definition driver_call :: "drv \<Rightarrow> log_call \<Rightarrow> bool" where
  "driver_call s c \<longleftrightarrow>
     (\<exists>l \<in> set driver_lines. call_of c l) \<or>
     (\<exists>v. vnet_dev s = Some v \<and> c = stats_call (vn_stats (net_dev v))) \<or>
     (\<exists>data func ls l. dumped func ls \<and> l \<in> set ls \<and> c = dump_call data func l)"

text \<open>
  (C31) No line that the driver logs is cut short or overruns a buffer of \<open>trace\<close>, but the line of
  \<open>net_dev_send\<close> (\<open>send_line_overruns\<close>), which is not among these: the lines of the tables with any
  arguments of the kinds listed there, every line of every dump, and the line about the counters with
  all ten counters of a state that the driver can reach. With debugging on each is printed
  whole; with debugging off a line whose flag has the bit of \<open>LOG_DBG\<close>, as also that of an error has,
  is not printed at all.
\<close>

theorem log_lines_whole:
  assumes P: "\<forall>p. length (P p) = 16" and K: "kernel_laws K" and s: "reachable K s" and c: "driver_call s c"
  shows "\<exists>t. log_text P c = Some t \<and>
    TRACE d (fst c) t = Some (if fst c AND LOG_DBG = 0 \<or> d \<noteq> 0 then Some (printed (fst c) t) else None)"
proof (rule whole_TRACE)
  from c consider l where "l \<in> set driver_lines" "call_of c l"
    | a v where "gs_vnet s = Some (a, v)" "c = stats_call (vn_stats (net_dev v))"
    | data func ls l where "dumped func ls" "l \<in> set ls" "c = dump_call data func l"
    by (auto simp: driver_call_def vnet_dev_def)
  then show "whole P c"
  proof cases
    case 1
    with driver_lines_fit show ?thesis by (intro fits_whole [OF P]) (auto simp: list_all_iff)
  next
    case 2
    with stats_call_whole [OF P counters_unused [OF s K]] show ?thesis by simp
  next
    case 3
    then show ?thesis unfolding dumped_def by (auto intro: dump_lines_whole [OF P])
  qed
qed

end
