(* ===== verification/Traffic.thy ===== *)
theory Traffic
  imports Driver_Spec
begin

text \<open>
  Traffic through the driver, from the network stack to the reader: a sequence of packets
  handed to \<open>net_dev_send\<close> and the read that follows. The transmit queue is a bounded FIFO:
  what it holds afterwards is a prefix of what it held and what was sent, and a read
  copies its first packets to the caller's buffers in that order.
\<close>

section \<open>Sending a sequence of packets\<close>

fun send_all :: "kernel \<Rightarrow> (addr \<times> sk_buff) list \<Rightarrow> drv \<Rightarrow> drv option" where
  "send_all K [] s = Some s"
| "send_all K ((p, b) # ps) s = do {
     (r, s) \<leftarrow> net_dev_send K p (the_dev s) (handed p b s);
     send_all K ps s }"

text \<open>The capacity of the queue.\<close>

definition capacity :: "vnet \<Rightarrow> nat" where
  "capacity v = unat (cfg_max_queue_len (cfg v))"

text \<open>Packets that can be handed over: new linear buffers, each once.\<close>

definition sendable :: "(addr \<times> sk_buff) list \<Rightarrow> drv \<Rightarrow> bool" where
  "sendable ps s \<longleftrightarrow> distinct (map fst ps) \<and>
     (\<forall>(p, b) \<in> set ps. p \<noteq> NULL \<and> skbs s p = None \<and> skb_linear b)"

lemma sendable_Cons:
  "sendable ((p, b) # ps) s \<Longrightarrow> dom (skbs t) \<subseteq> insert p (dom (skbs s)) \<Longrightarrow> sendable ps t"
proof -
  assume ps: "sendable ((p, b) # ps) s" and t: "dom (skbs t) \<subseteq> insert p (dom (skbs s))"
  have "skbs t q = None" if "(q, c) \<in> set ps" for q c
  proof -
    from that have "q \<in> fst ` set ps" by force
    with that ps have "q \<noteq> p" "skbs s q = None" by (auto simp: sendable_def)
    with t show ?thesis by blast
  qed
  with ps show ?thesis by (auto simp: sendable_def)
qed

text \<open>
  One packet: it joins the queue when the interface is up and there is room, and is
  counted as dropped otherwise.
\<close>

lemma the_dev_inv: "drv_inv s a v xs \<Longrightarrow> the_dev s = vn_device (net_dev v)"
  by (simp add: the_dev_def inv_defs)

lemma send_one:
  assumes inv: "drv_inv s a v xs" and dev: "vn_device (net_dev v) \<noteq> NULL" and up: "up_of s"
    and ps: "sendable ((p, b) # ps) s"
  shows "\<exists>s' v'. net_dev_send K p (the_dev s) (handed p b s) = Some (0, s') \<and>
    drv_inv s' a v' (take (capacity v) (xs @ [p])) \<and> sendable ps s' \<and> up_of s' \<and>
    vn_device (net_dev v') = vn_device (net_dev v) \<and> cfg v' = cfg v \<and> io_dev v' = io_dev v \<and>
    frames s' (take (capacity v) (xs @ [p])) = take (capacity v) (frames s xs @ [payload b]) \<and>
    tx_dropped (vn_stats (net_dev v')) = tx_dropped (vn_stats (net_dev v)) +
      (if length xs < capacity v then 0 else 1)"
proof -
  from ps have new: "skbs s p = None" "p \<noteq> NULL" and lin: "skb_linear b" by (auto simp: sendable_def)
  have en: "q_enabled (vn_queue (net_dev v)) \<noteq> 0" and len: "length xs \<le> capacity v"
    and xs: "set xs = dom (skbs s)"
    using inv up by (auto simp: inv_defs capacity_def)
  show ?thesis
  proof (cases "length xs < capacity v")
    case True
    with en have "send_accepts v xs" by (simp add: send_accepts_def capacity_def)
    from send_accepting [OF lin inv dev new this, of K] obtain s' v' q where
      t: "net_dev_send K p (vn_device (net_dev v)) (handed p b s) = Some (0, s')"
        "drv_inv s' a v' (xs @ [p])" "v' = net_dev_update (vn_queue_update (\<lambda>_. q)) v"
        "q_enabled q = q_enabled (vn_queue (net_dev v))" "pool_of s' = (pool_of s)(p \<mapsto> payload b)"
      by blast
    have "frames s' xs = frames s xs"
      using new(1) xs by (intro frames_cong) (auto simp: t(5))
    then have "frames s' (xs @ [p]) = frames s xs @ [payload b]" by (simp add: frames_def t(5))
    moreover have "dom (skbs s') \<subseteq> insert p (dom (skbs s))"
      using t(2) xs by (auto simp: inv_defs)
    moreover have "up_of s'" using t(2-4) en by (simp add: inv_defs)
    ultimately show ?thesis
      using t(1-3) True sendable_Cons [OF ps] the_dev_inv [OF inv]
      by (intro exI [of _ s'] exI [of _ v']) (simp add: frames_def)
  next
    case False
    with len have full: "length xs = capacity v" by simp
    with False have "\<not> send_accepts v xs" by (simp add: send_accepts_def capacity_def)
    from send_dropping [OF inv dev new this, of K b] obtain s' where
      t: "net_dev_send K p (vn_device (net_dev v)) (handed p b s) = Some (0, s')"
        "drv_inv s' a (net_dev_update (vn_stats_update (tx_dropped_update (\<lambda>n. n + 1))) v) xs"
        "pool_of s' = pool_of s" by blast
    have "frames s' xs = frames s xs" by (intro frames_cong) (simp add: t(3))
    moreover have "dom (skbs s') \<subseteq> insert p (dom (skbs s))"
      using t(2) xs by (auto simp: inv_defs)
    moreover have "up_of s'" using t(2) en by (simp add: inv_defs)
    moreover have "length (frames s xs) = length xs" by (simp add: frames_def)
    ultimately show ?thesis
      using t(1,2) False full sendable_Cons [OF ps] the_dev_inv [OF inv]
      by (intro exI [of _ s'] exI [of _ "net_dev_update (vn_stats_update (tx_dropped_update (\<lambda>n. n + 1))) v"])
        simp
  qed
qed

lemma take_take_snoc: "take n (take n (xs @ [x]) @ ys) = take n (xs @ x # ys)"
  by (simp add: take_Cons' split: nat.splits)

lemma send_all_bounded_fifo:
  assumes "drv_inv s a v xs" and "vn_device (net_dev v) \<noteq> NULL" and "up_of s" and "sendable ps s"
  shows "\<exists>s' v'. send_all K ps s = Some s' \<and>
    drv_inv s' a v' (take (capacity v) (xs @ map fst ps)) \<and>
    vn_device (net_dev v') = vn_device (net_dev v) \<and> cfg v' = cfg v \<and> io_dev v' = io_dev v \<and>
    frames s' (take (capacity v) (xs @ map fst ps)) =
      take (capacity v) (frames s xs @ map (payload \<circ> snd) ps) \<and>
    tx_dropped (vn_stats (net_dev v')) = tx_dropped (vn_stats (net_dev v)) +
      of_nat (length xs + length ps - capacity v)"
  using assms
proof (induction ps arbitrary: s v xs)
  case Nil
  then have "length xs \<le> capacity v" by (simp add: inv_defs capacity_def)
  with Nil show ?case by (auto simp: frames_def intro!: exI [of _ v])
next
  case (Cons pb ps)
  obtain p b where pb: "pb = (p, b)" by (cases pb)
  let ?ys = "take (capacity v) (xs @ [p])"
  from Cons.prems have len: "length xs \<le> capacity v" by (simp add: inv_defs capacity_def)
  from send_one [OF Cons.prems(1-3), of p b ps K] Cons.prems(4) pb obtain t w where
    t: "net_dev_send K p (the_dev s) (handed p b s) = Some (0, t)" "drv_inv t a w ?ys"
      "sendable ps t" "up_of t"
      "vn_device (net_dev w) = vn_device (net_dev v)" "cfg w = cfg v" "io_dev w = io_dev v"
      "frames t ?ys = take (capacity v) (frames s xs @ [payload b])"
      "tx_dropped (vn_stats (net_dev w)) = tx_dropped (vn_stats (net_dev v)) +
        (if length xs < capacity v then 0 else 1)" by blast
  have cap: "capacity w = capacity v" by (simp add: capacity_def t(6))
  from Cons.IH [OF t(2) _ t(4,3), unfolded cap t(5-7)] Cons.prems(2) obtain s' v' where
    k: "send_all K ps t = Some s'"
      "drv_inv s' a v' (take (capacity v) (?ys @ map fst ps))"
      "vn_device (net_dev v') = vn_device (net_dev v)" "cfg v' = cfg v" "io_dev v' = io_dev v"
      "frames s' (take (capacity v) (?ys @ map fst ps)) =
        take (capacity v) (frames t ?ys @ map (payload \<circ> snd) ps)"
      "tx_dropped (vn_stats (net_dev v')) = tx_dropped (vn_stats (net_dev w)) +
        of_nat (length ?ys + length ps - capacity v)"
    by blast
  have "tx_dropped (vn_stats (net_dev v')) = tx_dropped (vn_stats (net_dev v)) +
      of_nat (length xs + length (pb # ps) - capacity v)"
  proof (cases "length xs < capacity v")
    case True
    then show ?thesis using k(7) t(9) by (simp add: min_def)
  next
    case False
    with len have "length xs = capacity v" by simp
    then show ?thesis using k(7) t(9) by simp
  qed
  moreover have "send_all K (pb # ps) s = Some s'" using t(1) k(1) pb by simp
  ultimately show ?case
    using k(2-6) unfolding t(8) take_take_snoc by (intro exI [of _ s'] exI [of _ v']) (simp add: pb comp_def)
qed

section \<open>The read that follows\<close>

text \<open>What a sequence of calls copied to the user: address and bytes.\<close>

fun copy_of :: "kcall \<Rightarrow> (addr \<times> u8 list) list" where
  "copy_of (Copy_to_user p bs left) = [(p, bs)]"
| "copy_of e = []"

definition copied :: "kcall list \<Rightarrow> (addr \<times> u8 list) list" where
  "copied es = concat (map copy_of es)"

lemma copied_simps [simp]:
  "copied [] = []" "copied (e # es) = copy_of e @ copied es" "copied (es @ fs) = copied es @ copied fs"
  by (simp_all add: copied_def)

text \<open>The part of packet \<open>b\<close> that fits the caller's packet at \<open>p\<close>.\<close>

definition fitted :: "(addr \<Rightarrow> u32) \<Rightarrow> addr \<Rightarrow> sk_buff \<Rightarrow> addr \<times> u8 list" where
  "fitted cap p b = (pkt_data p, take (unat (min (skb_len b) (cap p))) (skb_data b))"

lemma copied_loop:
  "copied (loop_calls cap P pool js xs) =
     map (\<lambda>(i, x). fitted cap (P i) (the (pool x))) (zip js xs)"
proof (induction js arbitrary: xs)
  case (Cons i js)
  then show ?case
    by (cases xs) (simp_all add: loop_calls_Cons deliver_calls_def fitted_def deliver_len_def)
qed (simp add: loop_calls_Cons)

lemma zip_upt_nth:
  "map (\<lambda>(i, x). g (ptrs ! i) (f x)) (zip [0..<length ptrs] xs) =
     map (\<lambda>(p, b). g p b) (zip ptrs (map f xs))"
  by (rule nth_equalityI) simp_all

lemma copied_read:
  "copied (read_calls K s len ptrs rest cap dev xs) =
     map (\<lambda>(p, b). fitted cap p b) (zip ptrs (frames s xs))"
  by (simp add: read_calls_def Let_def copied_loop frames_def
      zip_upt_nth [of "fitted cap" ptrs "\<lambda>x. the (pool_of s x)"])

lemma read_delivers:
  assumes inv: "drv_inv s a v xs" and dev: "vn_device (net_dev v) \<noteq> NULL"
    and hdr: "good_header K s len ptrs rest" and dist: "distinct ptrs"
    and user: "user_ok K (ktrace s) (set ptrs) cap"
    and out: "\<And>h bs. k_memcpy_toiovec K h bs"
  shows "\<exists>s' w es. io_read_to_iovec K len s = Some
      (if xs = [] then - EAGAIN else 4 + 8 * int (min (length ptrs) (length xs)), s') \<and>
    drv_inv s' a w (drop (length ptrs) xs) \<and> ktrace s' = ktrace s @ es \<and>
    copied es = map (\<lambda>(p, b). fitted cap p b) (zip ptrs (frames s xs))"
  using io_read_exact [OF inv dev hdr dist user out] copied_read by metis

text \<open>Which packets a sequence of calls freed, and the sums of the counters.\<close>

fun free_of :: "kcall \<Rightarrow> addr list" where
  "free_of (Kfree_skb p) = [p]"
| "free_of e = []"

definition freed :: "kcall list \<Rightarrow> addr list" where
  "freed es = concat (map free_of es)"

lemma freed_simps [simp]:
  "freed [] = []" "freed (e # es) = free_of e @ freed es" "freed (es @ fs) = freed es @ freed fs"
  by (simp_all add: freed_def)

lemma freed_loop: "freed (loop_calls cap P pool js xs) = take (length js) xs"
proof (induction js arbitrary: xs)
  case (Cons i js)
  then show ?case by (cases xs) (simp_all add: loop_calls_Cons deliver_calls_def)
qed (simp add: loop_calls_Cons)

lemma count_tx_all:
  "tx_packets (fold count_tx lens st) = tx_packets st + of_nat (length lens)"
  "tx_bytes (fold count_tx lens st) = tx_bytes st + sum_list lens"
  by (induction lens arbitrary: st) (simp_all add: count_tx_def)

lemma loop_lens_read:
  "loop_lens cap (\<lambda>i. ptrs ! i) (pool_of s) [0..<length ptrs] xs =
     map (\<lambda>(p, b). min (skb_len b) (cap p)) (zip ptrs (frames s xs))"
  by (simp add: loop_lens_def deliver_len_def frames_def
      zip_upt_nth [of "\<lambda>p b. min (skb_len b) (cap p)" ptrs "\<lambda>x. the (pool_of s x)"])

text \<open>
  (C8) A read takes the first packets of the queue, one for each pointer of the request while
  there are any. It copies them in order to the caller's packets, as much as fits, frees
  each, adds the number of packets and bytes to the counters, and returns the size of a
  header with that many pointers, or \<open>- EAGAIN\<close> when the queue is empty.
\<close>

theorem read_batch:
  assumes "drv_inv s a v xs" and "vn_device (net_dev v) \<noteq> NULL"
    and "good_header K s len ptrs rest" and "distinct ptrs"
    and "user_ok K (ktrace s) (set ptrs) cap" and "\<And>h bs. k_memcpy_toiovec K h bs"
  shows "\<exists>s' w es. io_read_to_iovec K len s = Some
      (if xs = [] then - EAGAIN else 4 + 8 * int (min (length ptrs) (length xs)), s') \<and>
    drv_inv s' a w (drop (length ptrs) xs) \<and> ktrace s' = ktrace s @ es \<and>
    copied es = map (\<lambda>(p, b). fitted cap p b) (zip ptrs (frames s xs)) \<and>
    freed es = take (length ptrs) xs \<and>
    tx_packets (vn_stats (net_dev w)) =
      tx_packets (vn_stats (net_dev v)) + of_nat (min (length ptrs) (length xs)) \<and>
    tx_bytes (vn_stats (net_dev w)) = tx_bytes (vn_stats (net_dev v)) +
      sum_list (map (\<lambda>(p, b). min (skb_len b) (cap p)) (zip ptrs (frames s xs)))"
proof -
  let ?es = "read_calls K s len ptrs rest cap (vn_device (net_dev v)) xs"
  have "freed ?es = take (length ptrs) xs" by (simp add: read_calls_def Let_def freed_loop)
  moreover have "length (frames s xs) = length xs" by (simp add: frames_def)
  ultimately show ?thesis
    using io_read_exact [OF assms] copied_read [of K s len ptrs rest cap]
    by (fastforce simp: count_tx_all loop_lens_read)
qed

section \<open>A read that faults\<close>

lemma read_loop_fault:
  assumes inv: "drv_inv s a v (x # xs)" and p: "hdr_pkt m (int i) = Some p"
    and fault: "\<And>es. k_get_user K (ktrace s @ es) p = None"
  shows "\<exists>s' w. io_read_loop K m (i # js) ret s = Some (- EFAULT, s') \<and> drv_inv s' a w xs \<and>
    keeps s v s' w \<and> vn_stats (net_dev w) = vn_stats (net_dev v) \<and>
    ktrace s' = ktrace s @ [Spin_lock_bh Queue_lock, Spin_unlock_bh Queue_lock, Get_user p None, Kfree_skb x]"
proof -
  obtain b where b: "pool_of s x = Some b" using inv_pool [OF inv] by blast
  from take_packet [OF inv b] obtain s1 q where
    s1: "with_queue queue_remove s = Some (x, s1)"
      "holding s1 a (net_dev_update (vn_queue_update (\<lambda>_. q)) v) x b xs"
      "ktrace s1 = ktrace s @ [Spin_lock_bh Queue_lock, Spin_unlock_bh Queue_lock]"
      "netdevs s1 = netdevs s" "held_of s1 = held_of s" by blast
  let ?s2 = "log (Get_user p None) s1"
  have h2: "holding ?s2 a (net_dev_update (vn_queue_update (\<lambda>_. q)) v) x b xs"
    by (rule holding_log [OF s1(2)]) simp_all
  from free_held [OF h2] obtain s3 where
    s3: "kfree_skb x ?s2 = Some s3" "drv_inv s3 a (net_dev_update (vn_queue_update (\<lambda>_. q)) v) xs"
      "ktrace s3 = ktrace ?s2 @ [Kfree_skb x]" "netdevs s3 = netdevs ?s2" "held_of s3 = held_of ?s2"
    by blast
  have "io_read_fill_network_packet K p x s1 = Some (- EFAULT, ?s2)"
    using fault [of "[Spin_lock_bh Queue_lock, Spin_unlock_bh Queue_lock]"] s1(3)
    by (simp add: io_read_fill_network_packet_def pkt_data_len_def)
  moreover have "x \<noteq> NULL" using s1(2) by (simp add: holding_def)
  ultimately have "io_read_loop K m (i # js) ret s = Some (- EFAULT, s3)"
    using s1(1) p s3(1) by (simp add: IS_PTR_VALID_def)
  moreover have "keeps s v s3 (net_dev_update (vn_queue_update (\<lambda>_. q)) v)"
    using s1(4,5) s3(4,5) by (simp add: keeps_def lock_simps)
  ultimately show ?thesis using s1(3) s3(2,3)
    by (intro exI [of _ s3] exI [of _ "net_dev_update (vn_queue_update (\<lambda>_. q)) v"]) simp
qed

text \<open>
  (C18) A read whose first buffer cannot be accessed returns \<open>- EFAULT\<close>, and the packet it had
  taken off the queue is gone: it is freed, not copied, and neither counted as transmitted
  nor as dropped.
\<close>

theorem read_fault_loses_packet:
  assumes inv: "drv_inv s a v (x # xs)" and dev: "vn_device (net_dev v) \<noteq> NULL"
    and hdr: "good_header K s len (p # ptrs) rest"
    and fault: "\<And>es. k_get_user K (ktrace s @ es) p = None"
  shows "\<exists>s' w es. io_read_to_iovec K len s = Some (- EFAULT, s') \<and> drv_inv s' a w xs \<and>
    ktrace s' = ktrace s @ es \<and> freed es = [x] \<and> copied es = [] \<and>
    vn_stats (net_dev w) = vn_stats (net_dev v)"
proof -
  define h where "h = [Kmalloc len (k_kmalloc K (ktrace s) len), Memcpy_fromiovecend len
    (Some (header_bytes (of_nat (length (p # ptrs))) (p # ptrs) @ rest))]"
  from fetch_header_ok [OF hdr] obtain hd s1 where
    fh: "fetch_header K len s = Some (Inr (hd, of_nat (length (p # ptrs))), s1)"
      "fetched len hd (of_nat (length (p # ptrs)))"
      "unat (of_nat (length (p # ptrs)) :: u32) = length (p # ptrs)"
      "hdr_pkt (kb_mem hd) (int 0) = Some p" "ktrace s1 = ktrace s @ h" "s1 = with_trace h s"
    unfolding h_def by (force simp: with_trace_def log_def)
  have lk: "lock_of s = Some False" using inv by (simp add: inv_defs)
  have i1: "drv_inv s1 a v (x # xs)"
    unfolding fh(6) by (rule drv_inv_with_trace [OF inv]) (simp_all add: h_def)
  have "k_get_user K (ktrace s1 @ es) p = None" for es
    using fault [of "h @ es"] by (simp add: fh(5))
  from read_loop_fault [OF i1 fh(4) this, of "[1..<length (p # ptrs)]" 0] obtain t w where
    t: "io_read_loop K (kb_mem hd) (0 # [1..<length (p # ptrs)]) 0 s1 = Some (- EFAULT, t)"
      "drv_inv t a w xs" "keeps s1 v t w" "vn_stats (net_dev w) = vn_stats (net_dev v)"
      "ktrace t = ktrace s1 @ [Spin_lock_bh Queue_lock, Spin_unlock_bh Queue_lock, Get_user p None, Kfree_skb x]"
    by blast
  let ?u = "log (Netif_wake_queue (vn_device (net_dev w))) t"
  have gt: "gs_vnet t = Some (a, w)" and lkt: "lock_of t = Some False"
    using t(2) by (simp_all add: inv_defs)
  have devw: "vn_device (net_dev w) \<noteq> NULL" using t(3) dev by (simp add: keeps_def)
  have iu: "drv_inv ?u a w xs" by (intro drv_inv_log t(2)) (simp_all add: lkt lock_simps)
  have wake: "netif_wake_queue (vn_device (net_dev w)) t = Some ?u"
    using t(2) devw by (auto simp: netif_wake_queue_def netdev_at_def inv_defs dev_wf_def)
  have js: "[0..<length (p # ptrs)] = 0 # [1..<length (p # ptrs)]"
    using upt_conv_Cons [of 0 "length (p # ptrs)"] by (simp del: upt_Suc)
  let ?e = "free_paged_mem (kb_addr hd) ?u"
  have "io_read_to_iovec K len s = Some (- EFAULT, ?e)"
    unfolding io_read_to_iovec_def fh(1) bind.bind_lunit prod.case sum.case fh(3) js t(1)
    using gt wake by (simp add: return_count_error)
  moreover have "drv_inv ?e a w xs"
    using lkt by (intro drv_inv_same_but_trace [OF iu] same_but_trace_free) (simp add: lock_simps)
  moreover have "\<exists>es. ktrace ?e = ktrace s @ es \<and> freed es = [x] \<and> copied es = []"
    using fh(5) t(5) by (auto simp: h_def free_paged_mem_def)
  ultimately show ?thesis using t(4) by blast
qed

end
