(* ===== verification/Kvnet_Lib.thy ===== *)
theory Kvnet_Lib
  imports Kvnet_Hdr Lifecycle
begin

text \<open>
  The user-space library: the status codes of \<open>status.h\<close> and the functions of \<open>kvnet.c\<close>. The
  operating system is the record \<open>os\<close> of its answers, each a function of the calls made so
  far; calls are appended to \<open>utrace\<close>. The library's three globals are fields of the state,
  and so are the caller's packets; dereferencing a pointer to none of them is a fault
  (\<open>None\<close>). Another thread may call \<open>kvnet_cancel_read\<close> while \<open>poll\<close> waits.
\<close>

section \<open>Status codes\<close>

definition KVNET_MAKE_STATUS :: "u32 \<Rightarrow> u32 \<Rightarrow> u32" where
  "KVNET_MAKE_STATUS sys_error status =
     ucast (ucast (sys_error AND 0xffff) :: u16) OR push_bit 16 (ucast (ucast (status AND 0xffff) :: u16))"

definition KVNET_SYS_ERROR :: "u32 \<Rightarrow> u16" where
  "KVNET_SYS_ERROR l = ucast (l AND 0xffff)"

definition KVNET_STATUS :: "u32 \<Rightarrow> u16" where
  "KVNET_STATUS l = ucast (drop_bit 16 l)"

abbreviation (input) KVNET_NO_ERROR :: u32 where "KVNET_NO_ERROR \<equiv> 0x0000"
abbreviation (input) KVNET_ERROR_ALREADY_OPENED :: u32 where "KVNET_ERROR_ALREADY_OPENED \<equiv> 0x0002"
abbreviation (input) KVNET_OPEN_DEVICE_ERROR :: u32 where "KVNET_OPEN_DEVICE_ERROR \<equiv> 0x0003"
abbreviation (input) KVNET_NOT_OPENED :: u32 where "KVNET_NOT_OPENED \<equiv> 0x0004"
abbreviation (input) KVNET_INVALID_PARAMETER :: u32 where "KVNET_INVALID_PARAMETER \<equiv> 0x0005"
abbreviation (input) KVNET_READ_ERROR :: u32 where "KVNET_READ_ERROR \<equiv> 0x0006"
abbreviation (input) KVNET_READ_CANCELLED :: u32 where "KVNET_READ_CANCELLED \<equiv> 0x0007"
abbreviation (input) KVNET_WRITE_ERROR :: u32 where "KVNET_WRITE_ERROR \<equiv> 0x0009"
abbreviation (input) KVNET_IOCTL_ERROR :: u32 where "KVNET_IOCTL_ERROR \<equiv> 0x000a"
abbreviation (input) KVNET_SELECT_ERROR :: u32 where "KVNET_SELECT_ERROR \<equiv> 0x000d"

definition KVNET_SUCCEEDED :: "u32 \<Rightarrow> bool" where
  "KVNET_SUCCEEDED status \<longleftrightarrow> KVNET_STATUS status = 0"

text \<open>The two halves of a status do not disturb each other.\<close>

lemma low_half: "(0xffff :: u32) = mask 16"
  by (simp add: mask_eq_exp_minus_1)

lemma KVNET_STATUS_MAKE: "KVNET_STATUS (KVNET_MAKE_STATUS e st) = ucast st"
  unfolding KVNET_STATUS_def KVNET_MAKE_STATUS_def low_half
  by (rule bit_word_eqI) (auto simp: bit_simps)

lemma KVNET_SYS_ERROR_MAKE: "KVNET_SYS_ERROR (KVNET_MAKE_STATUS e st) = ucast e"
  unfolding KVNET_SYS_ERROR_def KVNET_MAKE_STATUS_def low_half
  by (rule bit_word_eqI) (auto simp: bit_simps)

section \<open>State and operating system\<close>

text \<open>The caller's header and packets; \<open>up_data\<close> is the memory behind \<open>data\<close>.\<close>

record uhdr =
  u_count :: u32
  u_pkt :: "addr list"

record upkt =
  up_len :: u32
  up_data :: "u8 list"

datatype dev_file = Tun_file | Kvnet_file

datatype ucall =
    U_open dev_file int
  | U_socket int
  | U_close int
  | U_ioctl int u32 int
  | U_poll int u16 int int
  | U_read int u64 int
  | U_write int "u8 list" int
  | U_write_hdr int u64 int

record os =
  o_errno :: "ucall list \<Rightarrow> u32"
  o_open :: "ucall list \<Rightarrow> dev_file \<Rightarrow> int"
  o_socket :: "ucall list \<Rightarrow> int"
  o_ioctl :: "ucall list \<Rightarrow> int \<Rightarrow> u32 \<Rightarrow> int"
  o_poll :: "ucall list \<Rightarrow> int \<Rightarrow> u16 \<Rightarrow> int \<Rightarrow> int \<times> u16 \<times> bool"
  o_read :: "ucall list \<Rightarrow> int \<Rightarrow> u64 \<Rightarrow> int \<times> u8 list"
  o_read_hdr :: "ucall list \<Rightarrow> int \<Rightarrow> u64 \<Rightarrow> int \<times> uhdr \<times> (addr \<rightharpoonup> upkt)"
  o_write :: "ucall list \<Rightarrow> int \<Rightarrow> u8 list \<Rightarrow> int"
  o_write_hdr :: "ucall list \<Rightarrow> int \<Rightarrow> u64 \<Rightarrow> int"
  o_hwaddr :: "ucall list \<Rightarrow> u8 list"
  o_info :: "ucall list \<Rightarrow> u32 \<times> u32 \<times> u8 list"

record ulib =
  fdesc :: int
  canceled :: int
  use_tap_dev :: int
  upkts :: "addr \<rightharpoonup> upkt"
  utrace :: "ucall list"

definition ulog :: "ucall \<Rightarrow> ulib \<Rightarrow> ulib" where
  "ulog e s = s\<lparr>utrace := utrace s @ [e]\<rparr>"

lemma ulog_simps [simp]:
  "fdesc (ulog e s) = fdesc s" "canceled (ulog e s) = canceled s"
  "use_tap_dev (ulog e s) = use_tap_dev s" "upkts (ulog e s) = upkts s"
  "utrace (ulog e s) = utrace s @ [e]"
  by (simp_all add: ulog_def)

text \<open>The globals as the library starts with them.\<close>

definition initial_lib :: "(addr \<rightharpoonup> upkt) \<Rightarrow> ulib" where
  "initial_lib m = \<lparr>fdesc = - 1, canceled = 0, use_tap_dev = 0, upkts = m, utrace = []\<rparr>"

definition kvnet_get_sys_error :: "os \<Rightarrow> ulib \<Rightarrow> u32" where
  "kvnet_get_sys_error W s = o_errno W (utrace s)"

definition status :: "os \<Rightarrow> u32 \<Rightarrow> ulib \<Rightarrow> u32" where
  "status W st s = KVNET_MAKE_STATUS (kvnet_get_sys_error W s) st"

lemma KVNET_STATUS_status [simp]: "KVNET_STATUS (status W st s) = ucast st"
  by (simp add: status_def KVNET_STATUS_MAKE)

text \<open>Calls of the operating system that only return a number.\<close>

definition os_ioctl :: "os \<Rightarrow> int \<Rightarrow> u32 \<Rightarrow> ulib \<Rightarrow> int \<times> ulib" where
  "os_ioctl W fd cmd s = (let r = o_ioctl W (utrace s) fd cmd in (r, ulog (U_ioctl fd cmd r) s))"

definition os_open :: "os \<Rightarrow> dev_file \<Rightarrow> ulib \<Rightarrow> int \<times> ulib" where
  "os_open W f s = (let r = o_open W (utrace s) f in (r, ulog (U_open f r) s))"

definition os_socket :: "os \<Rightarrow> ulib \<Rightarrow> int \<times> ulib" where
  "os_socket W s = (let r = o_socket W (utrace s) in (r, ulog (U_socket r) s))"

abbreviation (input) TUNSETIFF :: u32 where "TUNSETIFF \<equiv> 0x400454ca"
abbreviation (input) SIOCSIFMTU :: u32 where "SIOCSIFMTU \<equiv> 0x8922"
abbreviation (input) SIOCGIFHWADDR :: u32 where "SIOCGIFHWADDR \<equiv> 0x8927"

section \<open>Opening, closing, cancelling\<close>

definition kvnet_open :: "os \<Rightarrow> int \<Rightarrow> ulib \<Rightarrow> u32 \<times> ulib" where
  "kvnet_open W use_tap s =
     (if fdesc s \<noteq> - 1 then (status W KVNET_ERROR_ALREADY_OPENED s, s)
      else
        let (err, s) =
          (if use_tap \<noteq> 0 then
             let (fd, s) = os_open W Tun_file s; s = s\<lparr>fdesc := fd\<rparr> in
             if fd = - 1 then (Some KVNET_OPEN_DEVICE_ERROR, s)
             else let (r, s) = os_ioctl W (fdesc s) TUNSETIFF s in
               if r = - 1 then (Some KVNET_IOCTL_ERROR, (ulog (U_close (fdesc s)) s)\<lparr>fdesc := - 1\<rparr>)
               else let (skfd, s) = os_socket W s in
                 if skfd \<noteq> - 1 then
                   let (_, s) = os_ioctl W skfd SIOCSIFMTU s in (None, ulog (U_close skfd) s)
                 else (None, s)
           else
             let (fd, s) = os_open W Kvnet_file s; s = s\<lparr>fdesc := fd\<rparr> in
             if fd = - 1 then (Some KVNET_OPEN_DEVICE_ERROR, s) else (None, s))
        in case err of
             Some e \<Rightarrow> (status W e s, s)
           | None \<Rightarrow>
               let s = s\<lparr>canceled := 0, use_tap_dev := use_tap\<rparr> in (status W KVNET_NO_ERROR s, s))"

definition kvnet_close :: "os \<Rightarrow> ulib \<Rightarrow> u32 \<times> ulib" where
  "kvnet_close W s =
     (if fdesc s = - 1 then (status W KVNET_NOT_OPENED s, s)
      else let s = (ulog (U_close (fdesc s)) s)\<lparr>fdesc := - 1\<rparr> in (status W KVNET_NO_ERROR s, s))"

definition kvnet_cancel_read :: "os \<Rightarrow> ulib \<Rightarrow> u32 \<times> ulib" where
  "kvnet_cancel_read W s =
     (if use_tap_dev s \<noteq> 0 then let s = s\<lparr>canceled := 1\<rparr> in (status W KVNET_NO_ERROR s, s)
      else if fdesc s = - 1 then (status W KVNET_INVALID_PARAMETER s, s)
      else let (ret, s) = os_ioctl W (fdesc s) KVNET_IOCTL_CANCEL_PENDING_READ s in
        if ret = - 1 then (status W KVNET_IOCTL_ERROR s, s) else (status W KVNET_NO_ERROR s, s))"

section \<open>Reading\<close>

abbreviation (input) U_POLLIN :: u16 where "U_POLLIN \<equiv> 0x1"
abbreviation (input) U_POLLERR :: u16 where "U_POLLERR \<equiv> 0x8"
abbreviation (input) U_POLLHUP :: u16 where "U_POLLHUP \<equiv> 0x10"
abbreviation (input) U_POLLNVAL :: u16 where "U_POLLNVAL \<equiv> 0x20"
abbreviation (input) EINTR :: u32 where "EINTR \<equiv> 4"

text \<open>Reading one frame from the TAP device into the caller's first packet.\<close>

definition kvnet_read_tap :: "os \<Rightarrow> uhdr \<Rightarrow> ulib \<Rightarrow> (u32 \<times> uhdr \<times> ulib) option" where
  "kvnet_read_tap W hdr s = do {
     pkt \<leftarrow> (case u_pkt hdr of [] \<Rightarrow> None | p # ps \<Rightarrow> Some p);
     b \<leftarrow> upkts s pkt;
     let (ret, bs) = o_read W (utrace s) (fdesc s) (ucast (up_len b));
     let s = ulog (U_read (fdesc s) (ucast (up_len b)) ret) s;
     if ret = - 1 then Some (status W KVNET_READ_ERROR s, hdr, s)
     else if length (up_data b) < length bs then None
     else
       let b = b\<lparr>up_data := bs @ drop (length bs) (up_data b), up_len := word_of_int ret\<rparr>;
           s = s\<lparr>upkts := (upkts s)(pkt \<mapsto> b)\<rparr>;
           hdr = hdr\<lparr>u_count := 1\<rparr>
       in Some (status W KVNET_NO_ERROR s, hdr, s) }"

text \<open>Reading from \<open>/dev/kvnet\<close>: the driver fills the header and the packets.\<close>

definition kvnet_read_dev :: "os \<Rightarrow> uhdr \<Rightarrow> u32 \<Rightarrow> ulib \<Rightarrow> u32 \<times> uhdr \<times> ulib" where
  "kvnet_read_dev W hdr len s =
     (let (ret, hdr', m) = o_read_hdr W (utrace s) (fdesc s) (ucast len);
          s = ulog (U_read (fdesc s) (ucast len) ret) s in
      if ret = - 1 then (status W KVNET_READ_ERROR s, hdr, s)
      else let s = s\<lparr>upkts := m\<rparr> in (status W KVNET_NO_ERROR s, hdr', s))"

text \<open>
  The loop from the label \<open>try_again\<close>; \<open>None\<close> also when it never ends. The third part of
  \<open>poll\<close>'s answer says whether another thread cancelled the read meanwhile.
\<close>

partial_function (option) kvnet_read_loop ::
    "os \<Rightarrow> uhdr \<Rightarrow> u32 \<Rightarrow> ulib \<Rightarrow> (u32 \<times> uhdr \<times> ulib) option" where
  "kvnet_read_loop W hdr len s =
     (let tmo = (if use_tap_dev s \<noteq> 0 then 1 else - 1);
          (ret, revents, cancelling) = o_poll W (utrace s) (fdesc s) (U_POLLIN OR U_POLLERR) tmo;
          s = ulog (U_poll (fdesc s) (U_POLLIN OR U_POLLERR) tmo ret) s;
          s = (if cancelling \<and> use_tap_dev s \<noteq> 0 then s\<lparr>canceled := 1\<rparr> else s)
      in if 0 < ret then
           (if revents AND (U_POLLERR OR U_POLLHUP OR U_POLLNVAL) \<noteq> 0
            then Some (status W KVNET_READ_CANCELLED s, hdr, s)
            else if revents AND U_POLLIN \<noteq> 0 then
              (if use_tap_dev s \<noteq> 0 then kvnet_read_tap W hdr s
               else Some (kvnet_read_dev W hdr len s))
            else Some (status W KVNET_SELECT_ERROR s, hdr, s))
         else if ret = 0 then
           (if use_tap_dev s \<noteq> 0 then
              (if canceled s \<noteq> 0 then Some (status W KVNET_READ_CANCELLED s, hdr, s)
               else kvnet_read_loop W hdr len s)
            else Some (status W KVNET_SELECT_ERROR s, hdr, s))
         else if ret = - 1 then
           (if kvnet_get_sys_error W s = EINTR then kvnet_read_loop W hdr len s
            else Some (status W KVNET_SELECT_ERROR s, hdr, s))
         else Some (status W KVNET_SELECT_ERROR s, hdr, s))"

lemma short_header: "(ucast len < sizeof_kvnet_header) = (len < 12)" for len :: u32
proof -
  have "unat len < 2 ^ 32" using unsigned_less [of len] by simp
  then show ?thesis
    by (simp add: sizeof_kvnet_header_def word_less_nat_alt unsigned_ucast_eq take_bit_nat_eq_self)
qed

definition kvnet_read ::
    "os \<Rightarrow> uhdr option \<Rightarrow> u32 \<Rightarrow> ulib \<Rightarrow> (u32 \<times> uhdr option \<times> ulib) option" where
  "kvnet_read W hdr len s =
     (case hdr of
        None \<Rightarrow> Some (status W KVNET_INVALID_PARAMETER s, None, s)
      | Some h \<Rightarrow>
          if fdesc s = - 1 \<or> ucast len < sizeof_kvnet_header
          then Some (status W KVNET_INVALID_PARAMETER s, Some h, s)
          else do { (st, h, s) \<leftarrow> kvnet_read_loop W h len s; Some (st, Some h, s) })"

section \<open>Writing\<close>

text \<open>
  The loop over the packets of a TAP write: \<open>len\<close> is not consulted, so a count larger than
  the array of pointers reads beyond it. \<open>Some e\<close> is an early return.
\<close>

fun kvnet_write_loop :: "os \<Rightarrow> uhdr \<Rightarrow> nat list \<Rightarrow> ulib \<Rightarrow> (u32 option \<times> ulib) option" where
  "kvnet_write_loop W hdr [] s = Some (None, s)"
| "kvnet_write_loop W hdr (i # js) s = do {
     pkt \<leftarrow> (if i < length (u_pkt hdr) then Some (u_pkt hdr ! i) else None);
     b \<leftarrow> upkts s pkt;
     let bs = take (unat (up_len b)) (up_data b);
     let ret = o_write W (utrace s) (fdesc s) bs;
     let s = ulog (U_write (fdesc s) bs ret) s;
     if ret = - 1 then Some (Some KVNET_WRITE_ERROR, s) else kvnet_write_loop W hdr js s }"

definition kvnet_write :: "os \<Rightarrow> uhdr option \<Rightarrow> u32 \<Rightarrow> ulib \<Rightarrow> (u32 \<times> ulib) option" where
  "kvnet_write W hdr len s =
     (case hdr of
        None \<Rightarrow> Some (status W KVNET_INVALID_PARAMETER s, s)
      | Some h \<Rightarrow>
          if fdesc s = - 1 \<or> ucast len < sizeof_kvnet_header then Some (status W KVNET_INVALID_PARAMETER s, s)
          else if use_tap_dev s \<noteq> 0 then do {
            (e, s) \<leftarrow> kvnet_write_loop W h [0..<unat (u_count h)] s;
            (case e of
               Some e \<Rightarrow> Some (status W e s, s)
             | None \<Rightarrow> Some (status W KVNET_NO_ERROR s, s)) }
          else
            let ret = o_write_hdr W (utrace s) (fdesc s) (ucast len);
                s = ulog (U_write_hdr (fdesc s) (ucast len) ret) s in
            if ret = - 1 then Some (status W KVNET_WRITE_ERROR s, s)
            else Some (status W KVNET_NO_ERROR s, s))"

section \<open>Driver information\<close>

text \<open>The caller's structure before and after; \<open>None\<close> is the \<open>NULL\<close> pointer.\<close>

record kvnet_info =
  info_major :: u32
  info_minor :: u32
  info_hw_addr :: "u8 list"

definition kvnet_get_mac :: "os \<Rightarrow> u8 list \<Rightarrow> nat \<Rightarrow> ulib \<Rightarrow> u8 list \<times> ulib" where
  "kvnet_get_mac W mac mac_len s =
     (let (sock, s) = os_socket W s in
      if sock = - 1 then (mac, s)
      else let (r, s) = os_ioctl W sock SIOCGIFHWADDR s in
        if r = - 1 then (mac, ulog (U_close sock) s)
        else (take mac_len (o_hwaddr W (utrace s)) @ drop mac_len mac, ulog (U_close sock) s))"

definition kvnet_get_driver_info ::
    "os \<Rightarrow> kvnet_info option \<Rightarrow> ulib \<Rightarrow> u32 \<times> kvnet_info option \<times> ulib" where
  "kvnet_get_driver_info W info s =
     (if use_tap_dev s \<noteq> 0 then
        (case info of
           None \<Rightarrow> (status W KVNET_INVALID_PARAMETER s, None, s)
         | Some i \<Rightarrow>
             let (mac, s) = kvnet_get_mac W (info_hw_addr i) 6 s;
                 i = \<lparr>info_major = KVNET_MAJOR_VERSION, info_minor = KVNET_MINOR_VERSION, info_hw_addr = mac\<rparr>
             in (status W KVNET_NO_ERROR s, Some i, s))
      else
        (case info of
           None \<Rightarrow> (status W KVNET_INVALID_PARAMETER s, None, s)
         | Some i \<Rightarrow>
             if fdesc s = - 1 then (status W KVNET_INVALID_PARAMETER s, Some i, s)
             else let (ret, s) = os_ioctl W (fdesc s) KVNET_IOCTL_GET_INFO s in
               if ret = - 1 then (status W KVNET_IOCTL_ERROR s, Some i, s)
               else let (maj, min, mac) = o_info W (utrace s);
                        i = \<lparr>info_major = maj, info_minor = min, info_hw_addr = mac\<rparr>
                    in (status W KVNET_NO_ERROR s, Some i, s)))"

section \<open>Descriptors\<close>

text \<open>
  The descriptors open, newest first, as the trace shows them; \<open>None\<close> when one is closed
  that is not the newest.
\<close>

fun fds_step :: "ucall \<Rightarrow> int list \<Rightarrow> int list option" where
  "fds_step (U_open f r) fds = Some (if r = - 1 then fds else r # fds)"
| "fds_step (U_socket r) fds = Some (if r = - 1 then fds else r # fds)"
| "fds_step (U_close fd) fds = (if fds \<noteq> [] \<and> hd fds = fd then Some (tl fds) else None)"
| "fds_step e fds = Some fds"

fun fds_run :: "ucall list \<Rightarrow> int list \<Rightarrow> int list option" where
  "fds_run [] fds = Some fds"
| "fds_run (e # es) fds = do { fds \<leftarrow> fds_step e fds; fds_run es fds }"

definition fds_of :: "ulib \<Rightarrow> int list option" where
  "fds_of s = fds_run (utrace s) []"

lemma fds_run_append: "fds_run (xs @ ys) fds = do { fds \<leftarrow> fds_run xs fds; fds_run ys fds }"
  by (induction xs arbitrary: fds) (auto split: bind_splits)

lemma fds_of_ulog [simp]: "fds_of (ulog e s) = do { fds \<leftarrow> fds_of s; fds_step e fds }"
  by (simp add: fds_of_def fds_run_append split: bind_splits)

lemma fds_of_updates [simp]:
  "fds_of (s\<lparr>fdesc := fd\<rparr>) = fds_of s" "fds_of (s\<lparr>canceled := c\<rparr>) = fds_of s"
  "fds_of (s\<lparr>use_tap_dev := t\<rparr>) = fds_of s" "fds_of (s\<lparr>upkts := m\<rparr>) = fds_of s"
  by (simp_all add: fds_of_def)

text \<open>The library holds its descriptor open, and nothing else.\<close>

definition lib_ok :: "ulib \<Rightarrow> bool" where
  "lib_ok s \<longleftrightarrow> fds_of s = Some (if fdesc s = - 1 then [] else [fdesc s])"

named_theorems lib_simps \<open>the library's calls unfolded\<close>

lemmas [lib_simps] = os_open_def os_socket_def os_ioctl_def lib_ok_def Let_def split_def

lemma initial_lib_ok: "lib_ok (initial_lib m)"
  by (simp add: lib_ok_def initial_lib_def fds_of_def)

lemma kvnet_open_ok: "lib_ok s \<Longrightarrow> lib_ok (snd (kvnet_open W tap s))"
  by (auto simp: kvnet_open_def lib_simps)

lemma kvnet_close_ok: "lib_ok s \<Longrightarrow> lib_ok (snd (kvnet_close W s))"
  by (auto simp: kvnet_close_def lib_simps)

lemma kvnet_cancel_read_ok: "lib_ok s \<Longrightarrow> lib_ok (snd (kvnet_cancel_read W s))"
  by (auto simp: kvnet_cancel_read_def lib_simps)

lemma kvnet_get_driver_info_ok: "lib_ok s \<Longrightarrow> lib_ok (snd (snd (kvnet_get_driver_info W info s)))"
  by (auto simp: kvnet_get_driver_info_def kvnet_get_mac_def lib_simps split: option.splits)

text \<open>What opening and closing return.\<close>

lemma kvnet_open_result:
  assumes "lib_ok s" and "fdesc s = - 1"
  shows "KVNET_STATUS (fst (kvnet_open W tap s)) = 0 \<longleftrightarrow> fdesc (snd (kvnet_open W tap s)) \<noteq> - 1"
  using assms by (auto simp: kvnet_open_def lib_simps)

lemma kvnet_close_result:
  assumes "fdesc s \<noteq> - 1"
  shows "KVNET_STATUS (fst (kvnet_close W s)) = 0" "fdesc (snd (kvnet_close W s)) = - 1"
  using assms by (auto simp: kvnet_close_def lib_simps)

text \<open>The library as a resource: opening and closing keep the contract of the driver's pairs.\<close>

interpretation lib_life: lifecycle
  "\<lambda>s. let (st, s) = kvnet_open W tap s in Some (uint (KVNET_STATUS st), s)"
  "\<lambda>s. let (st, s) = kvnet_close W s in Some (uint (KVNET_STATUS st), s)"
  "\<lambda>s. lib_ok s \<and> fdesc s = - 1" "\<lambda>s. lib_ok s \<and> fdesc s \<noteq> - 1"
  for W :: os and tap :: int
proof unfold_locales
  fix s assume s: "lib_ok s \<and> fdesc s = - 1"
  obtain st t where o: "kvnet_open W tap s = (st, t)" by fastforce
  have "lib_ok t" using kvnet_open_ok [of s W tap] s o by simp
  moreover have "(KVNET_STATUS st = 0) = (fdesc t \<noteq> - 1)"
    using kvnet_open_result [of s W tap] s o by simp
  ultimately show "\<exists>r s'. (let (st, s) = kvnet_open W tap s in Some (uint (KVNET_STATUS st), s)) = Some (r, s') \<and>
      (if r = 0 then lib_ok s' \<and> fdesc s' \<noteq> - 1 else lib_ok s' \<and> fdesc s' = - 1)"
    using o by (auto simp: uint_0_iff)
next
  fix s assume s: "lib_ok s \<and> fdesc s \<noteq> - 1"
  then show "\<exists>s'. (let (st, s) = kvnet_close W s in Some (uint (KVNET_STATUS st), s)) = Some (0, s') \<and>
      lib_ok s' \<and> fdesc s' = - 1"
    using kvnet_close_ok [of s W] kvnet_close_result [of s W]
    by (cases "kvnet_close W s") (auto simp: Let_def)
qed

section \<open>The poll loop\<close>

text \<open>One round of \<open>poll\<close>, and whether the loop goes round again after it.\<close>

definition poll_round :: "os \<Rightarrow> ulib \<Rightarrow> int \<times> u16 \<times> ulib" where
  "poll_round W s =
     (let tmo = (if use_tap_dev s \<noteq> 0 then 1 else - 1);
          (ret, revents, cancelling) = o_poll W (utrace s) (fdesc s) (U_POLLIN OR U_POLLERR) tmo;
          s = ulog (U_poll (fdesc s) (U_POLLIN OR U_POLLERR) tmo ret) s
      in (ret, revents, if cancelling \<and> use_tap_dev s \<noteq> 0 then s\<lparr>canceled := 1\<rparr> else s))"

definition poll_again :: "os \<Rightarrow> int \<Rightarrow> ulib \<Rightarrow> bool" where
  "poll_again W ret s \<longleftrightarrow>
     (ret = 0 \<and> use_tap_dev s \<noteq> 0 \<and> canceled s = 0) \<or> (ret = - 1 \<and> kvnet_get_sys_error W s = EINTR)"

definition poll_done :: "os \<Rightarrow> uhdr \<Rightarrow> u32 \<Rightarrow> int \<Rightarrow> u16 \<Rightarrow> ulib \<Rightarrow> (u32 \<times> uhdr \<times> ulib) option" where
  "poll_done W hdr len ret revents s =
     (if 0 < ret \<and> revents AND (U_POLLERR OR U_POLLHUP OR U_POLLNVAL) \<noteq> 0
        \<or> ret = 0 \<and> use_tap_dev s \<noteq> 0
      then Some (status W KVNET_READ_CANCELLED s, hdr, s)
      else if 0 < ret \<and> revents AND U_POLLIN \<noteq> 0 then
        (if use_tap_dev s \<noteq> 0 then kvnet_read_tap W hdr s else Some (kvnet_read_dev W hdr len s))
      else Some (status W KVNET_SELECT_ERROR s, hdr, s))"

text \<open>The body of the loop, for any function in the place of the recursive calls.\<close>

lemma kvnet_read_body:
  "(let tmo = (if use_tap_dev s \<noteq> 0 then 1 else - 1);
          (ret, revents, cancelling) = o_poll W (utrace s) (fdesc s) (U_POLLIN OR U_POLLERR) tmo;
          s = ulog (U_poll (fdesc s) (U_POLLIN OR U_POLLERR) tmo ret) s;
          s = (if cancelling \<and> use_tap_dev s \<noteq> 0 then s\<lparr>canceled := 1\<rparr> else s)
      in if 0 < ret then
           (if revents AND (U_POLLERR OR U_POLLHUP OR U_POLLNVAL) \<noteq> 0
            then Some (status W KVNET_READ_CANCELLED s, hdr, s)
            else if revents AND U_POLLIN \<noteq> 0 then
              (if use_tap_dev s \<noteq> 0 then kvnet_read_tap W hdr s
               else Some (kvnet_read_dev W hdr len s))
            else Some (status W KVNET_SELECT_ERROR s, hdr, s))
         else if ret = 0 then
           (if use_tap_dev s \<noteq> 0 then
              (if canceled s \<noteq> 0 then Some (status W KVNET_READ_CANCELLED s, hdr, s)
               else loop W hdr len s)
            else Some (status W KVNET_SELECT_ERROR s, hdr, s))
         else if ret = - 1 then
           (if kvnet_get_sys_error W s = EINTR then loop W hdr len s
            else Some (status W KVNET_SELECT_ERROR s, hdr, s))
         else Some (status W KVNET_SELECT_ERROR s, hdr, s)) =
   (case poll_round W s of (ret, revents, t) \<Rightarrow>
      if poll_again W ret t then loop W hdr len t else poll_done W hdr len ret revents t)"
proof -
  let ?tmo = "if use_tap_dev s \<noteq> 0 then 1 else - 1 :: int"
  obtain ret revents c where
    p: "o_poll W (utrace s) (fdesc s) (U_POLLIN OR U_POLLERR) ?tmo = (ret, revents, c)" by (metis prod_cases3)
  define t where "t = ulog (U_poll (fdesc s) (U_POLLIN OR U_POLLERR) ?tmo ret) s"
  define u where "u = (if c \<and> use_tap_dev t \<noteq> 0 then t\<lparr>canceled := 1\<rparr> else t)"
  have r: "poll_round W s = (ret, revents, u)"
    by (simp only: poll_round_def p Let_def prod.case t_def u_def)
  consider "0 < ret" | "ret = 0" "use_tap_dev u \<noteq> 0" | "ret = 0" "use_tap_dev u = 0" | "ret = - 1"
    | "ret < 0" "ret \<noteq> - 1" by linarith
  then show ?thesis
    unfolding r prod.case p Let_def t_def [symmetric] u_def [symmetric]
    by cases (simp_all add: poll_again_def poll_done_def)
qed

lemma kvnet_read_loop_round:
  "kvnet_read_loop W hdr len s =
     (case poll_round W s of (ret, revents, t) \<Rightarrow>
        if poll_again W ret t then kvnet_read_loop W hdr len t else poll_done W hdr len ret revents t)"
  by (subst kvnet_read_loop.simps) (rule kvnet_read_body)

text \<open>\<open>polls W n s t\<close>: \<open>n\<close> rounds from \<open>s\<close> that go round again lead to \<open>t\<close>.\<close>

fun polls :: "os \<Rightarrow> nat \<Rightarrow> ulib \<Rightarrow> ulib \<Rightarrow> bool" where
  "polls W 0 s t \<longleftrightarrow> s = t"
| "polls W (Suc n) s t \<longleftrightarrow>
     (case poll_round W s of (ret, revents, u) \<Rightarrow> poll_again W ret u \<and> polls W n u t)"

lemma kvnet_read_loop_polls:
  "polls W n s t \<Longrightarrow> kvnet_read_loop W hdr len s = kvnet_read_loop W hdr len t"
proof (induction n arbitrary: s)
  case (Suc n)
  then show ?case by (subst kvnet_read_loop_round) (auto split: prod.splits)
qed simp

text \<open>The read ends in the first round that does not go round again.\<close>

lemma kvnet_read_loop_ends:
  assumes "polls W n s t" and "poll_round W t = (ret, revents, u)" and "\<not> poll_again W ret u"
  shows "kvnet_read_loop W hdr len s = poll_done W hdr len ret revents u"
  unfolding kvnet_read_loop_polls [OF assms(1)]
  by (subst kvnet_read_loop_round) (simp add: assms(2,3))

text \<open>
  Once the read of a TAP device is cancelled it goes round again only for an interrupted
  system call: one poll later it is over.
\<close>

lemma poll_round_frame:
  "poll_round W s = (ret, revents, t) \<Longrightarrow> use_tap_dev t = use_tap_dev s \<and> fdesc t = fdesc s \<and>
     upkts t = upkts s \<and> (canceled s \<noteq> 0 \<longrightarrow> canceled t \<noteq> 0) \<and> (lib_ok s \<longrightarrow> lib_ok t)"
  by (auto simp: poll_round_def Let_def lib_ok_def split: prod.splits if_splits)

text \<open>
  A read of a TAP device that is cancelled, before the \<open>poll\<close> or during it, returns
  \<open>KVNET_READ_CANCELLED\<close> at the first timeout.
\<close>

theorem kvnet_read_loop_cancelled:
  assumes "use_tap_dev s \<noteq> 0" and "poll_round W s = (ret, revents, t)"
    and "canceled s \<noteq> 0 \<or> canceled t \<noteq> 0" and "ret = 0"
  shows "kvnet_read_loop W hdr len s = Some (status W KVNET_READ_CANCELLED t, hdr, t)"
  using assms poll_round_frame [OF assms(2)]
  by (subst kvnet_read_loop_round) (auto simp: poll_again_def poll_done_def)

lemma kvnet_read_tap_ok:
  "lib_ok s \<Longrightarrow> kvnet_read_tap W hdr s = Some (st, h, t) \<Longrightarrow> lib_ok t \<and> fdesc t = fdesc s"
  by (auto simp: kvnet_read_tap_def lib_ok_def Let_def split: list.splits prod.splits if_splits bind_splits)

lemma lib_ok_neutral [simp]:
  "lib_ok (ulog (U_read fd n r) s) = lib_ok s" "lib_ok (s\<lparr>upkts := m\<rparr>) = lib_ok s"
  "lib_ok (ulog (U_write fd bs r) s) = lib_ok s" "lib_ok (ulog (U_write_hdr fd n r) s) = lib_ok s"
  by (auto simp: lib_ok_def split: bind_splits)

lemma kvnet_read_dev_ok:
  "lib_ok s \<Longrightarrow> kvnet_read_dev W hdr len s = (st, h, t) \<Longrightarrow> lib_ok t \<and> fdesc t = fdesc s"
  by (auto simp: kvnet_read_dev_def Let_def split: prod.splits if_splits)

lemma poll_done_ok:
  assumes "lib_ok s" and "poll_done W hdr len ret revents s = Some (st, h, t)"
  shows "lib_ok t \<and> fdesc t = fdesc s"
  using assms kvnet_read_tap_ok [OF assms(1)] kvnet_read_dev_ok [OF assms(1)]
  by (auto simp: poll_done_def split: if_splits)

text \<open>What every round and the last one keep, the whole loop keeps.\<close>

lemma kvnet_read_loop_keeps:
  assumes "kvnet_read_loop W hdr len s = Some r" and "I s"
    and round: "\<And>s ret revents t. I s \<Longrightarrow> poll_round W s = (ret, revents, t) \<Longrightarrow> I t"
    and final: "\<And>s ret revents st h t. I s \<Longrightarrow> poll_done W hdr len ret revents s = Some (st, h, t) \<Longrightarrow> J t"
  shows "J (snd (snd r))"
proof -
  have "W = W \<and> hdr = hdr \<and> len = len \<and> I s \<longrightarrow> J (snd (snd r))"
  proof (rule kvnet_read_loop.raw_induct [OF _ assms(1),
        where P = "\<lambda>W' hdr' len' s r. W' = W \<and> hdr' = hdr \<and> len' = len \<and> I s \<longrightarrow> J (snd (snd r))",
        unfolded kvnet_read_body])
    fix loop W' hdr' len' s r
    assume IH: "\<And>W' hdr' len' s r. loop W' hdr' len' s = Some r \<Longrightarrow>
        W' = W \<and> hdr' = hdr \<and> len' = len \<and> I s \<longrightarrow> J (snd (snd r))"
      and eq: "(case poll_round W' s of (ret, revents, t) \<Rightarrow>
        if poll_again W' ret t then loop W' hdr' len' t else poll_done W' hdr' len' ret revents t) = Some r"
    obtain ret revents u where u: "poll_round W' s = (ret, revents, u)" by (cases "poll_round W' s")
    show "W' = W \<and> hdr' = hdr \<and> len' = len \<and> I s \<longrightarrow> J (snd (snd r))"
    proof (intro impI)
      assume same: "W' = W \<and> hdr' = hdr \<and> len' = len \<and> I s"
      with round u have I: "I u" by blast
      show "J (snd (snd r))"
      proof (cases "poll_again W' ret u")
        case True
        with eq u I same IH [of W' hdr' len' u r] show ?thesis by simp
      next
        case False
        with eq u same have "poll_done W hdr len ret revents u = Some (fst r, fst (snd r), snd (snd r))" by simp
        with final [OF I] show ?thesis by blast
      qed
    qed
  qed
  with assms(2) show ?thesis by simp
qed

lemma kvnet_read_loop_ok:
  assumes "kvnet_read_loop W hdr len s = Some r" and "lib_ok s"
  shows "lib_ok (snd (snd r)) \<and> fdesc (snd (snd r)) = fdesc s"
proof (rule kvnet_read_loop_keeps [OF assms(1), where I = "\<lambda>t. lib_ok t \<and> fdesc t = fdesc s"])
  show "lib_ok s \<and> fdesc s = fdesc s" using assms(2) by simp
  show "lib_ok u \<and> fdesc u = fdesc s"
    if "lib_ok t \<and> fdesc t = fdesc s" "poll_round W t = (ret, revents, u)" for t ret revents u
    using that poll_round_frame [OF that(2)] by simp
  show "lib_ok u \<and> fdesc u = fdesc s"
    if "lib_ok t \<and> fdesc t = fdesc s" "poll_done W hdr len ret revents t = Some (st, h, u)"
    for t ret revents st h u
    using that poll_done_ok [OF _ that(2)] by simp
qed

lemma kvnet_read_ok:
  assumes "lib_ok s" and "kvnet_read W hdr len s = Some (st, h, t)"
  shows "lib_ok t \<and> fdesc t = fdesc s"
  using assms kvnet_read_loop_ok [OF _ assms(1)]
  by (auto simp: kvnet_read_def split: option.splits if_splits bind_splits)

section \<open>TAP writes\<close>

text \<open>The bytes of the caller's packet at \<open>p\<close>, and the packets that can be followed.\<close>

definition upkt_bytes :: "(addr \<rightharpoonup> upkt) \<Rightarrow> addr \<Rightarrow> u8 list" where
  "upkt_bytes m p = (case m p of None \<Rightarrow> [] | Some b \<Rightarrow> take (unat (up_len b)) (up_data b))"

fun written :: "ucall \<Rightarrow> u8 list list" where
  "written (U_write fd bs r) = [bs]"
| "written e = []"

definition writes_of :: "ucall list \<Rightarrow> u8 list list" where
  "writes_of es = concat (map written es)"

lemma kvnet_write_loop_ok:
  "lib_ok s \<Longrightarrow> kvnet_write_loop W hdr js s = Some (e, t) \<Longrightarrow> lib_ok t \<and> fdesc t = fdesc s"
proof (induction js arbitrary: s)
  case (Cons i js)
  then show ?case by (auto simp: Let_def split: if_splits bind_splits dest!: Cons.IH [rotated])
qed simp

lemma kvnet_write_ok:
  assumes "lib_ok s" and "kvnet_write W hdr len s = Some (st, t)"
  shows "lib_ok t \<and> fdesc t = fdesc s"
  using assms kvnet_write_loop_ok [OF assms(1)]
  by (auto simp: kvnet_write_def Let_def split: option.splits if_splits bind_splits)

lemma kvnet_write_loop_all:
  assumes "\<And>i. i \<in> set js \<Longrightarrow> i < length (u_pkt hdr) \<and> upkts s (u_pkt hdr ! i) \<noteq> None"
    and "\<And>h fd bs. o_write W h fd bs \<noteq> - 1"
  shows "\<exists>t es. kvnet_write_loop W hdr js s = Some (None, t) \<and> utrace t = utrace s @ es \<and>
    writes_of es = map (\<lambda>i. upkt_bytes (upkts s) (u_pkt hdr ! i)) js \<and>
    fdesc t = fdesc s \<and> upkts t = upkts s"
  using assms(1)
proof (induction js arbitrary: s)
  case Nil
  then show ?case by (simp add: writes_of_def)
next
  case (Cons i js)
  then obtain b where b: "i < length (u_pkt hdr)" "upkts s (u_pkt hdr ! i) = Some b" by fastforce
  let ?bs = "take (unat (up_len b)) (up_data b)"
  let ?e = "U_write (fdesc s) ?bs (o_write W (utrace s) (fdesc s) ?bs)"
  from Cons.IH [of "ulog ?e s"] Cons.prems obtain t es where
    t: "kvnet_write_loop W hdr js (ulog ?e s) = Some (None, t)" "utrace t = utrace s @ [?e] @ es"
      "writes_of es = map (\<lambda>i. upkt_bytes (upkts s) (u_pkt hdr ! i)) js" "fdesc t = fdesc s" "upkts t = upkts s"
    by auto
  have "kvnet_write_loop W hdr (i # js) s = Some (None, t)"
    using b t(1) assms(2) by (simp add: Let_def)
  moreover have "writes_of ([?e] @ es) = map (\<lambda>i. upkt_bytes (upkts s) (u_pkt hdr ! i)) (i # js)"
    using t(3) b by (simp add: writes_of_def upkt_bytes_def)
  ultimately show ?case using t(2,4,5) by blast
qed

lemma pkt_known:
  assumes "i < length xs" and "set xs \<subseteq> dom m"
  shows "i < length xs \<and> m (xs ! i) \<noteq> None"
proof -
  from assms have "xs ! i \<in> dom m" using nth_mem by blast
  with assms(1) show ?thesis by auto
qed

text \<open>
  A write to a TAP device writes each of the announced packets, in their order, and
  succeeds when the system takes them all.
\<close>

theorem kvnet_write_tap_all:
  assumes "fdesc s \<noteq> - 1" and "use_tap_dev s \<noteq> 0" and "12 \<le> len"
    and "unat (u_count hdr) \<le> length (u_pkt hdr)" and "set (u_pkt hdr) \<subseteq> dom (upkts s)"
    and "\<And>h fd bs. o_write W h fd bs \<noteq> - 1"
  shows "\<exists>st t es. kvnet_write W (Some hdr) len s = Some (st, t) \<and> KVNET_STATUS st = 0 \<and>
    utrace t = utrace s @ es \<and>
    writes_of es = map (upkt_bytes (upkts s)) (take (unat (u_count hdr)) (u_pkt hdr))"
proof -
  let ?n = "unat (u_count hdr)"
  have ok: "i < length (u_pkt hdr) \<and> upkts s (u_pkt hdr ! i) \<noteq> None" if "i \<in> set [0..<?n]" for i
    by (rule pkt_known) (use that assms(4,5) in simp_all)
  from kvnet_write_loop_all [of "[0..<?n]" hdr s W, OF ok assms(6)] obtain t es where
    t: "kvnet_write_loop W hdr [0..<?n] s = Some (None, t)" "utrace t = utrace s @ es"
      "writes_of es = map (\<lambda>i. upkt_bytes (upkts s) (u_pkt hdr ! i)) [0..<?n]" by blast
  have "map (\<lambda>i. upkt_bytes (upkts s) (u_pkt hdr ! i)) [0..<?n] =
      map (upkt_bytes (upkts s)) (take ?n (u_pkt hdr))"
    using assms(4) by (simp add: list_eq_iff_nth_eq)
  moreover have "kvnet_write W (Some hdr) len s = Some (status W KVNET_NO_ERROR t, t)"
    using assms(1,2) leD [OF assms(3)] t(1) by (simp add: kvnet_write_def short_header)
  ultimately show ?thesis using t(2,3) by auto
qed

text \<open>A count beyond the array of pointers is followed beyond it, whatever \<open>len\<close> says.\<close>

lemma kvnet_write_loop_append:
  "kvnet_write_loop W hdr (xs @ ys) s =
     do { (e, s) \<leftarrow> kvnet_write_loop W hdr xs s;
          if e = None then kvnet_write_loop W hdr ys s else Some (e, s) }"
  by (induction xs arbitrary: s) (auto simp: Let_def split: bind_splits)

text \<open>
  A count larger than the array of pointers makes a write to a TAP device read beyond it: the
  length that is passed along is not compared with the count.
\<close>

theorem kvnet_write_tap_beyond:
  assumes "fdesc s \<noteq> - 1" and "use_tap_dev s \<noteq> 0" and "12 \<le> len"
    and "length (u_pkt hdr) < unat (u_count hdr)" and "set (u_pkt hdr) \<subseteq> dom (upkts s)"
    and "\<And>h fd bs. o_write W h fd bs \<noteq> - 1"
  shows "kvnet_write W (Some hdr) len s = None"
proof -
  let ?n = "length (u_pkt hdr)"
  have ok: "i < length (u_pkt hdr) \<and> upkts s (u_pkt hdr ! i) \<noteq> None" if "i \<in> set [0..<?n]" for i
    by (rule pkt_known) (use that assms(5) in simp_all)
  from kvnet_write_loop_all [of "[0..<?n]" hdr s W, OF ok assms(6)] obtain t where
    t: "kvnet_write_loop W hdr [0..<?n] s = Some (None, t)" by blast
  have "[0..<unat (u_count hdr)] = [0..<?n] @ ?n # [Suc ?n..<unat (u_count hdr)]"
    using assms(4) upt_add_eq_append [of 0 ?n "unat (u_count hdr) - ?n"] by (simp add: upt_conv_Cons)
  then have "kvnet_write_loop W hdr [0..<unat (u_count hdr)] s = None"
    using t by (simp add: kvnet_write_loop_append)
  then show ?thesis using assms(1,2) leD [OF assms(3)] by (simp add: kvnet_write_def short_header)
qed

section \<open>Driver information of a TAP device\<close>

text \<open>
  For a TAP device the library reports success with the caller's bytes in the place of the
  MAC address when it could not ask for it.
\<close>

theorem kvnet_get_driver_info_tap:
  assumes "use_tap_dev s \<noteq> 0" and "o_socket W (utrace s) = - 1"
  shows "\<exists>st t. kvnet_get_driver_info W (Some info) s =
    (st, Some (info\<lparr>info_major := 2, info_minor := 1\<rparr>), t) \<and> KVNET_SUCCEEDED st"
  using assms
  by (simp add: kvnet_get_driver_info_def kvnet_get_mac_def os_socket_def Let_def KVNET_SUCCEEDED_def
      KVNET_MAJOR_VERSION_def KVNET_MINOR_VERSION_def)

section \<open>When a read returns\<close>

text \<open>
  The loop returns what a round that does not go round again gives.
\<close>

lemma kvnet_read_loop_iff:
  "(kvnet_read_loop W hdr len s = Some r) =
   (\<exists>n t ret revents u. polls W n s t \<and> poll_round W t = (ret, revents, u) \<and>
      \<not> poll_again W ret u \<and> poll_done W hdr len ret revents u = Some r)"
proof
  assume "kvnet_read_loop W hdr len s = Some r"
  then show "\<exists>n t ret revents u. polls W n s t \<and> poll_round W t = (ret, revents, u) \<and>
      \<not> poll_again W ret u \<and> poll_done W hdr len ret revents u = Some r"
  proof (rule kvnet_read_loop.raw_induct [rotated,
        where P = "\<lambda>W hdr len s r. \<exists>n t ret revents u. polls W n s t \<and>
          poll_round W t = (ret, revents, u) \<and> \<not> poll_again W ret u \<and>
          poll_done W hdr len ret revents u = Some r",
        unfolded kvnet_read_body])
    fix loop W hdr len s r
    assume IH: "\<And>W hdr len s r. loop W hdr len s = Some r \<Longrightarrow>
        \<exists>n t ret revents u. polls W n s t \<and> poll_round W t = (ret, revents, u) \<and>
          \<not> poll_again W ret u \<and> poll_done W hdr len ret revents u = Some r"
      and eq: "(case poll_round W s of (ret, revents, t) \<Rightarrow>
        if poll_again W ret t then loop W hdr len t else poll_done W hdr len ret revents t) = Some r"
    obtain ret revents u where u: "poll_round W s = (ret, revents, u)" by (cases "poll_round W s")
    show "\<exists>n t ret revents u. polls W n s t \<and> poll_round W t = (ret, revents, u) \<and>
        \<not> poll_again W ret u \<and> poll_done W hdr len ret revents u = Some r"
    proof (cases "poll_again W ret u")
      case True
      with eq u IH [of W hdr len u r] obtain n t ret' revents' w where
        t: "polls W n u t" "poll_round W t = (ret', revents', w)" "\<not> poll_again W ret' w"
          "poll_done W hdr len ret' revents' w = Some r" by auto
      from t(1) u True have "polls W (Suc n) s t" by simp
      with t(2-4) show ?thesis by blast
    next
      case False
      with eq u have "polls W 0 s s" "poll_done W hdr len ret revents u = Some r" by simp_all
      with u False show ?thesis by blast
    qed
  qed
next
  assume "\<exists>n t ret revents u. polls W n s t \<and> poll_round W t = (ret, revents, u) \<and>
      \<not> poll_again W ret u \<and> poll_done W hdr len ret revents u = Some r"
  then show "kvnet_read_loop W hdr len s = Some r" by (metis kvnet_read_loop_ends)
qed

text \<open>
  On the device the only answer of \<open>poll\<close> that makes the read poll again is an interruption by a
  signal. What the operating system has seen, and answers, when it was interrupted \<open>n\<close> times:
\<close>

definition poll_history :: "ulib \<Rightarrow> nat \<Rightarrow> ucall list" where
  "poll_history s n = utrace s @ replicate n (U_poll (fdesc s) (U_POLLIN OR U_POLLERR) (- 1) (- 1))"

definition poll_answer :: "os \<Rightarrow> ulib \<Rightarrow> nat \<Rightarrow> int \<times> u16 \<times> bool" where
  "poll_answer W s n = o_poll W (poll_history s n) (fdesc s) (U_POLLIN OR U_POLLERR) (- 1)"

definition interrupted :: "os \<Rightarrow> ulib \<Rightarrow> nat \<Rightarrow> bool" where
  "interrupted W s n \<longleftrightarrow> fst (poll_answer W s n) = - 1 \<and> o_errno W (poll_history s (Suc n)) = EINTR"

lemma poll_history_Suc:
  "poll_history (ulog (U_poll (fdesc s) (U_POLLIN OR U_POLLERR) (- 1) (- 1)) s) n = poll_history s (Suc n)"
  by (simp add: poll_history_def ulog_def)

lemma poll_round_device:
  "use_tap_dev s = 0 \<Longrightarrow> o_poll W (utrace s) (fdesc s) (U_POLLIN OR U_POLLERR) (- 1) = (ret, ev, c) \<Longrightarrow>
   poll_round W s = (ret, ev, ulog (U_poll (fdesc s) (U_POLLIN OR U_POLLERR) (- 1) ret) s)"
  by (simp add: poll_round_def Let_def)

lemma poll_round_interrupted:
  assumes "use_tap_dev s = 0"
  shows "interrupted W s 0 \<longleftrightarrow> (\<exists>ev. poll_round W s =
      (- 1, ev, ulog (U_poll (fdesc s) (U_POLLIN OR U_POLLERR) (- 1) (- 1)) s)) \<and>
    poll_again W (- 1) (ulog (U_poll (fdesc s) (U_POLLIN OR U_POLLERR) (- 1) (- 1)) s)"
proof -
  obtain ret ev c where p: "o_poll W (utrace s) (fdesc s) (U_POLLIN OR U_POLLERR) (- 1) = (ret, ev, c)"
    by (metis prod_cases3)
  from poll_round_device [OF assms p] p show ?thesis
    by (auto simp: interrupted_def poll_answer_def poll_again_def kvnet_get_sys_error_def)
      (simp_all add: poll_history_def ulog_def)
qed

lemma polls_interrupted:
  assumes "use_tap_dev s = 0" and "\<forall>m<n. interrupted W s m"
  shows "polls W n s (s\<lparr>utrace := poll_history s n\<rparr>)"
  using assms
proof (induction n arbitrary: s)
  case 0
  then show ?case by (simp add: poll_history_def)
next
  case (Suc n)
  let ?s = "ulog (U_poll (fdesc s) (U_POLLIN OR U_POLLERR) (- 1) (- 1)) s"
  have "interrupted W ?s m = interrupted W s (Suc m)" for m
    by (simp only: interrupted_def poll_answer_def poll_history_Suc ulog_simps)
  with Suc have "polls W n ?s (?s\<lparr>utrace := poll_history ?s n\<rparr>)" by simp
  moreover have "interrupted W s 0" using Suc.prems(2) by simp
  moreover have "?s\<lparr>utrace := poll_history ?s n\<rparr> = s\<lparr>utrace := poll_history s (Suc n)\<rparr>"
    unfolding poll_history_Suc by (simp add: ulog_def)
  ultimately show ?case using poll_round_interrupted [OF Suc.prems(1), of W] by auto
qed

lemma poll_round_at:
  assumes "use_tap_dev s = 0" and "poll_answer W s n = (ret, ev, c)"
    and u: "u = s\<lparr>utrace := poll_history s n @ [U_poll (fdesc s) (U_POLLIN OR U_POLLERR) (- 1) ret]\<rparr>"
  shows "poll_round W (s\<lparr>utrace := poll_history s n\<rparr>) = (ret, ev, u)"
    "poll_again W ret u = interrupted W s n"
proof -
  let ?t = "s\<lparr>utrace := poll_history s n\<rparr>"
  show "poll_round W ?t = (ret, ev, u)"
    using poll_round_device [of ?t W ret ev c] assms by (simp add: poll_answer_def ulog_def)
  show "poll_again W ret u = interrupted W s n"
    using assms by (auto simp: poll_again_def interrupted_def kvnet_get_sys_error_def)
      (simp_all add: poll_history_def replicate_append_same)
qed

lemma kvnet_read_in_loop:
  "fdesc s \<noteq> - 1 \<Longrightarrow> 12 \<le> len \<Longrightarrow> kvnet_read W (Some hdr) len s =
     (case kvnet_read_loop W hdr len s of None \<Rightarrow> None | Some (st, h, t) \<Rightarrow> Some (st, Some h, t))"
  using leD [of 12 len] by (simp add: kvnet_read_def short_header split: option.splits)

lemma kvnet_read_at:
  assumes "fdesc s \<noteq> - 1" and "12 \<le> len" and tap: "use_tap_dev s = 0"
    and n: "\<forall>m<n. interrupted W s m" "\<not> interrupted W s n" "poll_answer W s n = (ret, ev, c)"
    and u: "u = s\<lparr>utrace := poll_history s n @ [U_poll (fdesc s) (U_POLLIN OR U_POLLERR) (- 1) ret]\<rparr>"
  shows "kvnet_read W (Some hdr) len s =
    (if 0 < ret \<and> ev AND (U_POLLERR OR U_POLLHUP OR U_POLLNVAL) \<noteq> 0
     then Some (status W KVNET_READ_CANCELLED u, Some hdr, u)
     else if 0 < ret \<and> ev AND U_POLLIN \<noteq> 0
     then (case kvnet_read_dev W hdr len u of (st, h, t) \<Rightarrow> Some (st, Some h, t))
     else Some (status W KVNET_SELECT_ERROR u, Some hdr, u))"
proof -
  note P = poll_round_at [OF tap n(3) u]
  from kvnet_read_loop_ends [OF polls_interrupted [OF tap n(1)] P(1)] P(2) n(2)
  have "kvnet_read_loop W hdr len s = poll_done W hdr len ret ev u" by simp
  moreover have "use_tap_dev u = 0" using tap u by simp
  ultimately show ?thesis
    by (simp only: kvnet_read_in_loop [OF assms(1,2)] poll_done_def) (simp split: prod.splits)
qed

lemma polls_same: "polls W n s t \<Longrightarrow> polls W n s t' \<Longrightarrow> t = t'"
  by (induction n arbitrary: s) auto

lemma kvnet_read_never:
  assumes "fdesc s \<noteq> - 1" and "12 \<le> len" and tap: "use_tap_dev s = 0" and all: "\<forall>n. interrupted W s n"
  shows "kvnet_read W (Some hdr) len s = None"
proof (rule ccontr)
  assume "kvnet_read W (Some hdr) len s \<noteq> None"
  then obtain n t ret ev u where
    r: "polls W n s t" "poll_round W t = (ret, ev, u)" "\<not> poll_again W ret u"
    unfolding kvnet_read_in_loop [OF assms(1,2)] using kvnet_read_loop_iff by (fastforce split: option.splits)
  have t: "t = s\<lparr>utrace := poll_history s n\<rparr>"
    using polls_same [OF r(1)] polls_interrupted [OF tap] all by blast
  obtain ret' ev' c where "poll_answer W s n = (ret', ev', c)" by (metis prod_cases3)
  from poll_round_at [OF tap this refl] r(2,3) t all show False by auto
qed

text \<open>
  (C38) A read of the device returns exactly when \<open>poll\<close> is not interrupted by signals for ever: it
  goes on over every interruption, and at the first other answer it returns. An error event means
  that the read was cancelled; on \<open>POLLIN\<close> it reads from the driver, once; any other answer of
  \<open>poll\<close>, a timeout or an error among them, is a failure of the call.
\<close>

theorem kvnet_read_returns:
  assumes "fdesc s \<noteq> - 1" and "12 \<le> len" and "use_tap_dev s = 0"
  shows "((\<exists>r. kvnet_read W (Some hdr) len s = Some r) \<longleftrightarrow> (\<exists>n. \<not> interrupted W s n)) \<and>
    (\<forall>n ret ev c u. (\<forall>m<n. interrupted W s m) \<longrightarrow> \<not> interrupted W s n \<longrightarrow> poll_answer W s n = (ret, ev, c) \<longrightarrow>
       u = s\<lparr>utrace := poll_history s n @ [U_poll (fdesc s) (U_POLLIN OR U_POLLERR) (- 1) ret]\<rparr> \<longrightarrow>
       kvnet_read W (Some hdr) len s =
         (if 0 < ret \<and> ev AND (U_POLLERR OR U_POLLHUP OR U_POLLNVAL) \<noteq> 0
          then Some (status W KVNET_READ_CANCELLED u, Some hdr, u)
          else if 0 < ret \<and> ev AND U_POLLIN \<noteq> 0
          then (case kvnet_read_dev W hdr len u of (st, h, t) \<Rightarrow> Some (st, Some h, t))
          else Some (status W KVNET_SELECT_ERROR u, Some hdr, u)))"
proof -
  have "\<exists>r. kvnet_read W (Some hdr) len s = Some r" if "\<not> interrupted W s k" for k
  proof -
    from that obtain n where n: "\<forall>m<n. interrupted W s m" "\<not> interrupted W s n"
      using exists_least_iff [of "\<lambda>n. \<not> interrupted W s n"] by blast
    obtain ret ev c where "poll_answer W s n = (ret, ev, c)" by (metis prod_cases3)
    from kvnet_read_at [OF assms n this refl] show ?thesis by (simp split: prod.splits)
  qed
  with kvnet_read_never [OF assms, of W hdr] kvnet_read_at [OF assms] show ?thesis by fastforce
qed

section \<open>Sequences of calls\<close>

datatype libcall =
    Call_open int
  | Call_close
  | Call_cancel
  | Call_read "uhdr option" u32
  | Call_write "uhdr option" u32
  | Call_info "kvnet_info option"

fun lib_call :: "os \<Rightarrow> libcall \<Rightarrow> ulib \<Rightarrow> (u32 \<times> ulib) option" where
  "lib_call W (Call_open tap) s = Some (kvnet_open W tap s)"
| "lib_call W Call_close s = Some (kvnet_close W s)"
| "lib_call W Call_cancel s = Some (kvnet_cancel_read W s)"
| "lib_call W (Call_read hdr len) s = do { (st, _, s) \<leftarrow> kvnet_read W hdr len s; Some (st, s) }"
| "lib_call W (Call_write hdr len) s = kvnet_write W hdr len s"
| "lib_call W (Call_info info) s = (let (st, _, s) = kvnet_get_driver_info W info s in Some (st, s))"

fun lib_calls :: "os \<Rightarrow> libcall list \<Rightarrow> ulib \<Rightarrow> (u32 list \<times> ulib) option" where
  "lib_calls W [] s = Some ([], s)"
| "lib_calls W (c # cs) s = do {
     (st, s) \<leftarrow> lib_call W c s;
     (sts, s) \<leftarrow> lib_calls W cs s;
     Some (st # sts, s) }"

fun_cases lib_calls_ConsE: "lib_calls W (c # cs) s = Some r"

lemma lib_call_ok:
  assumes "lib_ok s" and "lib_call W c s = Some (st, t)"
  shows "lib_ok t"
proof (cases c)
  case (Call_open tap)
  with assms kvnet_open_ok [OF assms(1), of W tap] show ?thesis by simp
next
  case Call_close
  with assms kvnet_close_ok [OF assms(1), of W] show ?thesis by simp
next
  case Call_cancel
  with assms kvnet_cancel_read_ok [OF assms(1), of W] show ?thesis by simp
next
  case (Call_read hdr len)
  with assms show ?thesis by (auto split: bind_splits dest!: kvnet_read_ok [OF assms(1)])
next
  case (Call_write hdr len)
  with assms kvnet_write_ok [OF assms(1)] show ?thesis by auto
next
  case (Call_info info)
  with assms kvnet_get_driver_info_ok [OF assms(1), of W info] show ?thesis by (auto simp: split_def Let_def)
qed

lemma lib_calls_ok: "lib_ok s \<Longrightarrow> lib_calls W cs s = Some (sts, t) \<Longrightarrow> lib_ok t"
proof (induction cs arbitrary: s sts)
  case (Cons c cs)
  from Cons.prems(2) obtain st u sts' where
    "lib_call W c s = Some (st, u)" "lib_calls W cs u = Some (sts', t)"
    by (auto elim: lib_calls_ConsE split: bind_splits)
  with Cons.IH lib_call_ok [OF Cons.prems(1)] show ?case by blast
qed simp

text \<open>
  (C37) Whatever calls a client makes, and however the system answers them, the library holds
  at most one descriptor open, the one in \<open>fdesc\<close>: none leaks on an error path, none is
  closed twice, and none of the helper sockets stays open.
\<close>

theorem library_descriptors:
  assumes "lib_calls W cs (initial_lib m) = Some (sts, s)"
  shows "fds_of s = Some (if fdesc s = - 1 then [] else [fdesc s])"
  using lib_calls_ok [OF initial_lib_ok assms] by (simp add: lib_ok_def)

section \<open>The status format\<close>

lemma low_half_cast: "(ucast (x AND 0xffff) :: u16) = ucast x" for x :: u32
  unfolding low_half by (rule bit_word_eqI) (auto simp: bit_simps)

text \<open>
  A status carries the low halves of the system error and of the library's code: both
  are read back by their macros, and nothing else is in it.
\<close>

theorem status_round_trip:
  "KVNET_STATUS (KVNET_MAKE_STATUS e st) = ucast st \<and>
   KVNET_SYS_ERROR (KVNET_MAKE_STATUS e st) = ucast e \<and>
   ((KVNET_MAKE_STATUS e st = KVNET_MAKE_STATUS e' st') =
     ((ucast e :: u16) = ucast e' \<and> (ucast st :: u16) = ucast st'))"
proof -
  have "KVNET_MAKE_STATUS e st = KVNET_MAKE_STATUS e' st'"
    if "(ucast e :: u16) = ucast e'" "(ucast st :: u16) = ucast st'"
    using that by (simp add: KVNET_MAKE_STATUS_def low_half_cast)
  moreover have "(ucast e :: u16) = ucast e' \<and> (ucast st :: u16) = ucast st'"
    if "KVNET_MAKE_STATUS e st = KVNET_MAKE_STATUS e' st'"
    using that KVNET_STATUS_MAKE KVNET_SYS_ERROR_MAKE by metis
  ultimately show ?thesis by (auto simp: KVNET_STATUS_MAKE KVNET_SYS_ERROR_MAKE)
qed

end
