(* ===== verification/System.thy ===== *)
theory System
  imports Traffic Kvnet_Lib
begin

text \<open>
  The parts put together: packets from the network stack to the reader's buffers, and the
  driver's \<open>poll\<close> with the library's read. The library meets the driver through the kernel,
  which passes the driver's events on to \<open>poll\<close> in user space.
\<close>

section \<open>From the network stack to the reader\<close>

text \<open>
  (C6) Of any packets sent while the interface is up, the queue takes as many as fit its 256
  places and the others are counted as dropped; the next read copies to the caller's
  buffers, in order, the packets that were waiting and those that were sent.
\<close>

theorem xmit_then_read:
  assumes run: "running s a v xs" and up: "up_of s" and ps: "sendable ps s"
  shows "\<exists>t w. send_all K ps s = Some t \<and> gs_vnet t = Some (a, w) \<and>
    tx_dropped (vn_stats (net_dev w)) =
      tx_dropped (vn_stats (net_dev v)) + of_nat (length xs + length ps - 256) \<and>
    (\<forall>len ptrs rest cap. good_header K t len ptrs rest \<longrightarrow> distinct ptrs \<longrightarrow>
       user_ok K (ktrace t) (set ptrs) cap \<longrightarrow> (\<forall>h bs. k_memcpy_toiovec K h bs) \<longrightarrow>
       (\<exists>r t' es. io_read_to_iovec K len t = Some (r, t') \<and> ktrace t' = ktrace t @ es \<and>
          copied es = map (\<lambda>(p, b). fitted cap p b)
            (zip ptrs (take 256 (frames s xs @ map (payload \<circ> snd) ps)))))"
proof -
  note F = running_facts [OF run]
  have cap: "capacity v = 256" using run by (simp add: running_def capacity_def module_cfg_def)
  have dev: "vn_device (net_dev v) \<noteq> NULL"
    using F(1) up by (auto simp: inv_defs dev_wf_def)
  from send_all_bounded_fifo [OF F(1) dev up ps, of K, unfolded cap] obtain t w where
    t: "send_all K ps s = Some t" "drv_inv t a w (take 256 (xs @ map fst ps))"
      "vn_device (net_dev w) = vn_device (net_dev v)"
      "frames t (take 256 (xs @ map fst ps)) = take 256 (frames s xs @ map (payload \<circ> snd) ps)"
      "tx_dropped (vn_stats (net_dev w)) =
        tx_dropped (vn_stats (net_dev v)) + of_nat (length xs + length ps - 256)" by blast
  from t(2) have "gs_vnet t = Some (a, w)" by (simp add: inv_defs)
  moreover have "\<exists>r t' es. io_read_to_iovec K len t = Some (r, t') \<and> ktrace t' = ktrace t @ es \<and>
      copied es = map (\<lambda>(p, b). fitted cap p b) (zip ptrs (take 256 (frames s xs @ map (payload \<circ> snd) ps)))"
    if h: "good_header K t len ptrs rest" "distinct ptrs" "user_ok K (ktrace t) (set ptrs) cap"
      "\<And>h bs. k_memcpy_toiovec K h bs" for len ptrs rest cap
    using read_delivers [OF t(2) _ h] dev unfolding t(3,4) by blast
  ultimately show ?thesis using t(1,5) by blast
qed

section \<open>Poll and the library's read\<close>

text \<open>
  What \<open>poll\<close> reports to a caller that asked for \<open>POLLIN\<close> and \<open>POLLERR\<close>: of the driver's
  events, those asked for and the error events.
\<close>

definition user_events :: "u32 \<Rightarrow> u16" where
  "user_events mk = ucast mk AND (U_POLLIN OR U_POLLERR OR U_POLLHUP)"

definition polled :: "os \<Rightarrow> ulib \<Rightarrow> u32 \<Rightarrow> bool" where
  "polled W u mk \<longleftrightarrow> user_events mk \<noteq> 0 \<and>
     (\<exists>c. o_poll W (utrace u) (fdesc u) (U_POLLIN OR U_POLLERR) (- 1) = (1, user_events mk, c))"

lemma user_events_values:
  "user_events (POLLPRI OR POLLERR) = U_POLLERR"
  "user_events (POLLOUT OR POLLWRNORM) = 0"
  "user_events ((POLLOUT OR POLLWRNORM) OR (POLLIN OR POLLRDNORM)) = U_POLLIN"
  by (simp_all add: user_events_def)

lemma kvnet_read_polled:
  assumes u: "fdesc u \<noteq> - 1" "use_tap_dev u = 0" "12 \<le> len" and p: "polled W u mk"
  shows "kvnet_read W (Some hdr) len u = do {
    let u' = ulog (U_poll (fdesc u) (U_POLLIN OR U_POLLERR) (- 1) 1) u;
    (st, h, t) \<leftarrow> poll_done W hdr len 1 (user_events mk) u';
    Some (st, Some h, t) }"
proof -
  let ?u' = "ulog (U_poll (fdesc u) (U_POLLIN OR U_POLLERR) (- 1) 1) u"
  have "poll_round W u = (1, user_events mk, ?u')"
    using p u(2) by (auto simp: poll_round_def polled_def Let_def)
  then have "kvnet_read_loop W hdr len u = poll_done W hdr len 1 (user_events mk) ?u'"
    by (subst kvnet_read_loop_round) (simp add: poll_again_def)
  then show ?thesis using u(1) leD [OF u(3)] by (simp add: kvnet_read_def short_header Let_def)
qed


text \<open>
  (C15) The reader sleeps exactly while there is nothing for it: with the file open and its
  read not cancelled, the events reported to it are none when the queue is empty, and with
  packets waiting its \<open>poll\<close> returns and the library reads from the driver.
\<close>

theorem reader_wakes_for_data:
  assumes run: "running s a v xs" and live: "io_canceled (io_dev v) = 0"
  shows "\<exists>mk t. io_dev_poll s = Some (mk, t) \<and> (user_events mk = 0 \<longleftrightarrow> xs = []) \<and>
    (\<forall>W u hdr len. fdesc u \<noteq> - 1 \<and> use_tap_dev u = 0 \<and> 12 \<le> len \<and> polled W u mk \<longrightarrow>
       kvnet_read W (Some hdr) len u =
         (case kvnet_read_dev W hdr len (ulog (U_poll (fdesc u) (U_POLLIN OR U_POLLERR) (- 1) 1) u)
          of (st, h, t) \<Rightarrow> Some (st, Some h, t)))"
proof -
  let ?m = "if xs = [] then POLLOUT OR POLLWRNORM else (POLLOUT OR POLLWRNORM) OR (POLLIN OR POLLRDNORM)"
  from io_dev_poll_inv [OF running_facts(1) [OF run]] live obtain t where
    "io_dev_poll s = Some (?m, t)" by auto
  moreover have ev: "user_events ?m = (if xs = [] then 0 else U_POLLIN)"
    by (simp only: user_events_values split: if_splits) simp
  moreover have "kvnet_read W (Some hdr) len u =
      (case kvnet_read_dev W hdr len (ulog (U_poll (fdesc u) (U_POLLIN OR U_POLLERR) (- 1) 1) u)
       of (st, h, t) \<Rightarrow> Some (st, Some h, t))"
    if "fdesc u \<noteq> - 1" "use_tap_dev u = 0" "12 \<le> len" "polled W u ?m" for W u hdr len
  proof -
    have "xs \<noteq> []"
    proof
      assume "xs = []"
      with that(4) [unfolded polled_def ev] show False by simp
    qed
    with kvnet_read_polled [OF that, of hdr] that(2) show ?thesis
      unfolding ev by (simp add: poll_done_def split: prod.splits)
  qed
  ultimately show ?thesis by (intro exI [of _ ?m] exI [of _ t]) (simp split: if_splits)
qed

end
