(* ===== verification/Client.thy ===== *)
theory Client
  imports Kvnet_Lib
begin

text \<open>
  The packet loop of the example program, \<open>pktLoop\<close> of \<open>main.cpp\<close>: it allocates a header and
  64 packets, reads into them through the library until it is told to stop, and frees
  them. \<open>env\<close> holds what it gets from outside: the addresses \<open>malloc\<close> returns (the
  header's first), the contents of new memory, and \<open>can_run_loop\<close>, which another thread
  and a signal handler clear. The array of pointers is a local one: an entry not yet
  assigned is \<open>None\<close>, and using it a fault. \<open>c_live\<close> are the blocks allocated.
\<close>

section \<open>Memory\<close>

definition MAX_PACKETS :: nat where
  "MAX_PACKETS = 64"

definition MAX_DATA_SIZE :: u32 where
  "MAX_DATA_SIZE = 8190"

record env =
  e_malloc :: "nat \<Rightarrow> addr"
  e_fresh :: "nat \<Rightarrow> upkt"
  e_info :: kvnet_info
  e_run :: "ucall list \<Rightarrow> bool"

record client =
  c_lib :: ulib
  c_live :: "addr list"

text \<open>\<open>free\<close> of anything but a live block is a fault.\<close>

definition free_block :: "addr \<Rightarrow> client \<Rightarrow> client option" where
  "free_block p c = (if p \<in> set (c_live c) then Some (c\<lparr>c_live := remove1 p (c_live c)\<rparr>) else None)"

definition new_packet :: "env \<Rightarrow> nat \<Rightarrow> addr \<Rightarrow> client \<Rightarrow> client" where
  "new_packet E i p c = c\<lparr>c_live := p # c_live c,
     c_lib := (c_lib c)\<lparr>upkts := (upkts (c_lib c))(p \<mapsto> e_fresh E i)\<rparr>\<rparr>"

section \<open>The loop\<close>

text \<open>Allocation stops at the first packet for which there is no memory.\<close>

fun alloc_packets :: "env \<Rightarrow> nat list \<Rightarrow> addr option list \<Rightarrow> client \<Rightarrow> nat \<times> addr option list \<times> client" where
  "alloc_packets E [] pkt c = (MAX_PACKETS, pkt, c)"
| "alloc_packets E (i # js) pkt c =
     (let p = e_malloc E (Suc i); pkt = pkt[i := Some p] in
      if p = NULL then (i, pkt, c) else alloc_packets E js pkt (new_packet E i p c))"

fun renew_lengths :: "addr option list \<Rightarrow> ulib \<Rightarrow> ulib option" where
  "renew_lengths [] s = Some s"
| "renew_lengths (q # pkt) s = do {
     p \<leftarrow> q;
     b \<leftarrow> upkts s p;
     renew_lengths pkt (s\<lparr>upkts := (upkts s)(p \<mapsto> b\<lparr>up_len := MAX_DATA_SIZE\<rparr>)\<rparr>) }"

text \<open>The lengths printed after a read: the loop runs up to the count in the header.\<close>

fun packet_lengths :: "addr option list \<Rightarrow> nat list \<Rightarrow> ulib \<Rightarrow> u32 list option" where
  "packet_lengths pkt [] s = Some []"
| "packet_lengths pkt (i # js) s = do {
     q \<leftarrow> (if i < length pkt then Some (pkt ! i) else None);
     p \<leftarrow> q;
     b \<leftarrow> upkts s p;
     ls \<leftarrow> packet_lengths pkt js s;
     Some (up_len b # ls) }"

definition loop_len :: u32 where
  "loop_len = ucast sizeof_kvnet_header + (of_nat MAX_PACKETS - 1) * ucast sizeof_KVNET_PTR"

partial_function (option) read_packets ::
    "env \<Rightarrow> os \<Rightarrow> addr option list \<Rightarrow> client \<Rightarrow> client option" where
  "read_packets E W pkt c =
     (if e_run E (utrace (c_lib c)) then do {
        s \<leftarrow> renew_lengths pkt (c_lib c);
        let hdr = \<lparr>u_count = of_nat MAX_PACKETS, u_pkt = map the pkt\<rparr>;
        (st, h, s) \<leftarrow> kvnet_read W (Some hdr) loop_len s;
        let c = c\<lparr>c_lib := s\<rparr>;
        if \<not> KVNET_SUCCEEDED st then Some c
        else do {
          h \<leftarrow> h;
          _ \<leftarrow> packet_lengths pkt [0..<unat (u_count h)] s;
          read_packets E W pkt c } }
      else Some c)"

text \<open>The cleanup looks at all 64 pointers.\<close>

fun free_packets :: "addr option list \<Rightarrow> client \<Rightarrow> client option" where
  "free_packets [] c = Some c"
| "free_packets (q # pkt) c = do {
     p \<leftarrow> q;
     c \<leftarrow> (if p \<noteq> NULL then free_block p c else Some c);
     free_packets pkt c }"

definition pktLoop :: "env \<Rightarrow> os \<Rightarrow> client \<Rightarrow> client option" where
  "pktLoop E W c =
     (let (st, _, s) = kvnet_get_driver_info W (Some (e_info E)) (c_lib c);
          c = c\<lparr>c_lib := s\<rparr> in
      if \<not> KVNET_SUCCEEDED st then Some c
      else let hdr = e_malloc E 0 in
        if hdr = NULL then Some c
        else
          let c = c\<lparr>c_live := hdr # c_live c\<rparr>;
              (i, pkt, c) = alloc_packets E [0..<MAX_PACKETS] (replicate MAX_PACKETS None) c in
          do {
            c \<leftarrow> (if i \<noteq> MAX_PACKETS then Some c else read_packets E W pkt c);
            c \<leftarrow> free_packets pkt c;
            if hdr \<noteq> NULL then free_block hdr c else Some c })"

section \<open>What it allocates and frees\<close>

text \<open>The array after \<open>n\<close> successful allocations, and after one more that failed.\<close>

definition pointers :: "env \<Rightarrow> nat \<Rightarrow> addr list" where
  "pointers E n = map (\<lambda>i. e_malloc E (Suc i)) [0..<n]"

lemma length_pointers [simp]: "length (pointers E n) = n"
  by (simp add: pointers_def)

lemma pointers_Suc: "pointers E (Suc n) = pointers E n @ [e_malloc E (Suc n)]"
  by (simp add: pointers_def)

definition array_of :: "addr list \<Rightarrow> addr option list" where
  "array_of ps = map Some ps @ replicate (MAX_PACKETS - length ps) None"

lemma array_of_update:
  "length ps < MAX_PACKETS \<Longrightarrow> (array_of ps)[length ps := Some p] = array_of (ps @ [p])"
  by (simp add: array_of_def list_update_append Suc_diff_Suc [symmetric])

text \<open>The program when the packets \<open>js\<close> have been allocated.\<close>

definition grown :: "env \<Rightarrow> nat list \<Rightarrow> client \<Rightarrow> client" where
  "grown E js = fold (\<lambda>i. new_packet E i (e_malloc E (Suc i))) js"

lemma grown_parts:
  "c_live (grown E js c) = rev (map (\<lambda>i. e_malloc E (Suc i)) js) @ c_live c"
  "c_lib (grown E js c) = (c_lib c)\<lparr>upkts := fold (\<lambda>i m. m(e_malloc E (Suc i) \<mapsto> e_fresh E i)) js (upkts (c_lib c))\<rparr>"
  by (induction js arbitrary: c) (simp_all add: grown_def new_packet_def)

text \<open>Allocating from packet \<open>n\<close> on, when the packets before \<open>m\<close> can be allocated.\<close>

lemma alloc_packets_upto:
  assumes "n \<le> m" and "m \<le> MAX_PACKETS" and "\<And>i. i < m \<Longrightarrow> e_malloc E (Suc i) \<noteq> NULL"
  shows "alloc_packets E [n..<MAX_PACKETS] (array_of (pointers E n)) c =
    alloc_packets E [m..<MAX_PACKETS] (array_of (pointers E m)) (grown E [n..<m] c)"
  using assms
proof (induction "m - n" arbitrary: n c)
  case 0
  then show ?case by (simp add: grown_def)
next
  case (Suc k)
  let ?p = "e_malloc E (Suc n)"
  from Suc.hyps(2) Suc.prems have n: "n < m" "n < MAX_PACKETS" "k = m - Suc n" by simp_all
  have "(array_of (pointers E n))[n := Some ?p] = array_of (pointers E (Suc n))"
    using array_of_update [of "pointers E n" ?p] n(2) by (simp add: pointers_Suc)
  then have "alloc_packets E [n..<MAX_PACKETS] (array_of (pointers E n)) c =
      alloc_packets E [Suc n..<MAX_PACKETS] (array_of (pointers E (Suc n))) (new_packet E n ?p c)"
    using n Suc.prems(3) by (simp add: upt_conv_Cons Let_def)
  with Suc.hyps(1) [OF n(3) _ Suc.prems(2,3), of "new_packet E n ?p c"] n show ?case
    by (simp add: grown_def upt_conv_Cons)
qed

text \<open>Freeing an array of distinct live pointers, some of which may be \<open>NULL\<close>.\<close>

lemma free_packets_all:
  assumes "distinct ps" and "set ps - {NULL} \<subseteq> set (c_live c)" and "distinct (c_live c)"
  shows "\<exists>c'. free_packets (map Some ps) c = Some c' \<and> c_live c' = filter (\<lambda>p. p \<notin> set ps - {NULL}) (c_live c)"
  using assms
proof (induction ps arbitrary: c)
  case Nil
  then show ?case by simp
next
  case (Cons p ps)
  show ?case
  proof (cases "p = NULL")
    case True
    with Cons.IH [of c] Cons.prems show ?thesis by (auto intro!: filter_cong)
  next
    case False
    let ?c = "c\<lparr>c_live := remove1 p (c_live c)\<rparr>"
    have live: "p \<in> set (c_live c)" using Cons.prems(2) False by auto
    have "c_live ?c = filter (\<lambda>q. q \<noteq> p) (c_live c)"
      using Cons.prems(3) by (simp add: distinct_remove1_removeAll removeAll_filter_not_eq eq_commute)
    with Cons.IH [of ?c] Cons.prems False obtain c' where
      "free_packets (map Some ps) ?c = Some c'"
      "c_live c' = filter (\<lambda>q. q \<notin> set ps - {NULL}) (filter (\<lambda>q. q \<noteq> p) (c_live c))" by auto
    with False live show ?thesis
      by (auto simp: free_block_def intro!: filter_cong)
  qed
qed

lemma free_packets_lib:
  "free_packets pkt c = Some c' \<Longrightarrow> c' = c\<lparr>c_live := c_live c'\<rparr>"
  by (induction pkt arbitrary: c) (fastforce simp: free_block_def split: if_splits bind_splits)+

lemma free_packets_unset: "None \<in> set pkt \<Longrightarrow> free_packets pkt c = None"
  by (induction pkt arbitrary: c) (auto split: bind_splits)

lemma read_packets_live:
  assumes "read_packets E W pkt c = Some c'"
  shows "c_live c' = c_live c"
  proof (rule read_packets.raw_induct [OF _ assms, where P = "\<lambda>E W pkt c c'. c_live c' = c_live c"])
  fix loop :: "env \<Rightarrow> os \<Rightarrow> addr option list \<Rightarrow> client \<Rightarrow> client option" and E W pkt c c'
  assume IH: "\<And>E W pkt c c'. loop E W pkt c = Some c' \<Longrightarrow> c_live c' = c_live c"
    and eq: "(if e_run E (utrace (c_lib c)) then do {
        s \<leftarrow> renew_lengths pkt (c_lib c);
        let hdr = \<lparr>u_count = of_nat MAX_PACKETS, u_pkt = map the pkt\<rparr>;
        (st, h, s) \<leftarrow> kvnet_read W (Some hdr) loop_len s;
        let c = c\<lparr>c_lib := s\<rparr>;
        if \<not> KVNET_SUCCEEDED st then Some c
        else do {
          h \<leftarrow> h;
          _ \<leftarrow> packet_lengths pkt [0..<unat (u_count h)] s;
          loop E W pkt c } }
      else Some c) = Some c'"
  then show "c_live c' = c_live c"
    by (auto simp: Let_def dest!: IH split: if_splits bind_splits)
qed

text \<open>
  Where the loop finds the program when \<open>m\<close> packets could be allocated: the driver's version has been
  asked for, and the header and the packets are allocated, with what new memory contains.
\<close>

definition at_loop :: "env \<Rightarrow> os \<Rightarrow> nat \<Rightarrow> client \<Rightarrow> client" where
  "at_loop E W m c =
     (let l = snd (snd (kvnet_get_driver_info W (Some (e_info E)) (c_lib c))) in
      \<lparr>c_lib = l\<lparr>upkts := fold (\<lambda>i m. m(e_malloc E (Suc i) \<mapsto> e_fresh E i)) [0..<m] (upkts l)\<rparr>,
       c_live = rev (pointers E m) @ e_malloc E 0 # c_live c\<rparr>)"

lemma pktLoop_starts:
  assumes "KVNET_SUCCEEDED (fst (kvnet_get_driver_info W (Some (e_info E)) (c_lib c)))"
    and "e_malloc E 0 \<noteq> NULL" and "m \<le> MAX_PACKETS" and "\<And>i. i < m \<Longrightarrow> e_malloc E (Suc i) \<noteq> NULL"
  shows "pktLoop E W c =
    (case alloc_packets E [m..<MAX_PACKETS] (array_of (pointers E m)) (at_loop E W m c) of (i, pkt, c) \<Rightarrow>
       do {
         c \<leftarrow> (if i \<noteq> MAX_PACKETS then Some c else read_packets E W pkt c);
         c \<leftarrow> free_packets pkt c;
         free_block (e_malloc E 0) c })"
proof -
  obtain st inf s where g: "kvnet_get_driver_info W (Some (e_info E)) (c_lib c) = (st, inf, s)"
    by (metis prod_cases3)
  let ?c = "c\<lparr>c_lib := s, c_live := e_malloc E 0 # c_live c\<rparr>"
  have a: "array_of (pointers E 0) = replicate MAX_PACKETS None" by (simp add: array_of_def pointers_def)
  have "grown E [0..<m] ?c = at_loop E W m c"
    using grown_parts [of E "[0..<m]" ?c] g by (simp add: at_loop_def pointers_def)
  with alloc_packets_upto [of 0 m E ?c] assms(3,4)
  have "alloc_packets E [0..<MAX_PACKETS] (replicate MAX_PACKETS None) ?c =
      alloc_packets E [m..<MAX_PACKETS] (array_of (pointers E m)) (at_loop E W m c)"
    unfolding a by simp
  with g assms(1,2) show ?thesis by (simp add: pktLoop_def Let_def)
qed

lemma at_loop_live: "c_live (at_loop E W m c) = rev (pointers E m) @ e_malloc E 0 # c_live c"
  by (simp add: at_loop_def Let_def)

lemma cleanup_all:
  assumes "distinct (e_malloc E 0 # ps)" and "NULL \<noteq> e_malloc E 0" and "NULL \<notin> set ps"
    and "c_live c = rev ps @ [e_malloc E 0]" and "qs = ps \<or> qs = ps @ [NULL]"
  shows "do { c \<leftarrow> free_packets (map Some qs) c; free_block (e_malloc E 0) c } = Some (c\<lparr>c_live := []\<rparr>)"
proof -
  from assms have "distinct qs" "set qs - {NULL} \<subseteq> set (c_live c)" "distinct (c_live c)" by auto
  from free_packets_all [OF this] obtain c' where
    c': "free_packets (map Some qs) c = Some c'" "c_live c' = filter (\<lambda>p. p \<notin> set qs - {NULL}) (c_live c)"
    by blast
  have "filter (\<lambda>p. p \<notin> set qs - {NULL}) (rev ps) = []" using assms(3,5) by (auto simp: filter_empty_conv)
  then have "c_live c' = [e_malloc E 0]" using c'(2) assms(1,2,4,5) by auto
  with c'(1) free_packets_lib [OF c'(1)] show ?thesis by (simp add: free_block_def)
qed

text \<open>
  (C39) When there is memory for the header and all packets, the program does what its reading loop
  does, from the state after the allocations (\<open>at_loop\<close>): if the loop faults or never ends so does
  the program; and however it ends, told to stop or after a failed read, the cleanup then frees
  every block that was allocated, each once, and changes nothing else.
\<close>

theorem client_frees_all:
  assumes "KVNET_SUCCEEDED (fst (kvnet_get_driver_info W (Some (e_info E)) (c_lib c)))"
    and "distinct (e_malloc E 0 # pointers E 64)" and "NULL \<notin> set (e_malloc E 0 # pointers E 64)"
    and "c_live c = []"
  shows "pktLoop E W c =
    map_option (\<lambda>c. c\<lparr>c_live := []\<rparr>) (read_packets E W (map Some (pointers E 64)) (at_loop E W 64 c))"
proof -
  have n: "e_malloc E (Suc i) \<noteq> NULL" if "i < 64" for i
    using assms(3) that by (auto simp: pointers_def)
  from pktLoop_starts [OF assms(1), of 64] assms(3) n
  have eq: "pktLoop E W c = do {
      c \<leftarrow> read_packets E W (map Some (pointers E 64)) (at_loop E W 64 c);
      c \<leftarrow> free_packets (map Some (pointers E 64)) c;
      free_block (e_malloc E 0) c }"
    by (fastforce simp: MAX_PACKETS_def array_of_def)
  show ?thesis
  proof (cases "read_packets E W (map Some (pointers E 64)) (at_loop E W 64 c)")
    case None
    then show ?thesis by (simp add: eq)
  next
    case (Some c2)
    with read_packets_live [OF Some] assms(4) have "c_live c2 = rev (pointers E 64) @ [e_malloc E 0]"
      by (simp add: at_loop_live)
    with cleanup_all [of E "pointers E 64" c2 "pointers E 64"] assms(2,3) Some show ?thesis
      by (simp add: eq)
  qed
qed

text \<open>
  (C40) When there is no memory for packet \<open>i\<close>, the cleanup reads the pointers of the packets
  after it, which were never set: it faults, unless that packet was the last.
\<close>

theorem client_alloc_failure:
  assumes "KVNET_SUCCEEDED (fst (kvnet_get_driver_info W (Some (e_info E)) (c_lib c)))"
    and "distinct (e_malloc E 0 # pointers E i)" and "NULL \<notin> set (e_malloc E 0 # pointers E i)"
    and "c_live c = []" and "i < 64" and "e_malloc E (Suc i) = NULL"
  shows "if i < 63 then pktLoop E W c = None else \<exists>c'. pktLoop E W c = Some c' \<and> c_live c' = []"
proof -
  have n: "e_malloc E (Suc j) \<noteq> NULL" if "j < i" for j
    using assms(3) that by (auto simp: pointers_def)
  let ?c1 = "at_loop E W i c"
  from pktLoop_starts [OF assms(1), of i] assms(3,5) n
  have start: "pktLoop E W c =
      (case alloc_packets E [i..<MAX_PACKETS] (array_of (pointers E i)) ?c1 of (i, pkt, c) \<Rightarrow>
       do {
         c \<leftarrow> (if i \<noteq> MAX_PACKETS then Some c else read_packets E W pkt c);
         c \<leftarrow> free_packets pkt c;
         free_block (e_malloc E 0) c })"
    by (fastforce simp: MAX_PACKETS_def)
  have "alloc_packets E [i..<MAX_PACKETS] (array_of (pointers E i)) ?c1 =
      (i, array_of (pointers E i @ [NULL]), ?c1)"
    using assms(5,6) array_of_update [of "pointers E i" NULL]
    by (simp add: MAX_PACKETS_def upt_conv_Cons Let_def)
  then have eq: "pktLoop E W c = do {
      c \<leftarrow> free_packets (array_of (pointers E i @ [NULL])) ?c1;
      free_block (e_malloc E 0) c }"
    using assms(5) by (simp add: start MAX_PACKETS_def)
  show ?thesis
  proof (cases "i < 63")
    case True
    then have "None \<in> set (array_of (pointers E i @ [NULL]))" by (simp add: array_of_def MAX_PACKETS_def)
    with True show ?thesis by (simp add: eq free_packets_unset)
  next
    case False
    with assms(5) have "array_of (pointers E i @ [NULL]) = map Some (pointers E i @ [NULL])"
      by (simp add: array_of_def MAX_PACKETS_def)
    with cleanup_all [of E "pointers E i" ?c1 "pointers E i @ [NULL]"] assms(2,3,4) at_loop_live [of E W i c] False
    show ?thesis by (simp add: eq)
  qed
qed

end
