(* ===== verification/Lib_Calls.thy ===== *)
theory Lib_Calls
  imports Kvnet_Lib
begin

text \<open>
  What calls the library makes of the operating system while it works on \<open>/dev/kvnet\<close>: it
  opens the device when it has no descriptor, every other call is on that descriptor, and
  what it records is what the system answered.
\<close>

fun device_call :: "os \<Rightarrow> ucall list \<Rightarrow> ucall \<Rightarrow> bool" where
  "device_call W h (U_open f r) \<longleftrightarrow> f = Kvnet_file \<and> fds_run h [] = Some [] \<and> r = o_open W h f"
| "device_call W h (U_socket r) \<longleftrightarrow> False"
| "device_call W h (U_close fd) \<longleftrightarrow> fds_run h [] = Some [fd]"
| "device_call W h (U_ioctl fd cmd r) \<longleftrightarrow> fds_run h [] = Some [fd] \<and> r = o_ioctl W h fd cmd"
| "device_call W h (U_poll fd ev tmo r) \<longleftrightarrow> fds_run h [] = Some [fd] \<and> r = fst (o_poll W h fd ev tmo)"
| "device_call W h (U_read fd n r) \<longleftrightarrow> fds_run h [] = Some [fd] \<and> r = fst (o_read_hdr W h fd n)"
| "device_call W h (U_write fd bs r) \<longleftrightarrow> False"
| "device_call W h (U_write_hdr fd n r) \<longleftrightarrow> fds_run h [] = Some [fd] \<and> r = o_write_hdr W h fd n"

definition device_run :: "os \<Rightarrow> ucall list \<Rightarrow> bool" where
  "device_run W h \<longleftrightarrow> (\<forall>i < length h. device_call W (take i h) (h ! i))"

lemma device_run_Nil [simp]: "device_run W []"
  by (simp add: device_run_def)

lemma device_run_snoc [simp]: "device_run W (h @ [e]) \<longleftrightarrow> device_run W h \<and> device_call W h e"
  by (auto simp: device_run_def less_Suc_eq nth_append)

text \<open>The library on the device: not in its TAP mode, its descriptor the one that is open.\<close>

definition on_device :: "os \<Rightarrow> ulib \<Rightarrow> bool" where
  "on_device W s \<longleftrightarrow> lib_ok s \<and> use_tap_dev s = 0 \<and> device_run W (utrace s)"

lemma on_device_initial: "on_device W (initial_lib m)"
  using initial_lib_ok by (simp add: on_device_def) (simp add: initial_lib_def)

lemma on_device_upkts [simp]: "on_device W (s\<lparr>upkts := m\<rparr>) = on_device W s"
  by (simp add: on_device_def)

lemma on_device_fds: "on_device W s \<Longrightarrow> fds_run (utrace s) [] = Some (if fdesc s = - 1 then [] else [fdesc s])"
  by (simp add: on_device_def lib_ok_def fds_of_def)

lemma on_device_open: "on_device W s \<Longrightarrow> on_device W (snd (kvnet_open W 0 s))"
  using on_device_fds [of W s] kvnet_open_ok [of s W 0]
  by (auto simp: on_device_def kvnet_open_def os_open_def Let_def ulog_def)

lemma on_device_close: "on_device W s \<Longrightarrow> on_device W (snd (kvnet_close W s))"
  using on_device_fds [of W s] kvnet_close_ok [of s W]
  by (auto simp: on_device_def kvnet_close_def Let_def ulog_def)

lemma on_device_cancel: "on_device W s \<Longrightarrow> on_device W (snd (kvnet_cancel_read W s))"
  using on_device_fds [of W s] kvnet_cancel_read_ok [of s W]
  by (auto simp: on_device_def kvnet_cancel_read_def os_ioctl_def Let_def)

lemma on_device_info: "on_device W s \<Longrightarrow> on_device W (snd (snd (kvnet_get_driver_info W info s)))"
  using on_device_fds [of W s] kvnet_get_driver_info_ok [of s W info]
  by (auto simp: on_device_def kvnet_get_driver_info_def os_ioctl_def Let_def split: option.splits prod.splits)

lemma on_device_poll:
  assumes "on_device W s" and "fdesc s \<noteq> - 1" and "poll_round W s = (ret, revents, t)"
  shows "on_device W t" "fdesc t = fdesc s"
  using on_device_fds [OF assms(1)] poll_round_frame [OF assms(3)] assms
  by (auto simp: on_device_def poll_round_def Let_def split: prod.splits)

lemma on_device_ulog:
  "on_device W s \<Longrightarrow> device_call W (utrace s) e \<Longrightarrow> lib_ok (ulog e s) \<Longrightarrow> on_device W (ulog e s)"
  by (simp add: on_device_def)

lemma on_device_read_dev:
  assumes s: "on_device W s" "fdesc s \<noteq> - 1" and r: "kvnet_read_dev W hdr len s = (st, h, t)"
  shows "on_device W t"
proof -
  have "on_device W (ulog (U_read (fdesc s) (ucast len) (fst (o_read_hdr W (utrace s) (fdesc s) (ucast len)))) s)"
    using on_device_fds [OF s(1)] s by (intro on_device_ulog) (simp_all add: on_device_def)
  with r show ?thesis by (auto simp: kvnet_read_dev_def Let_def split: prod.splits if_splits)
qed

lemma poll_done_device:
  assumes r: "poll_done W hdr len ret revents s = Some (st, h, t)" and tap: "use_tap_dev s = 0"
  shows "t = s \<or> kvnet_read_dev W hdr len s = (st, h, t)"
proof -
  define e where "e \<longleftrightarrow> 0 < ret \<and> revents AND (U_POLLERR OR U_POLLHUP OR U_POLLNVAL) \<noteq> 0"
  define i where "i \<longleftrightarrow> 0 < ret \<and> revents AND U_POLLIN \<noteq> 0"
  from r show ?thesis
    unfolding poll_done_def e_def [symmetric] i_def [symmetric] tap by (cases e; cases i) simp_all
qed

lemma on_device_poll_done:
  assumes s: "on_device W s" "fdesc s \<noteq> - 1" and r: "poll_done W hdr len ret revents s = Some (st, h, t)"
  shows "on_device W t"
proof -
  have "t = s \<or> kvnet_read_dev W hdr len s = (st, h, t)"
    using poll_done_device [OF r] s(1) by (simp add: on_device_def)
  with on_device_read_dev [OF s] s(1) show ?thesis by blast
qed

lemma on_device_read:
  assumes s: "on_device W s" and r: "kvnet_read W hdr len s = Some (st, h, t)"
  shows "on_device W t"
proof (cases "fdesc s = - 1")
  case True
  with s r show ?thesis by (auto simp: kvnet_read_def split: option.splits)
next
  case False
  have "on_device W (snd (snd q))" if "kvnet_read_loop W hd len s = Some q" for hd q
  proof (rule kvnet_read_loop_keeps [OF that, where I = "\<lambda>t. on_device W t \<and> fdesc t \<noteq> - 1"])
    show "on_device W s \<and> fdesc s \<noteq> - 1" using s False by blast
    show "on_device W u \<and> fdesc u \<noteq> - 1"
      if "on_device W t \<and> fdesc t \<noteq> - 1" "poll_round W t = (ret, revents, u)" for t ret revents u
      using on_device_poll [OF _ _ that(2)] that(1) by simp
    show "on_device W u"
      if "on_device W t \<and> fdesc t \<noteq> - 1" "poll_done W hd len ret revents t = Some (st, h, u)"
      for t ret revents st h u
      using on_device_poll_done [OF _ _ that(2)] that(1) by blast
  qed
  with s r show ?thesis by (fastforce simp: kvnet_read_def split: option.splits if_splits bind_splits)
qed

lemma on_device_write:
  assumes s: "on_device W s" and r: "kvnet_write W hdr len s = Some (st, t)"
  shows "on_device W t"
proof -
  have "lib_ok t" using kvnet_write_ok [OF _ r] s by (simp add: on_device_def)
  with on_device_fds [OF s] s r show ?thesis
    by (auto simp: on_device_def kvnet_write_def Let_def split: option.splits if_splits)
qed

end
