(* ===== verification/Client_Threads.thy ===== *)
theory Client_Threads
  imports Client Lib_Calls
begin

text \<open>
  The threads of the example program (\<open>main.cpp\<close>): \<open>main\<close>, the packet loop that it starts,
  and the signal handler, which may run at any time on either thread, also within another
  run of itself. They share \<open>can_run_loop\<close> and the library's globals. A step is one access to
  what is shared: a test, an assignment or a call of the library. A thread goes on once the
  handlers that interrupted it have returned.
\<close>

section \<open>Programs and states\<close>

datatype cancel_pc = C_test | C_clear | C_call

datatype main_pc = M_open | M_run | M_create | M_wait | M_cancel cancel_pc | M_join | M_close | M_exit

text \<open>The loop knows its array of pointers once it has allocated the packets.\<close>

datatype loop_pc =
    L_none
  | L_start
  | L_test "addr option list"
  | L_read "addr option list"
  | L_cleanup "addr option list"
  | L_end

record prog =
  can_run_loop :: bool
  p_client :: client
  p_main :: main_pc
  p_loop :: loop_pc
  main_frames :: "cancel_pc list"
  loop_frames :: "cancel_pc list"

definition lib_of :: "prog \<Rightarrow> ulib" where
  "lib_of s = c_lib (p_client s)"

definition with_lib :: "ulib \<Rightarrow> prog \<Rightarrow> prog" where
  "with_lib l s = s\<lparr>p_client := (p_client s)\<lparr>c_lib := l\<rparr>\<rparr>"

lemma lib_of_simps [simp]:
  "lib_of (with_lib l s) = l" "lib_of (s\<lparr>can_run_loop := b\<rparr>) = lib_of s"
  "lib_of (s\<lparr>p_main := m\<rparr>) = lib_of s" "lib_of (s\<lparr>p_loop := k\<rparr>) = lib_of s"
  "lib_of (s\<lparr>main_frames := fs\<rparr>) = lib_of s" "lib_of (s\<lparr>loop_frames := gs\<rparr>) = lib_of s"
  "lib_of (s\<lparr>p_client := c\<rparr>) = c_lib c"
  by (simp_all add: lib_of_def with_lib_def)

lemma with_lib_simps [simp]:
  "can_run_loop (with_lib l s) = can_run_loop s" "p_main (with_lib l s) = p_main s"
  "p_loop (with_lib l s) = p_loop s" "main_frames (with_lib l s) = main_frames s"
  "loop_frames (with_lib l s) = loop_frames s" "c_live (p_client (with_lib l s)) = c_live (p_client s)"
  by (simp_all add: with_lib_def)

section \<open>Steps\<close>

text \<open>\<open>cancel_loop\<close>: what is left of it, if anything.\<close>

fun cancel_step :: "os \<Rightarrow> cancel_pc \<Rightarrow> prog \<Rightarrow> cancel_pc option \<times> prog" where
  "cancel_step W C_test s = (if \<not> can_run_loop s then (None, s) else (Some C_clear, s))"
| "cancel_step W C_clear s = (Some C_call, s\<lparr>can_run_loop := False\<rparr>)"
| "cancel_step W C_call s = (let (st, l) = kvnet_cancel_read W (lib_of s) in (None, with_lib l s))"

text \<open>The first argument of the program selects the device.\<close>

definition use_tap_arg :: "string list \<Rightarrow> int" where
  "use_tap_arg argv = (if length argv > 1 \<and> argv ! 1 = ''--usetap'' then 1 else 0)"

text \<open>
  \<open>main\<close>, where \<open>a\<close> is the answer of \<open>pthread_create\<close> or \<open>getc\<close>; \<open>None\<close> while it waits, and
  after its end.
\<close>

fun main_step :: "os \<Rightarrow> string list \<Rightarrow> int \<Rightarrow> prog \<Rightarrow> prog option" where
  "main_step W argv a s =
     (case p_main s of
        M_open \<Rightarrow>
          (let (st, l) = kvnet_open W (use_tap_arg argv) (lib_of s); s = with_lib l s in
           if \<not> KVNET_SUCCEEDED st then Some (s\<lparr>p_main := M_exit\<rparr>) else Some (s\<lparr>p_main := M_run\<rparr>))
      | M_run \<Rightarrow> Some (s\<lparr>can_run_loop := True, p_main := M_create\<rparr>)
      | M_create \<Rightarrow>
          (if a \<noteq> 0 then
             let (st, l) = kvnet_close W (lib_of s) in Some ((with_lib l s)\<lparr>p_main := M_exit\<rparr>)
           else Some (s\<lparr>p_loop := L_start, p_main := M_wait\<rparr>))
      | M_wait \<Rightarrow> (if a = 113 then Some (s\<lparr>p_main := M_cancel C_test\<rparr>) else Some s)
      | M_cancel c \<Rightarrow>
          (case cancel_step W c s of
             (None, s) \<Rightarrow> Some (s\<lparr>p_main := M_join\<rparr>)
           | (Some c, s) \<Rightarrow> Some (s\<lparr>p_main := M_cancel c\<rparr>))
      | M_join \<Rightarrow> (if p_loop s = L_end then Some (s\<lparr>p_main := M_close\<rparr>) else None)
      | M_close \<Rightarrow>
          (let (st, l) = kvnet_close W (lib_of s) in Some ((with_lib l s)\<lparr>p_main := M_exit\<rparr>))
      | M_exit \<Rightarrow> None)"

declare main_step.simps [simp del]

text \<open>\<open>pktLoop\<close>; \<open>None\<close> while its read does not return, after its end, and for a fault.\<close>

fun loop_step :: "env \<Rightarrow> os \<Rightarrow> prog \<Rightarrow> prog option" where
  "loop_step E W s =
     (case p_loop s of
        L_start \<Rightarrow>
          (let (st, _, l) = kvnet_get_driver_info W (Some (e_info E)) (lib_of s); s = with_lib l s in
           if \<not> KVNET_SUCCEEDED st then Some (s\<lparr>p_loop := L_end\<rparr>)
           else let hdr = e_malloc E 0 in
             if hdr = NULL then Some (s\<lparr>p_loop := L_end\<rparr>)
             else
               let c = (p_client s)\<lparr>c_live := hdr # c_live (p_client s)\<rparr>;
                   (i, pkt, c) = alloc_packets E [0..<MAX_PACKETS] (replicate MAX_PACKETS None) c
               in Some (s\<lparr>p_client := c, p_loop := if i \<noteq> MAX_PACKETS then L_cleanup pkt else L_test pkt\<rparr>))
      | L_test pkt \<Rightarrow> Some (s\<lparr>p_loop := if can_run_loop s then L_read pkt else L_cleanup pkt\<rparr>)
      | L_read pkt \<Rightarrow> do {
          l \<leftarrow> renew_lengths pkt (lib_of s);
          (st, h, l) \<leftarrow> kvnet_read W (Some \<lparr>u_count = of_nat MAX_PACKETS, u_pkt = map the pkt\<rparr>) loop_len l;
          let s = with_lib l s;
          if \<not> KVNET_SUCCEEDED st then Some (s\<lparr>p_loop := L_cleanup pkt\<rparr>)
          else do {
            h \<leftarrow> h;
            _ \<leftarrow> packet_lengths pkt [0..<unat (u_count h)] l;
            Some (s\<lparr>p_loop := L_test pkt\<rparr>) } }
      | L_cleanup pkt \<Rightarrow> do {
          c \<leftarrow> free_packets pkt (p_client s);
          c \<leftarrow> free_block (e_malloc E 0) c;
          Some (s\<lparr>p_client := c, p_loop := L_end\<rparr>) }
      | _ \<Rightarrow> None)"

declare loop_step.simps [simp del]

text \<open>A handler on top of a thread's frames takes its next step.\<close>

fun top_frame :: "cancel_pc option \<Rightarrow> cancel_pc list \<Rightarrow> cancel_pc list" where
  "top_frame None fs = fs"
| "top_frame (Some c) fs = c # fs"

inductive prog_step :: "env \<Rightarrow> os \<Rightarrow> string list \<Rightarrow> prog \<Rightarrow> prog \<Rightarrow> bool" for E W argv where
  main: "main_frames s = [] \<Longrightarrow> main_step W argv a s = Some t \<Longrightarrow> prog_step E W argv s t"
| main_handler: "main_frames s = c # fs \<Longrightarrow> cancel_step W c s = (r, t) \<Longrightarrow>
    prog_step E W argv s (t\<lparr>main_frames := top_frame r fs\<rparr>)"
| loop: "loop_frames s = [] \<Longrightarrow> loop_step E W s = Some t \<Longrightarrow> prog_step E W argv s t"
| loop_handler: "loop_frames s = c # fs \<Longrightarrow> cancel_step W c s = (r, t) \<Longrightarrow>
    prog_step E W argv s (t\<lparr>loop_frames := top_frame r fs\<rparr>)"

definition running_loop :: "loop_pc \<Rightarrow> bool" where
  "running_loop k \<longleftrightarrow> k \<noteq> L_none \<and> k \<noteq> L_end"

inductive signalled :: "prog \<Rightarrow> prog \<Rightarrow> bool" where
  "p_main s \<noteq> M_exit \<Longrightarrow> signalled s (s\<lparr>main_frames := C_test # main_frames s\<rparr>)"
| "running_loop (p_loop s) \<Longrightarrow> signalled s (s\<lparr>loop_frames := C_test # loop_frames s\<rparr>)"

definition initial_prog :: "prog" where
  "initial_prog = \<lparr>can_run_loop = False, p_client = \<lparr>c_lib = initial_lib Map.empty, c_live = []\<rparr>,
     p_main = M_open, p_loop = L_none, main_frames = [], loop_frames = []\<rparr>"

inductive prog_reachable :: "env \<Rightarrow> os \<Rightarrow> string list \<Rightarrow> prog \<Rightarrow> bool" for E W argv where
  init: "prog_reachable E W argv initial_prog"
| step: "prog_reachable E W argv s \<Longrightarrow> prog_step E W argv s t \<Longrightarrow> prog_reachable E W argv t"
| signal: "prog_reachable E W argv s \<Longrightarrow> signalled s t \<Longrightarrow> prog_reachable E W argv t"

text \<open>
  Only the letter \<open>q\<close> ends the wait: at the end of its input \<open>main\<close> asks again for ever.
\<close>

lemma wait_ignores:
  "p_main s = M_wait \<Longrightarrow> a \<noteq> 113 \<Longrightarrow> main_step W argv a s = Some s"
  by (simp add: main_step.simps)

section \<open>What the library's calls keep\<close>

text \<open>Whether a read was cancelled through the driver since the device was opened.\<close>

fun cancel_event :: "ucall \<Rightarrow> bool \<Rightarrow> bool" where
  "cancel_event (U_open f r) c = False"
| "cancel_event (U_ioctl fd cmd r) c = (c \<or> cmd = KVNET_IOCTL_CANCEL_PENDING_READ \<and> r \<noteq> - 1)"
| "cancel_event e c = c"

definition cancel_seen :: "ucall list \<Rightarrow> bool" where
  "cancel_seen h = fold cancel_event h False"

lemma cancel_seen_append [simp]: "cancel_seen (h @ es) = fold cancel_event es (cancel_seen h)"
  by (simp add: cancel_seen_def)

text \<open>Between opening and closing, the library keeps its device, and a cancelled read stays so.\<close>

definition lib_le :: "ulib \<Rightarrow> ulib \<Rightarrow> bool" where
  "lib_le l k \<longleftrightarrow> fdesc k = fdesc l \<and> use_tap_dev k = use_tap_dev l \<and> (lib_ok l \<longrightarrow> lib_ok k) \<and>
     (cancel_seen (utrace l) \<longrightarrow> cancel_seen (utrace k))"

lemma lib_le_refl [simp]: "lib_le l l"
  by (simp add: lib_le_def)

lemma lib_le_trans [trans]: "lib_le l k \<Longrightarrow> lib_le k j \<Longrightarrow> lib_le l j"
  by (simp add: lib_le_def)

lemma lib_le_upkts [simp]:
  "lib_le l (k\<lparr>upkts := m\<rparr>) = lib_le l k" "lib_le (l\<lparr>upkts := m\<rparr>) k = lib_le l k"
  by (simp_all add: lib_le_def)

lemma lib_le_canceled [simp]: "lib_le l (k\<lparr>canceled := c\<rparr>) = lib_le l k"
  by (simp add: lib_le_def lib_ok_def)

lemma lib_le_cancel: "lib_le l (snd (kvnet_cancel_read W l))"
  using kvnet_cancel_read_ok [of l W]
  by (auto simp: lib_le_def kvnet_cancel_read_def os_ioctl_def Let_def)

lemma lib_le_info: "lib_le l (snd (snd (kvnet_get_driver_info W info l)))"
  using kvnet_get_driver_info_ok [of l W info]
  by (auto simp: lib_le_def kvnet_get_driver_info_def kvnet_get_mac_def os_socket_def os_ioctl_def Let_def
      split: option.splits prod.splits)

lemma lib_le_renew: "renew_lengths pkt l = Some k \<Longrightarrow> lib_le l k"
  by (induction pkt arbitrary: l) (fastforce split: bind_splits simp: lib_le_def)+

lemma lib_le_poll: "poll_round W l = (ret, revents, k) \<Longrightarrow> lib_le l k"
  using poll_round_frame [of W l ret revents k]
  by (auto simp: lib_le_def poll_round_def Let_def split: prod.splits if_splits)

lemma lib_le_poll_done:
  assumes "poll_done W hdr len ret revents l = Some (st, h, k)"
  shows "lib_le l k"
proof -
  have "lib_ok l \<longrightarrow> lib_ok k \<and> fdesc k = fdesc l" using poll_done_ok assms by blast
  then show ?thesis using assms
    by (auto simp: lib_le_def poll_done_def kvnet_read_tap_def kvnet_read_dev_def Let_def
        split: if_splits prod.splits list.splits bind_splits)
qed

lemma lib_le_read_loop:
  assumes "kvnet_read_loop W hdr len l = Some r"
  shows "lib_le l (snd (snd r))"
  by (rule kvnet_read_loop_keeps [OF assms, where I = "lib_le l"])
    (use lib_le_poll lib_le_poll_done in \<open>auto intro: lib_le_trans\<close>)

lemma lib_le_read: "kvnet_read W hdr len l = Some (st, h, k) \<Longrightarrow> lib_le l k"
  using lib_le_read_loop by (fastforce simp: kvnet_read_def split: option.splits if_splits bind_splits)

lemma lib_le_alloc: "alloc_packets E js pkt c = (i, pkt', c') \<Longrightarrow> lib_le (c_lib c) (c_lib c')"
  by (induction E js pkt c rule: alloc_packets.induct)
    (auto simp: Let_def new_packet_def split: if_splits)

lemma free_packets_lib_of: "free_packets pkt c = Some c' \<Longrightarrow> c_lib c' = c_lib c"
  using free_packets_lib by (metis client.select_convs(1) client.surjective client.update_convs(2))

lemma free_block_lib_of: "free_block p c = Some c' \<Longrightarrow> c_lib c' = c_lib c"
  by (auto simp: free_block_def split: if_splits)

text \<open>So do the handler and the loop.\<close>

lemma cancel_step_frame:
  assumes "cancel_step W c s = (r, t)"
  shows "lib_le (lib_of s) (lib_of t)" "p_main t = p_main s" "p_loop t = p_loop s"
    "main_frames t = main_frames s" "loop_frames t = loop_frames s"
    "c_live (p_client t) = c_live (p_client s)" "can_run_loop t = (can_run_loop s \<and> c \<noteq> C_clear)"
  using assms lib_le_cancel [of "lib_of s" W] by (cases c; auto split: if_splits prod.splits)+

lemma loop_step_frame:
  assumes "loop_step E W s = Some t"
  shows "lib_le (lib_of s) (lib_of t)" "p_main t = p_main s" "main_frames t = main_frames s"
    "loop_frames t = loop_frames s" "can_run_loop t = can_run_loop s"
    "running_loop (p_loop s)" "p_loop t \<noteq> L_none"
proof -
  have le: "lib_le (lib_of s) (lib_of t)"
  proof (cases "p_loop s")
    case L_start
    obtain st inf l where g: "kvnet_get_driver_info W (Some (e_info E)) (lib_of s) = (st, inf, l)"
      by (metis prod_cases3)
    have "lib_le (lib_of s) l" using lib_le_info [of "lib_of s" W] g by (metis snd_conv)
    with L_start g assms lib_le_alloc show ?thesis
      by (fastforce simp: loop_step.simps Let_def with_lib_def intro: lib_le_trans split: if_splits prod.splits)
  next
    case (L_read pkt)
    with assms lib_le_renew lib_le_read show ?thesis
      by (fastforce simp: loop_step.simps Let_def intro: lib_le_trans split: if_splits bind_splits)
  next
    case (L_cleanup pkt)
    with assms show ?thesis
      by (auto simp: loop_step.simps lib_of_def dest!: free_packets_lib_of free_block_lib_of split: bind_splits)
  qed (use assms in \<open>auto simp: loop_step.simps\<close>)
  then show "lib_le (lib_of s) (lib_of t)" .
  show "p_main t = p_main s" "main_frames t = main_frames s"
    "loop_frames t = loop_frames s" "can_run_loop t = can_run_loop s"
    "running_loop (p_loop s)" "p_loop t \<noteq> L_none"
    using assms by (auto simp: loop_step.simps Let_def running_loop_def
        split: loop_pc.splits if_splits prod.splits bind_splits)
qed

section \<open>The descriptor outlives the loop\<close>

definition prog_ok :: "prog \<Rightarrow> bool" where
  "prog_ok s \<longleftrightarrow>
     lib_ok (lib_of s) \<and> (fdesc (lib_of s) \<noteq> - 1) = (p_main s \<noteq> M_open \<and> p_main s \<noteq> M_exit) \<and>
     (p_main s \<in> {M_open, M_run, M_create} \<longrightarrow> p_loop s = L_none) \<and>
     (p_loop s = L_none \<longrightarrow> p_main s \<in> {M_open, M_run, M_create, M_exit}) \<and>
     (p_main s \<in> {M_close, M_exit} \<longrightarrow> \<not> running_loop (p_loop s)) \<and>
     (\<not> running_loop (p_loop s) \<longrightarrow> loop_frames s = []) \<and>
     (p_main s = M_exit \<longrightarrow> main_frames s = [])"

lemma prog_ok_frame:
  assumes "prog_ok s" and "lib_le (lib_of s) (lib_of t)" and "p_main t = p_main s"
    and "p_loop t = L_none \<longleftrightarrow> p_loop s = L_none" and "running_loop (p_loop t) \<Longrightarrow> running_loop (p_loop s)"
    and "\<not> running_loop (p_loop t) \<Longrightarrow> loop_frames t = []" and "main_frames s = [] \<Longrightarrow> main_frames t = []"
  shows "prog_ok t"
  using assms unfolding prog_ok_def lib_le_def by metis

lemma prog_ok_main:
  assumes ok: "prog_ok s" and fs: "main_frames s = []" and t: "main_step W argv a s = Some t"
  shows "prog_ok t"
proof (cases "p_main s")
  case M_open
  obtain st l where o: "kvnet_open W (use_tap_arg argv) (lib_of s) = (st, l)" by fastforce
  have "lib_ok l" "(KVNET_STATUS st = 0) = (fdesc l \<noteq> - 1)"
    using kvnet_open_ok [of "lib_of s" W "use_tap_arg argv"] kvnet_open_result [of "lib_of s" W "use_tap_arg argv"]
      ok M_open o by (auto simp: prog_ok_def)
  with M_open ok t o fs show ?thesis
    by (auto simp: main_step.simps prog_ok_def KVNET_SUCCEEDED_def running_loop_def split: if_splits)
next
  case M_create
  obtain st l where o: "kvnet_close W (lib_of s) = (st, l)" by fastforce
  have "lib_ok l" "fdesc l = - 1"
    using kvnet_close_ok [of "lib_of s" W] kvnet_close_result [of "lib_of s" W] ok M_create o
    by (auto simp: prog_ok_def)
  with M_create ok t o fs show ?thesis
    by (auto simp: main_step.simps prog_ok_def running_loop_def split: if_splits)
next
  case (M_cancel c)
  obtain r u where c: "cancel_step W c s = (r, u)" by fastforce
  from cancel_step_frame [OF c] ok have "prog_ok u" "p_main u = M_cancel c"
    by (auto simp: prog_ok_def lib_le_def M_cancel)
  with M_cancel t c show ?thesis
    by (auto simp: main_step.simps prog_ok_def split: option.splits)
next
  case M_close
  obtain st l where o: "kvnet_close W (lib_of s) = (st, l)" by fastforce
  have "lib_ok l" "fdesc l = - 1"
    using kvnet_close_ok [of "lib_of s" W] kvnet_close_result [of "lib_of s" W] ok M_close o
    by (auto simp: prog_ok_def)
  with M_close ok t o fs show ?thesis
    by (auto simp: main_step.simps prog_ok_def)
qed (use ok t fs in \<open>auto simp: main_step.simps prog_ok_def running_loop_def split: if_splits\<close>)

lemma prog_ok_step:
  assumes "prog_step E W argv s t" and ok: "prog_ok s"
  shows "prog_ok t"
  using assms(1)
proof cases
  case (main a)
  with ok prog_ok_main show ?thesis by blast
next
  case (main_handler c fs r u)
  from ok cancel_step_frame [OF main_handler(3)] show ?thesis
    by (intro prog_ok_frame [OF ok]) (auto simp: main_handler prog_ok_def)
next
  case loop
  from loop_step_frame [OF loop(2)] show ?thesis
    by (intro prog_ok_frame [OF ok]) (auto simp: loop running_loop_def)
next
  case (loop_handler c fs r u)
  then have "running_loop (p_loop s)" using ok by (auto simp: prog_ok_def)
  with cancel_step_frame [OF loop_handler(3)] show ?thesis
    by (intro prog_ok_frame [OF ok]) (auto simp: loop_handler running_loop_def)
qed

lemma prog_ok_signal: "signalled s t \<Longrightarrow> prog_ok s \<Longrightarrow> prog_ok t"
  by (induction rule: signalled.induct) (auto simp: prog_ok_def)

lemma prog_ok_reachable: "prog_reachable E W argv s \<Longrightarrow> prog_ok s"
proof (induction rule: prog_reachable.induct)
  case init
  show ?case using initial_lib_ok
    by (simp add: prog_ok_def initial_prog_def lib_of_def running_loop_def) (simp add: initial_lib_def)
qed (auto intro: prog_ok_step prog_ok_signal)

text \<open>
  (C21) However the threads and the signals interleave, the packet loop never uses a closed
  descriptor: while it runs, the device is open, and nothing else. When \<open>main\<close> has returned,
  the loop has ended or was never started, and no descriptor is open.
\<close>

theorem client_descriptor_open:
  assumes "prog_reachable E W argv s"
  shows "(running_loop (p_loop s) \<longrightarrow>
      fdesc (lib_of s) \<noteq> - 1 \<and> fds_of (lib_of s) = Some [fdesc (lib_of s)]) \<and>
    (p_main s = M_exit \<longrightarrow> \<not> running_loop (p_loop s) \<and> fds_of (lib_of s) = Some [])"
  using prog_ok_reachable [OF assms] by (auto simp: prog_ok_def lib_ok_def running_loop_def)

section \<open>Quitting\<close>

text \<open>
  Laws of the device, after any calls that the library made of it and for the descriptor
  that is open then: the driver takes the cancellation, and a \<open>poll\<close> that starts after it reports
  the error at once; a read leaves the caller's packets where they are. A call of the library is
  one step here: a \<open>poll\<close> that sleeps while the cancellation comes is what \<open>Quitting\<close> is about.
\<close>

definition device_laws :: "os \<Rightarrow> addr set \<Rightarrow> bool" where
  "device_laws W P \<longleftrightarrow> (\<forall>h fd. device_run W h \<and> fds_run h [] = Some [fd] \<longrightarrow>
     o_ioctl W h fd KVNET_IOCTL_CANCEL_PENDING_READ \<noteq> - 1 \<and>
     (cancel_seen h \<longrightarrow> (\<exists>revents c. o_poll W h fd (U_POLLIN OR U_POLLERR) (- 1) = (1, revents, c) \<and>
        revents AND U_POLLERR \<noteq> 0)) \<and>
     (\<forall>n r hdr m. o_read_hdr W h fd n = (r, hdr, m) \<longrightarrow> r \<noteq> - 1 \<longrightarrow> P \<subseteq> dom m))"

text \<open>A cancellation that has begun: seen by the driver, or still to be made by some thread.\<close>

definition cancelling :: "prog \<Rightarrow> bool" where
  "cancelling s \<longleftrightarrow> cancel_seen (utrace (lib_of s)) \<or> C_call \<in> set (main_frames s) \<or>
     C_call \<in> set (loop_frames s) \<or> p_main s = M_cancel C_call"

definition dev_ok :: "os \<Rightarrow> prog \<Rightarrow> bool" where
  "dev_ok W s \<longleftrightarrow> on_device W (lib_of s) \<and>
     (p_main s \<in> {M_cancel C_call, M_join, M_close} \<longrightarrow> \<not> can_run_loop s) \<and>
     (p_main s \<notin> {M_open, M_run, M_exit} \<and> \<not> can_run_loop s \<longrightarrow> cancelling s)"

lemma prog_ok_open:
  "prog_ok s \<Longrightarrow> p_main s \<notin> {M_open, M_exit} \<Longrightarrow>
   fds_run (utrace (lib_of s)) [] = Some [fdesc (lib_of s)] \<and> fdesc (lib_of s) \<noteq> - 1"
  by (auto simp: prog_ok_def lib_ok_def fds_of_def split: if_splits)

text \<open>The handler and the loop keep to the calls of the device.\<close>

lemma cancel_step_device:
  "cancel_step W c s = (r, t) \<Longrightarrow> on_device W (lib_of s) \<Longrightarrow> on_device W (lib_of t)"
  using on_device_cancel [of W "lib_of s"] by (cases c) (auto split: if_splits prod.splits)

lemma renew_device: "renew_lengths pkt l = Some k \<Longrightarrow> on_device W k = on_device W l"
  by (induction pkt arbitrary: l) (fastforce split: bind_splits)+

lemma alloc_device:
  "alloc_packets E js pkt c = (i, pkt', c') \<Longrightarrow> on_device W (c_lib c') = on_device W (c_lib c)"
  by (induction E js pkt c rule: alloc_packets.induct)
    (auto simp: Let_def new_packet_def split: if_splits)

lemma loop_step_device:
  assumes "loop_step E W s = Some t" and "on_device W (lib_of s)"
  shows "on_device W (lib_of t)"
proof (cases "p_loop s")
  case L_start
  obtain st inf l where g: "kvnet_get_driver_info W (Some (e_info E)) (lib_of s) = (st, inf, l)"
    by (metis prod_cases3)
  have "on_device W l" using on_device_info [OF assms(2), of "Some (e_info E)"] g by simp
  with L_start g assms alloc_device show ?thesis
    by (fastforce simp: loop_step.simps Let_def with_lib_def split: if_splits prod.splits)
next
  case (L_read pkt)
  with assms(1) obtain l st h k hdr where l: "renew_lengths pkt (lib_of s) = Some l"
    "kvnet_read W (Some hdr) loop_len l = Some (st, h, k)" "lib_of t = k"
    by (auto simp: loop_step.simps Let_def split: if_splits bind_splits)
  with renew_device [OF l(1), of W] assms(2) on_device_read [OF _ l(2)] show ?thesis by simp
next
  case (L_cleanup pkt)
  with assms show ?thesis
    by (auto simp: loop_step.simps lib_of_def dest!: free_packets_lib_of free_block_lib_of split: bind_splits)
qed (use assms in \<open>auto simp: loop_step.simps\<close>)

lemma cancel_call_seen:
  assumes "device_laws W P" and "prog_ok s" and "dev_ok W s" and "p_main s \<notin> {M_open, M_exit}"
    and "cancel_step W C_call s = (r, t)"
  shows "cancel_seen (utrace (lib_of t))" "r = None"
proof -
  let ?l = "lib_of s"
  have dev: "device_run W (utrace ?l)" "use_tap_dev ?l = 0" "fds_run (utrace ?l) [] = Some [fdesc ?l]" "fdesc ?l \<noteq> - 1"
    using prog_ok_open [OF assms(2,4)] assms(3) by (auto simp: dev_ok_def on_device_def)
  have "o_ioctl W (utrace ?l) (fdesc ?l) KVNET_IOCTL_CANCEL_PENDING_READ \<noteq> - 1"
    using assms(1) dev(1,3) unfolding device_laws_def by blast
  then show "cancel_seen (utrace (lib_of t))" "r = None"
    using assms(5) dev(2,4) by (auto simp: kvnet_cancel_read_def os_ioctl_def Let_def split: prod.splits)
qed

lemma dev_ok_frame:
  assumes "dev_ok W s" and "lib_le (lib_of s) (lib_of t)" and "on_device W (lib_of t)" and "p_main t = p_main s"
    and "can_run_loop t = can_run_loop s"
    and "C_call \<in> set (main_frames s) \<Longrightarrow> cancelling t" "C_call \<in> set (loop_frames s) \<Longrightarrow> cancelling t"
  shows "dev_ok W t"
  using assms unfolding dev_ok_def lib_le_def cancelling_def by metis

lemma dev_ok_cleared:
  assumes "dev_ok W s" and "on_device W (lib_of t)" and "p_main t = p_main s" and "cancelling t"
    and "can_run_loop t \<Longrightarrow> can_run_loop s"
  shows "dev_ok W t"
  using assms unfolding dev_ok_def by metis

text \<open>A step of the handler: the cancellation it owes stays owed until it is made.\<close>

lemma dev_ok_handler:
  assumes W: "device_laws W P" and ok: "prog_ok s" "dev_ok W s" and c: "cancel_step W c s = (r, u)"
    and t: "lib_of t = lib_of u" "p_main t = p_main u" "can_run_loop t = can_run_loop u"
    and fs: "C_call \<in> set (main_frames s) \<union> set (loop_frames s) \<Longrightarrow>
      C_call \<in> set (main_frames t) \<union> set (loop_frames t) \<or> c = C_call"
    and r: "r = Some C_call \<Longrightarrow> C_call \<in> set (main_frames t) \<union> set (loop_frames t)"
  shows "dev_ok W t"
proof -
  note F = cancel_step_frame [OF c]
  have dev: "on_device W (lib_of t)" using cancel_step_device [OF c] ok(2) t(1) by (simp add: dev_ok_def)
  show ?thesis
  proof (cases c)
    case C_test
    with F fs t ok(2) dev show ?thesis
      by (intro dev_ok_frame [OF ok(2)]) (auto simp: cancelling_def)
  next
    case C_clear
    with c have "r = Some C_call" by simp
    with r F t dev show ?thesis by (intro dev_ok_cleared [OF ok(2)]) (auto simp: cancelling_def)
  next
    case C_call
    show ?thesis
    proof (cases "p_main s \<in> {M_open, M_exit}")
      case True
      with F t ok(2) dev show ?thesis by (auto simp: dev_ok_def)
    next
      case False
      with cancel_call_seen [OF W ok] c C_call t(1) have "cancelling t" by (simp add: cancelling_def)
      with F t dev show ?thesis by (intro dev_ok_cleared [OF ok(2)]) auto
    qed
  qed
qed

lemma dev_ok_main:
  assumes W: "device_laws W P" and tap: "use_tap_arg argv = 0" and ok: "prog_ok s" "dev_ok W s"
    and fs: "main_frames s = []" and t: "main_step W argv a s = Some t"
  shows "dev_ok W t"
proof (cases "p_main s")
  case M_open
  with on_device_open [of W "lib_of s"] t ok tap show ?thesis
    by (auto simp: main_step.simps dev_ok_def Let_def split: prod.splits if_splits)
next
  case M_create
  with on_device_close [of W "lib_of s"] t ok show ?thesis
    by (auto simp: main_step.simps dev_ok_def cancelling_def Let_def split: prod.splits if_splits)
next
  case M_close
  with on_device_close [of W "lib_of s"] t ok show ?thesis
    by (auto simp: main_step.simps dev_ok_def Let_def split: prod.splits)
next
  case (M_cancel c)
  obtain r u where c: "cancel_step W c s = (r, u)" by fastforce
  note F = cancel_step_frame [OF c]
  have dev: "on_device W (lib_of u)" using cancel_step_device [OF c] ok(2) by (simp add: dev_ok_def)
  show ?thesis
  proof (cases c)
    case C_test
    with M_cancel t c ok(2) show ?thesis
      by (auto simp: main_step.simps dev_ok_def cancelling_def split: if_splits)
  next
    case C_clear
    with M_cancel t c ok(2) show ?thesis
      by (auto simp: main_step.simps dev_ok_def cancelling_def)
  next
    case C_call
    with M_cancel cancel_call_seen [OF W ok _ c [unfolded C_call]]
    have "cancel_seen (utrace (lib_of u))" "r = None" by simp_all
    with M_cancel C_call F t c ok(2) dev show ?thesis
      by (auto simp: main_step.simps dev_ok_def cancelling_def)
  qed
qed (use t ok in \<open>auto simp: main_step.simps dev_ok_def cancelling_def split: if_splits\<close>)

lemma dev_ok_step:
  assumes W: "device_laws W P" and tap: "use_tap_arg argv = 0" and "prog_step E W argv s t"
    and ok: "prog_ok s" "dev_ok W s"
  shows "dev_ok W t"
  using assms(3)
proof cases
  case (main a)
  with dev_ok_main [OF W tap ok] show ?thesis by blast
next
  case (main_handler c fs r u)
  with cancel_step_frame [OF main_handler(3)] show ?thesis
    by (intro dev_ok_handler [OF W ok main_handler(3)]) (cases r; auto)+
next
  case loop
  with loop_step_frame [OF loop(2)] loop_step_device [OF loop(2)] ok(2) show ?thesis
    by (intro dev_ok_frame [OF ok(2)]) (auto simp: cancelling_def dev_ok_def)
next
  case (loop_handler c fs r u)
  with cancel_step_frame [OF loop_handler(3)] show ?thesis
    by (intro dev_ok_handler [OF W ok loop_handler(3)]) (cases r; auto)+
qed

lemma dev_ok_signal: "signalled s t \<Longrightarrow> dev_ok W s \<Longrightarrow> dev_ok W t"
  by (induction rule: signalled.induct) (auto simp: dev_ok_def cancelling_def)

section \<open>Memory of the loop\<close>

definition enough_memory :: "env \<Rightarrow> bool" where
  "enough_memory E \<longleftrightarrow> distinct (e_malloc E 0 # pointers E 64) \<and> NULL \<notin> set (e_malloc E 0 # pointers E 64)"

fun pkt_of :: "loop_pc \<Rightarrow> addr option list option" where
  "pkt_of (L_test pkt) = Some pkt"
| "pkt_of (L_read pkt) = Some pkt"
| "pkt_of (L_cleanup pkt) = Some pkt"
| "pkt_of _ = None"

definition mem_ok :: "env \<Rightarrow> prog \<Rightarrow> bool" where
  "mem_ok E s \<longleftrightarrow>
     (case pkt_of (p_loop s) of
        None \<Rightarrow> c_live (p_client s) = []
      | Some pkt \<Rightarrow> pkt = map Some (pointers E 64) \<and>
          c_live (p_client s) = rev (pointers E 64) @ [e_malloc E 0] \<and>
          set (pointers E 64) \<subseteq> dom (upkts (lib_of s)))"

lemma alloc_packets_dom:
  assumes "\<And>i. i \<in> set js \<Longrightarrow> e_malloc E (Suc i) \<noteq> NULL"
  shows "(\<lambda>i. e_malloc E (Suc i)) ` set js \<union> dom (upkts (c_lib c)) \<subseteq>
    dom (upkts (c_lib (snd (snd (alloc_packets E js pkt c)))))"
  using assms
proof (induction js arbitrary: pkt c)
  case (Cons i js)
  have "dom (upkts (c_lib (new_packet E i p c))) = insert p (dom (upkts (c_lib c)))" for p
    by (auto simp: new_packet_def)
  with Cons.IH [where pkt = "pkt[i := Some (e_malloc E (Suc i))]" and c = "new_packet E i (e_malloc E (Suc i)) c"]
    Cons.prems
  show ?case by (simp add: Let_def)
qed simp

lemma alloc_packets_all:
  assumes "enough_memory E" and "c_live c = [e_malloc E 0]"
  shows "\<exists>c'. alloc_packets E [0..<MAX_PACKETS] (replicate MAX_PACKETS None) c =
      (MAX_PACKETS, map Some (pointers E 64), c') \<and>
    c_live c' = rev (pointers E 64) @ [e_malloc E 0] \<and> set (pointers E 64) \<subseteq> dom (upkts (c_lib c'))"
proof -
  have n: "e_malloc E (Suc i) \<noteq> NULL" if "i < 64" for i
    using assms(1) that by (auto simp: enough_memory_def pointers_def)
  have a: "array_of (pointers E 0) = replicate MAX_PACKETS None"
    "array_of (pointers E 64) = map Some (pointers E 64)"
    by (simp_all add: array_of_def pointers_def MAX_PACKETS_def)
  from alloc_packets_upto [of 0 64 E c] grown_parts(1) [of E "[0..<64]" c] n obtain c' where
    c': "alloc_packets E [0..<MAX_PACKETS] (replicate MAX_PACKETS None) c =
        alloc_packets E [64..<MAX_PACKETS] (map Some (pointers E 64)) c'"
      "c_live c' = rev (pointers E 64) @ c_live c"
    unfolding a by (auto simp: MAX_PACKETS_def pointers_def)
  have "alloc_packets E [64..<MAX_PACKETS] (map Some (pointers E 64)) c' = (MAX_PACKETS, map Some (pointers E 64), c')"
    by (simp add: MAX_PACKETS_def)
  moreover have "set (pointers E 64) \<subseteq>
      dom (upkts (c_lib (snd (snd (alloc_packets E [0..<MAX_PACKETS] (replicate MAX_PACKETS None) c)))))"
    using alloc_packets_dom [of "[0..<MAX_PACKETS]" E c "replicate MAX_PACKETS None"] n
    by (auto simp: MAX_PACKETS_def pointers_def)
  ultimately show ?thesis using c' assms(2) by simp
qed

lemma renew_lengths_all:
  "set ps \<subseteq> dom (upkts l) \<Longrightarrow> \<exists>k. renew_lengths (map Some ps) l = Some k \<and> dom (upkts k) = dom (upkts l)"
proof (induction ps arbitrary: l)
  case (Cons p ps)
  then obtain b where b: "upkts l p = Some b" by auto
  let ?l = "l\<lparr>upkts := (upkts l)(p \<mapsto> b\<lparr>up_len := MAX_DATA_SIZE\<rparr>)\<rparr>"
  have d: "dom (upkts ?l) = dom (upkts l)" using b by auto
  with Cons.prems have "set ps \<subseteq> dom (upkts ?l)" by simp
  from Cons.IH [OF this, unfolded d] b show ?case by auto
qed simp

lemma cancel_keeps_upkts: "upkts (snd (kvnet_cancel_read W l)) = upkts l"
  by (simp add: kvnet_cancel_read_def os_ioctl_def Let_def)

text \<open>The packets stay where they are over a read from the driver.\<close>

lemma device_read_packets:
  assumes W: "device_laws W P" and ok: "on_device W l" "fdesc l \<noteq> - 1" "P \<subseteq> dom (upkts l)"
    and r: "kvnet_read W hdr len l = Some (st, h, k)"
  shows "P \<subseteq> dom (upkts k)"
proof -
  let ?I = "\<lambda>l. on_device W l \<and> fdesc l \<noteq> - 1 \<and> P \<subseteq> dom (upkts l)"
  have "P \<subseteq> dom (upkts (snd (snd q)))" if "kvnet_read_loop W hd len l = Some q" for hd q
  proof (rule kvnet_read_loop_keeps [OF that, where I = ?I and J = "\<lambda>l. P \<subseteq> dom (upkts l)"])
    show "?I l" using ok by simp
    show "?I u" if "?I t" "poll_round W t = (ret, revents, u)" for t ret revents u
      using that poll_round_frame [OF that(2)] on_device_poll [OF _ _ that(2)] by simp
    show "P \<subseteq> dom (upkts u)" if t: "?I t" "poll_done W hd len ret revents t = Some (s, h, u)"
      for t ret revents s h u
    proof -
      have tap: "use_tap_dev t = 0" and run: "device_run W (utrace t)" "fds_run (utrace t) [] = Some [fdesc t]"
        using t(1) on_device_fds [of W t] by (auto simp: on_device_def)
      have keep: "P \<subseteq> dom m" if "o_read_hdr W (utrace t) (fdesc t) n = (r, hdr, m)" "r \<noteq> - 1" for n r hdr m
        using W run that unfolding device_laws_def by blast
      show ?thesis
      proof (cases "u = t")
        case False
        with poll_done_device [OF t(2) tap] have r: "kvnet_read_dev W hd len t = (s, h, u)" by blast
        obtain ret' hdr' m where a: "o_read_hdr W (utrace t) (fdesc t) (ucast len) = (ret', hdr', m)"
          by (metis prod_cases3)
        with r have "upkts u = (if ret' = - 1 then upkts t else m)"
          by (auto simp: kvnet_read_dev_def Let_def)
        with keep [OF a] t(1) show ?thesis by simp
      qed (use t(1) in simp)
    qed
  qed
  with r ok(3) show ?thesis by (fastforce simp: kvnet_read_def split: option.splits if_splits bind_splits)
qed

lemma cleanup_prog:
  assumes E: "enough_memory E" and ok: "mem_ok E s" and l: "p_loop s = L_cleanup pkt"
  shows "loop_step E W s = Some (s\<lparr>p_client := (p_client s)\<lparr>c_live := []\<rparr>, p_loop := L_end\<rparr>)"
proof -
  have live: "c_live (p_client s) = rev (pointers E 64) @ [e_malloc E 0]" and pkt: "pkt = map Some (pointers E 64)"
    using ok l by (simp_all add: mem_ok_def)
  have "do { c \<leftarrow> free_packets pkt (p_client s); free_block (e_malloc E 0) c } =
      Some ((p_client s)\<lparr>c_live := []\<rparr>)"
    unfolding pkt by (rule cleanup_all [OF _ _ _ live]) (use E in \<open>auto simp: enough_memory_def\<close>)
  then obtain c where "free_packets pkt (p_client s) = Some c" "free_block (e_malloc E 0) c = Some ((p_client s)\<lparr>c_live := []\<rparr>)"
    by (auto split: bind_splits)
  with l show ?thesis by (simp add: loop_step.simps)
qed

lemma start_prog:
  assumes E: "enough_memory E" and ok: "mem_ok E s" and l: "p_loop s = L_start"
  shows "\<exists>t. loop_step E W s = Some t \<and> mem_ok E t \<and> (p_loop t = L_end \<or> (\<exists>pkt. p_loop t = L_test pkt))"
proof -
  obtain st inf k where g: "kvnet_get_driver_info W (Some (e_info E)) (lib_of s) = (st, inf, k)"
    by (metis prod_cases3)
  have live: "c_live (p_client s) = []" using ok l by (simp add: mem_ok_def)
  have hdr: "e_malloc E 0 \<noteq> NULL" using E by (auto simp: enough_memory_def)
  from alloc_packets_all [OF E, of "(p_client (with_lib k s))\<lparr>c_live := [e_malloc E 0]\<rparr>"] obtain c' where
    "alloc_packets E [0..<MAX_PACKETS] (replicate MAX_PACKETS None) ((p_client (with_lib k s))\<lparr>c_live := [e_malloc E 0]\<rparr>) =
      (MAX_PACKETS, map Some (pointers E 64), c')"
    "c_live c' = rev (pointers E 64) @ [e_malloc E 0]" "set (pointers E 64) \<subseteq> dom (upkts (c_lib c'))"
    by auto
  with l g live hdr show ?thesis
    by (cases "KVNET_SUCCEEDED st") (auto simp: loop_step.simps mem_ok_def Let_def)
qed

lemma mem_ok_frame:
  "mem_ok E s \<Longrightarrow> pkt_of (p_loop t) = pkt_of (p_loop s) \<Longrightarrow> c_live (p_client t) = c_live (p_client s) \<Longrightarrow>
   upkts (lib_of t) = upkts (lib_of s) \<Longrightarrow> mem_ok E t"
  by (simp add: mem_ok_def split: option.splits)

lemma open_close_upkts:
  "upkts (snd (kvnet_open W tap l)) = upkts l" "upkts (snd (kvnet_close W l)) = upkts l"
  by (auto simp: kvnet_open_def kvnet_close_def os_open_def os_ioctl_def os_socket_def Let_def)

lemma cancel_step_upkts: "cancel_step W c s = (r, t) \<Longrightarrow> upkts (lib_of t) = upkts (lib_of s)"
  using cancel_keeps_upkts [of W "lib_of s"] by (cases c) (auto split: if_splits prod.splits)

lemma main_step_mem:
  assumes "main_step W argv a s = Some t" and "prog_ok s"
  shows "pkt_of (p_loop t) = pkt_of (p_loop s)" "c_live (p_client t) = c_live (p_client s)"
    "upkts (lib_of t) = upkts (lib_of s)"
proof -
  have new: "p_main s = M_create \<Longrightarrow> p_loop s = L_none" using assms(2) by (simp add: prog_ok_def)
  note U = open_close_upkts [where l = "lib_of s" and W = W] cancel_step_upkts [where s = s and W = W]
    cancel_step_frame(3,6) [where s = s and W = W]
  have "pkt_of (p_loop t) = pkt_of (p_loop s) \<and> c_live (p_client t) = c_live (p_client s) \<and>
      upkts (lib_of t) = upkts (lib_of s)"
  proof (cases "p_main s")
    case (M_cancel c)
    obtain r u where "cancel_step W c s = (r, u)" by fastforce
    with M_cancel U(3-5) [OF this] assms(1) show ?thesis
      by (auto simp: main_step.simps split: option.splits)
  next
    case M_open
    obtain st l where "kvnet_open W (use_tap_arg argv) (lib_of s) = (st, l)" by fastforce
    with M_open U(1) [of "use_tap_arg argv"] assms(1) show ?thesis
      by (auto simp: main_step.simps Let_def split: if_splits)
  next
    case M_create
    obtain st l where "kvnet_close W (lib_of s) = (st, l)" by fastforce
    with M_create U(2) new assms(1) show ?thesis by (auto simp: main_step.simps split: if_splits)
  next
    case M_close
    obtain st l where "kvnet_close W (lib_of s) = (st, l)" by fastforce
    with M_close U(2) assms(1) show ?thesis by (auto simp: main_step.simps)
  qed (use assms(1) in \<open>auto simp: main_step.simps split: if_splits\<close>)
  then show "pkt_of (p_loop t) = pkt_of (p_loop s)" "c_live (p_client t) = c_live (p_client s)"
    "upkts (lib_of t) = upkts (lib_of s)" by simp_all
qed

lemma mem_ok_step:
  assumes W: "device_laws W (set (pointers E 64))" and E: "enough_memory E"
    and s: "prog_step E W argv s t" and ok: "prog_ok s" "dev_ok W s" "mem_ok E s"
  shows "mem_ok E t"
  using s
proof cases
  case (main a)
  with main_step_mem [OF main(2) ok(1)] show ?thesis by (blast intro: mem_ok_frame [OF ok(3)])
next
  case (main_handler c fs r u)
  with cancel_step_frame [OF main_handler(3)] cancel_step_upkts [OF main_handler(3)] show ?thesis
    by (intro mem_ok_frame [OF ok(3)]) simp_all
next
  case loop
  show ?thesis
  proof (cases "p_loop s")
    case L_start
    from start_prog [OF E ok(3) this, of W] loop(2) show ?thesis by auto
  next
    case (L_cleanup pkt)
    with cleanup_prog [OF E ok(3)] loop show ?thesis by (auto simp: mem_ok_def)
  next
    case (L_read pkt)
    have pkt: "pkt = map Some (pointers E 64)" "set (pointers E 64) \<subseteq> dom (upkts (lib_of s))"
      using ok(3) L_read by (simp_all add: mem_ok_def)
    from renew_lengths_all [OF pkt(2)] obtain l where
      l: "renew_lengths pkt (lib_of s) = Some l" "dom (upkts l) = dom (upkts (lib_of s))"
      unfolding pkt(1) by blast
    have "p_main s \<notin> {M_open, M_exit}" using ok(1) L_read by (auto simp: prog_ok_def running_loop_def)
    from prog_ok_open [OF ok(1) this] lib_le_renew [OF l(1)] ok
    have lo: "on_device W l" "fdesc l \<noteq> - 1"
      using renew_device [OF l(1), of W] by (auto simp: dev_ok_def lib_le_def)
    have r: "set (pointers E 64) \<subseteq> dom (upkts k)"
      if "kvnet_read W hdr loop_len l = Some (st, h, k)" for hdr st h k
      by (rule device_read_packets [OF W lo _ that]) (use l(2) pkt(2) in simp)
    from loop(2) ok(3) L_read l(1) show ?thesis
      by (auto simp: loop_step.simps mem_ok_def Let_def dest!: r split: if_splits bind_splits)
  next
    case (L_test pkt)
    with loop ok(3) show ?thesis by (auto simp: loop_step.simps mem_ok_def)
  qed (use loop in \<open>auto simp: loop_step.simps\<close>)
next
  case (loop_handler c fs r u)
  with cancel_step_frame [OF loop_handler(3)] cancel_step_upkts [OF loop_handler(3)] show ?thesis
    by (intro mem_ok_frame [OF ok(3)]) simp_all
qed

lemma mem_ok_signal: "signalled s t \<Longrightarrow> mem_ok E s \<Longrightarrow> mem_ok E t"
  by (induction rule: signalled.induct) (auto simp: mem_ok_def split: option.splits)

section \<open>It ends\<close>

lemma quit_invariants:
  assumes "prog_reachable E W argv s" and W: "device_laws W (set (pointers E 64))"
    and E: "enough_memory E" and tap: "use_tap_arg argv = 0"
  shows "prog_ok s \<and> dev_ok W s \<and> mem_ok E s"
  using assms(1)
proof (induction rule: prog_reachable.induct)
  case init
  have "dev_ok W initial_prog" "mem_ok E initial_prog"
    using on_device_initial by (simp_all add: dev_ok_def mem_ok_def initial_prog_def lib_of_def)
  with prog_ok_reachable [OF prog_reachable.init] show ?case by blast
next
  case (step s t)
  with prog_ok_step dev_ok_step [OF W tap] mem_ok_step [OF W E] show ?case by blast
next
  case (signal s t)
  with prog_ok_signal dev_ok_signal mem_ok_signal show ?case by blast
qed

text \<open>How many steps are left once \<open>main\<close> waits for the loop to end.\<close>

fun cancel_rank :: "cancel_pc \<Rightarrow> nat" where
  "cancel_rank C_test = 3"
| "cancel_rank C_clear = 2"
| "cancel_rank C_call = 1"

fun main_rank :: "main_pc \<Rightarrow> nat" where
  "main_rank M_join = 2"
| "main_rank M_close = 1"
| "main_rank _ = 0"

fun loop_rank :: "loop_pc \<Rightarrow> nat" where
  "loop_rank L_start = 4"
| "loop_rank (L_read pkt) = 3"
| "loop_rank (L_test pkt) = 2"
| "loop_rank (L_cleanup pkt) = 1"
| "loop_rank _ = 0"

definition rank :: "prog \<Rightarrow> nat" where
  "rank s = sum_list (map cancel_rank (main_frames s)) + sum_list (map cancel_rank (loop_frames s)) +
     main_rank (p_main s) + loop_rank (p_loop s)"

definition quitting :: "prog \<Rightarrow> bool" where
  "quitting s \<longleftrightarrow> p_main s \<in> {M_join, M_close, M_exit} \<and> \<not> can_run_loop s"

lemma cancel_step_rank:
  "cancel_step W c s = (r, t) \<Longrightarrow> sum_list (map cancel_rank (top_frame r fs)) < cancel_rank c + sum_list (map cancel_rank fs)"
  by (cases c) (auto split: if_splits prod.splits)

lemma loop_step_rank:
  assumes "loop_step E W s = Some t" and "\<not> can_run_loop s"
  shows "loop_rank (p_loop t) < loop_rank (p_loop s)"
  using assms by (auto simp: loop_step.simps Let_def split: loop_pc.splits if_splits prod.splits bind_splits)

lemma quitting_step:
  assumes "prog_step E W argv s t" and q: "quitting s"
  shows "quitting t \<and> rank t < rank s"
  using assms(1)
proof cases
  case (main a)
  with q show ?thesis
    by (auto simp: quitting_def rank_def main_step.simps split: prod.splits if_splits)
next
  case (main_handler c fs r u)
  with q cancel_step_frame [OF main_handler(3)] cancel_step_rank [OF main_handler(3), of fs] show ?thesis
    by (simp add: quitting_def rank_def)
next
  case loop
  with q loop_step_frame [OF loop(2)] loop_step_rank [OF loop(2)] show ?thesis
    by (simp add: quitting_def rank_def)
next
  case (loop_handler c fs r u)
  with q cancel_step_frame [OF loop_handler(3)] cancel_step_rank [OF loop_handler(3), of fs] show ?thesis
    by (simp add: quitting_def rank_def)
qed

text \<open>The read of a loop that was cancelled returns.\<close>

lemma pollerr: "(r :: u16) AND U_POLLERR \<noteq> 0 \<Longrightarrow> r AND (U_POLLERR OR U_POLLHUP OR U_POLLNVAL) \<noteq> 0"
proof
  assume e: "r AND U_POLLERR \<noteq> 0" and z: "r AND (U_POLLERR OR U_POLLHUP OR U_POLLNVAL) = 0"
  have "r AND U_POLLERR = (r AND (U_POLLERR OR U_POLLHUP OR U_POLLNVAL)) AND U_POLLERR"
    by (simp add: and.assoc)
  with e z show False by simp
qed

lemma cancelled_read:
  assumes W: "device_laws W P" and l: "on_device W l" "fdesc l \<noteq> - 1" "cancel_seen (utrace l)"
  shows "\<exists>st k. kvnet_read W (Some hdr) loop_len l = Some (st, Some hdr, k) \<and> \<not> KVNET_SUCCEEDED st"
proof -
  have tap: "use_tap_dev l = 0" and "device_run W (utrace l)" "fds_run (utrace l) [] = Some [fdesc l]"
    using l(1,2) on_device_fds [of W l] by (auto simp: on_device_def)
  with W l(3) obtain revents c where
    p: "o_poll W (utrace l) (fdesc l) (U_POLLIN OR U_POLLERR) (- 1) = (1, revents, c)" "revents AND U_POLLERR \<noteq> 0"
    unfolding device_laws_def by blast
  then have r: "poll_round W l = (1, revents, ulog (U_poll (fdesc l) (U_POLLIN OR U_POLLERR) (- 1) 1) l)"
    using tap by (simp add: poll_round_def Let_def)
  have "\<exists>st k. kvnet_read_loop W hdr loop_len l = Some (st, hdr, k) \<and> KVNET_STATUS st = 7"
    using pollerr [OF p(2)]
    by (subst kvnet_read_loop_round) (simp add: r poll_again_def poll_done_def)
  moreover have "\<not> ucast loop_len < sizeof_kvnet_header"
    by (simp add: loop_len_def sizeof_kvnet_header_def sizeof_KVNET_PTR_def MAX_PACKETS_def)
  ultimately show ?thesis using l(2) by (auto simp: kvnet_read_def KVNET_SUCCEEDED_def)
qed

lemma loop_progress:
  assumes W: "device_laws W (set (pointers E 64))" and E: "enough_memory E"
    and ok: "prog_ok s" "dev_ok W s" "mem_ok E s" and run: "running_loop (p_loop s)"
    and seen: "cancel_seen (utrace (lib_of s))"
  shows "\<exists>t. loop_step E W s = Some t"
proof (cases "p_loop s")
  case L_start
  with start_prog [OF E ok(3)] show ?thesis by blast
next
  case (L_test pkt)
  then show ?thesis by (simp add: loop_step.simps)
next
  case (L_cleanup pkt)
  with cleanup_prog [OF E ok(3)] show ?thesis by blast
next
  case (L_read pkt)
  have pkt: "pkt = map Some (pointers E 64)" "set (pointers E 64) \<subseteq> dom (upkts (lib_of s))"
    using ok(3) L_read by (simp_all add: mem_ok_def)
  from renew_lengths_all [OF pkt(2)] obtain l where l: "renew_lengths pkt (lib_of s) = Some l"
    unfolding pkt(1) by blast
  have "p_main s \<notin> {M_open, M_exit}" using ok(1) run by (auto simp: prog_ok_def running_loop_def)
  from prog_ok_open [OF ok(1) this] lib_le_renew [OF l] ok seen
  have "on_device W l" "fdesc l \<noteq> - 1" "cancel_seen (utrace l)"
    using renew_device [OF l, of W] by (auto simp: dev_ok_def lib_le_def)
  from cancelled_read [OF W this] obtain st k where
    "kvnet_read W (Some \<lparr>u_count = of_nat MAX_PACKETS, u_pkt = map the pkt\<rparr>) loop_len l =
      Some (st, Some \<lparr>u_count = of_nat MAX_PACKETS, u_pkt = map the pkt\<rparr>, k)" "\<not> KVNET_SUCCEEDED st"
    by blast
  with L_read l show ?thesis by (simp add: loop_step.simps)
qed (use run in \<open>simp_all add: running_loop_def\<close>)

definition finished :: "prog \<Rightarrow> bool" where
  "finished s \<longleftrightarrow> p_main s = M_exit \<and> p_loop s = L_end \<and> fds_of (lib_of s) = Some [] \<and> c_live (p_client s) = []"

lemma quitting_progress:
  assumes W: "device_laws W (set (pointers E 64))" and E: "enough_memory E"
    and ok: "prog_ok s" "dev_ok W s" "mem_ok E s" and pc: "p_main s \<in> {M_join, M_close}"
  shows "\<exists>t. prog_step E W argv s t"
proof (cases "main_frames s")
  case (Cons c fs)
  obtain r t where "cancel_step W c s = (r, t)" by fastforce
  with Cons show ?thesis by (blast intro: prog_step.main_handler)
next
  case Nil
  note mf = this
  show ?thesis
  proof (cases "main_step W argv 0 s")
    case (Some t)
    with mf show ?thesis by (blast intro: prog_step.main)
  next
    case None
    with pc have join: "p_main s = M_join" "p_loop s \<noteq> L_end"
      by (auto simp: main_step.simps split: prod.splits if_splits)
    with ok(1) have run: "running_loop (p_loop s)" by (auto simp: prog_ok_def running_loop_def)
    show ?thesis
    proof (cases "loop_frames s")
      case (Cons c fs)
      obtain r t where "cancel_step W c s = (r, t)" by fastforce
      with Cons show ?thesis by (blast intro: prog_step.loop_handler)
    next
      case Nil
      with mf join ok(2) have "cancel_seen (utrace (lib_of s))" by (simp add: dev_ok_def cancelling_def)
      from loop_progress [OF W E ok run this] Nil show ?thesis by (blast intro: prog_step.loop)
    qed
  qed
qed

text \<open>
  Once \<open>main\<close> waits for the packet loop, whatever was interrupted before: no run goes on for
  ever, and every run goes on until the program has finished. The cancellation is not lost
  when it comes between two reads of the loop.
\<close>

lemma quitting_ends:
  assumes s: "prog_reachable E W argv s" "p_main s = M_join"
    and W: "device_laws W (set (pointers E 64))" and E: "enough_memory E" and tap: "use_tap_arg argv = 0"
  shows "(\<nexists>f. f 0 = s \<and> (\<forall>n. prog_step E W argv (f n) (f (Suc n)))) \<and>
    (\<forall>t. (prog_step E W argv)\<^sup>*\<^sup>* s t \<longrightarrow> finished t \<or> (\<exists>u. prog_step E W argv t u))"
proof
  have "quitting s" using quit_invariants [OF s(1) W E tap] s(2) by (auto simp: dev_ok_def quitting_def)
  show "\<nexists>f. f 0 = s \<and> (\<forall>n. prog_step E W argv (f n) (f (Suc n)))"
  proof
    assume "\<exists>f. f 0 = s \<and> (\<forall>n. prog_step E W argv (f n) (f (Suc n)))"
    then obtain f where f: "f 0 = s" "\<And>n. prog_step E W argv (f n) (f (Suc n))" by blast
    have "quitting (f n) \<and> rank (f n) + n \<le> rank s" for n
    proof (induction n)
      case (Suc n)
      with quitting_step [OF f(2) [of n]] show ?case by linarith
    qed (use f(1) \<open>quitting s\<close> in simp)
    then have "rank (f (Suc (rank s))) + Suc (rank s) \<le> rank s" by blast
    then show False by simp
  qed
  show "\<forall>t. (prog_step E W argv)\<^sup>*\<^sup>* s t \<longrightarrow> finished t \<or> (\<exists>u. prog_step E W argv t u)"
  proof (intro allI impI)
    fix t
    assume "(prog_step E W argv)\<^sup>*\<^sup>* s t"
    then have t: "prog_reachable E W argv t \<and> quitting t \<and> p_loop t \<noteq> L_none"
    proof induction
      case base
      have "prog_ok s" by (rule prog_ok_reachable [OF s(1)])
      with s \<open>quitting s\<close> show ?case by (auto simp: prog_ok_def)
    next
      case (step t u)
      have "p_loop u \<noteq> L_none"
        using step.hyps(2) step.IH
        by cases (auto simp: quitting_def main_step.simps dest: loop_step_frame cancel_step_frame
            split: prod.splits if_splits)
      with step quitting_step show ?case by (blast intro: prog_reachable.step)
    qed
    then have inv: "prog_ok t" "dev_ok W t" "mem_ok E t" using quit_invariants [OF _ W E tap] by blast+
    show "finished t \<or> (\<exists>u. prog_step E W argv t u)"
    proof (cases "p_main t = M_exit")
      case True
      with t inv(1) have "p_loop t = L_end" by (auto simp: prog_ok_def running_loop_def)
      with True inv(1,3) show ?thesis by (simp add: finished_def mem_ok_def prog_ok_def lib_ok_def)
    next
      case False
      with t quitting_progress [OF W E inv] show ?thesis by (auto simp: quitting_def)
    qed
  qed
qed

end
