(* ===== verification/Stack.thy ===== *)
theory Stack
  imports System Client_Threads
begin

text \<open>
  The whole system: the example program and its library on top of the driver. The operating
  system of the library (\<open>os\<close>) is built from the driver: a system call on \<open>/dev/kvnet\<close> is an
  entry of the driver, run on the state that all that happened before has left it in. Between
  the calls of the process, and while its \<open>poll\<close> sleeps, the network stack uses the interface.
\<close>

section \<open>The driver as the device of a process\<close>

text \<open>
  What else there is: what the network stack does before a call of the process and while it
  sleeps, the descriptors that \<open>open\<close> gives out, the address given to an \<open>ioctl\<close>, and the memory of
  the process at the time of a call.
\<close>

record world =
  w_net :: "ucall list \<Rightarrow> entry list"
  w_fd :: "ucall list \<Rightarrow> int"
  w_arg :: "ucall list \<Rightarrow> addr"
  w_hdr :: "ucall list \<Rightarrow> uhdr"
  w_mem :: "ucall list \<Rightarrow> addr \<rightharpoonup> upkt"

text \<open>An entry, made where the kernel may make it; otherwise the caller gets an error.\<close>

definition enter :: "kernel \<Rightarrow> entry \<Rightarrow> drv \<Rightarrow> int \<times> drv" where
  "enter K e s =
     (case (if may_call K s e then dispatch K e s else None) of Some q \<Rightarrow> q | None \<Rightarrow> (- EFAULT, s))"

fun network_entry :: "entry \<Rightarrow> bool" where
  "network_entry Dev_open = True"
| "network_entry Dev_stop = True"
| "network_entry (Dev_xmit p b) = True"
| "network_entry Dev_stats = True"
| "network_entry (Dev_ioctl cmd) = True"
| "network_entry e = False"

definition network :: "kernel \<Rightarrow> entry list \<Rightarrow> drv \<Rightarrow> drv" where
  "network K es = fold (\<lambda>e s. if network_entry e then snd (enter K e s) else s) es"

text \<open>The entry of the driver that a call of the process comes to.\<close>

fun entry_of :: "world \<Rightarrow> ucall list \<Rightarrow> ucall \<Rightarrow> entry option" where
  "entry_of E h (U_open f r) = (if f = Kvnet_file then Some Open_file else None)"
| "entry_of E h (U_socket r) = None"
| "entry_of E h (U_close fd) = Some Release_file"
| "entry_of E h (U_ioctl fd cmd r) = Some (Ioctl_file cmd (w_arg E h))"
| "entry_of E h (U_poll fd ev tmo r) = Some Poll_file"
| "entry_of E h (U_read fd n r) = Some (Read_file O_NONBLOCK [n])"
| "entry_of E h (U_write fd bs r) = None"
| "entry_of E h (U_write_hdr fd n r) = Some (Write_file O_NONBLOCK [n])"

text \<open>
  The driver after a history of calls, from the state \<open>s\<close>, and what it is when the next call
  comes.
\<close>

definition reacts :: "kernel \<Rightarrow> world \<Rightarrow> ucall list \<Rightarrow> ucall \<Rightarrow> drv \<Rightarrow> drv" where
  "reacts K E h e s =
     (let s = network K (w_net E h) s in case entry_of E h e of None \<Rightarrow> s | Some c \<Rightarrow> snd (enter K c s))"

definition driver_after :: "kernel \<Rightarrow> world \<Rightarrow> drv \<Rightarrow> ucall list \<Rightarrow> drv" where
  "driver_after K E s h = snd (fold (\<lambda>e (g, s). (g @ [e], reacts K E g e s)) h ([], s))"

definition driver_at :: "kernel \<Rightarrow> world \<Rightarrow> drv \<Rightarrow> ucall list \<Rightarrow> drv" where
  "driver_at K E s h = network K (w_net E h) (driver_after K E s h)"

text \<open>What a system call returns for the result of the driver's entry.\<close>

definition syscall_result :: "int \<Rightarrow> int" where
  "syscall_result r = (if r < 0 then - 1 else r)"

text \<open>The memory of the process after what the driver has written to it.\<close>

fun store_user :: "kcall \<Rightarrow> (addr \<rightharpoonup> upkt) \<Rightarrow> (addr \<rightharpoonup> upkt)" where
  "store_user (Copy_to_user p bs left) m =
     (case m (p - 4) of
        None \<Rightarrow> m
      | Some b \<Rightarrow> (let n = length bs - left in
          m(p - 4 \<mapsto> b\<lparr>up_data := take n bs @ drop n (up_data b)\<rparr>)))"
| "store_user (Put_user p n ok) m =
     (case m p of None \<Rightarrow> m | Some b \<Rightarrow> if ok then m(p \<mapsto> b\<lparr>up_len := n\<rparr>) else m)"
| "store_user e m = m"

fun store_header :: "kcall \<Rightarrow> uhdr \<Rightarrow> uhdr" where
  "store_header (Memcpy_toiovec bs ok) h = (if ok then h\<lparr>u_count := of_nat (le_val bs)\<rparr> else h)"
| "store_header e h = h"

definition user_after :: "drv \<Rightarrow> drv \<Rightarrow> (addr \<rightharpoonup> upkt) \<Rightarrow> (addr \<rightharpoonup> upkt)" where
  "user_after s t m = fold store_user (drop (length (ktrace s)) (ktrace t)) m"

definition header_after :: "drv \<Rightarrow> drv \<Rightarrow> uhdr \<Rightarrow> uhdr" where
  "header_after s t h = fold store_header (drop (length (ktrace s)) (ktrace t)) h"

text \<open>
  The operating system: the calls on \<open>/dev/kvnet\<close> go to the driver, the rest is as \<open>W\<close> says. A
  \<open>poll\<close> for which there is nothing to report when the network stack is done ends with a signal.
\<close>

definition driver_os :: "kernel \<Rightarrow> world \<Rightarrow> drv \<Rightarrow> os \<Rightarrow> os" where
  "driver_os K E s W = W\<lparr>
     o_errno := (\<lambda>h. case rev h of U_poll fd ev tmo r # _ \<Rightarrow> if r = - 1 then EINTR else o_errno W h
                     | _ \<Rightarrow> o_errno W h),
     o_open := (\<lambda>h f. if f \<noteq> Kvnet_file then o_open W h f
                      else if fst (enter K Open_file (driver_at K E s h)) = 0 then w_fd E h else - 1),
     o_ioctl := (\<lambda>h fd cmd. syscall_result (fst (enter K (Ioctl_file cmd (w_arg E h)) (driver_at K E s h)))),
     o_poll := (\<lambda>h fd ev tmo.
        let mk = word_of_int (fst (enter K Poll_file (driver_at K E s h)))
        in if user_events mk \<noteq> 0 then (1, user_events mk, False) else (- 1, 0, False)),
     o_read_hdr := (\<lambda>h fd n.
        let s1 = driver_at K E s h; (r, t) = enter K (Read_file O_NONBLOCK [n]) s1
        in (syscall_result r, header_after s1 t (w_hdr E h), user_after s1 t (w_mem E h))),
     o_write_hdr := (\<lambda>h fd n. syscall_result (fst (enter K (Write_file O_NONBLOCK [n]) (driver_at K E s h))))\<rparr>"

lemma driver_os_simps [simp]:
  "o_ioctl (driver_os K E s W) h fd cmd =
     syscall_result (fst (enter K (Ioctl_file cmd (w_arg E h)) (driver_at K E s h)))"
  "o_open (driver_os K E s W) h Kvnet_file =
     (if fst (enter K Open_file (driver_at K E s h)) = 0 then w_fd E h else - 1)"
  by (simp_all add: driver_os_def)

section \<open>What the driver has become\<close>

lemma driver_after_Nil [simp]: "driver_after K E s [] = s"
  by (simp add: driver_after_def)

lemma driver_after_snoc [simp]: "driver_after K E s (h @ [e]) = reacts K E h e (driver_after K E s h)"
proof -
  have "fst (fold (\<lambda>e (g, s). (g @ [e], reacts K E g e s)) h (g, s)) = g @ h" for g
    by (induction h arbitrary: g s) auto
  then show ?thesis by (simp add: driver_after_def split_def)
qed

text \<open>An entry keeps the relation to the driver's specification, and does what it says.\<close>

lemma enter_spec:
  assumes "refines s t" and "kernel_laws K" and "may_call K s e" and "\<not> faulting K e s"
  shows "\<exists>r s' t'. enter K e s = (r, s') \<and> spec_step e t r t' \<and> refines s' t'"
  using step_simulates [OF assms(1-3)] assms(3,4) by (auto simp: simulates_def enter_def)

lemma enter_refused:
  assumes "refines s t" and "kernel_laws K" and "\<not> may_call K s e \<or> faulting K e s"
  shows "enter K e s = (- EFAULT, s)"
  using step_simulates [OF assms(1,2), of e] assms(3) by (auto simp: simulates_def enter_def)

lemma refines_flags:
  "refines s t \<Longrightarrow> is_loaded s = sp_loaded t \<and> file_is_open s = sp_open t"
  using running_facts by (fastforce simp: refines_def view_def spec_off_def unloaded_def is_loaded_def file_is_open_def)

text \<open>The network stack does not touch the file.\<close>

lemma network_spec:
  assumes "refines s t" and "kernel_laws K"
  shows "\<exists>t'. refines (network K es s) t' \<and> sp_loaded t' = sp_loaded t \<and> sp_open t' = sp_open t \<and>
    sp_cancelled t' = sp_cancelled t"
  using assms(1)
proof (induction es arbitrary: s t)
  case Nil
  then show ?case by (auto simp: network_def)
next
  case (Cons e es)
  have "\<exists>u. refines (if network_entry e then snd (enter K e s) else s) u \<and> sp_loaded u = sp_loaded t \<and>
      sp_open u = sp_open t \<and> sp_cancelled u = sp_cancelled t"
  proof (cases "network_entry e \<and> may_call K s e")
    case True
    then have "\<not> faulting K e s" by (cases e) simp_all
    with True enter_spec [OF Cons.prems assms(2), of e] obtain r s' t' where
      r: "enter K e s = (r, s')" "spec_step e t r t'" "refines s' t'" by blast
    from r(2) True have "sp_loaded t' = sp_loaded t \<and> sp_open t' = sp_open t \<and> sp_cancelled t' = sp_cancelled t"
      by (cases e) (auto split: if_splits)
    with r True show ?thesis by auto
  next
    case False
    with Cons.prems enter_refused [OF Cons.prems assms(2), of e] show ?thesis by auto
  qed
  with Cons.IH show ?case by (fastforce simp: network_def)
qed

text \<open>
  What is asked of the rest of the world: \<open>open\<close> does not give out \<open>- 1\<close> as a descriptor, and the
  addresses \<open>P\<close> are packets of the process.
\<close>

definition world_laws :: "world \<Rightarrow> addr set \<Rightarrow> bool" where
  "world_laws E P \<longleftrightarrow> (\<forall>h. w_fd E h \<noteq> - 1 \<and> P \<subseteq> dom (w_mem E h))"

definition ready :: "drv \<Rightarrow> bool" where
  "ready s \<longleftrightarrow> (\<exists>t. refines s t \<and> sp_loaded t \<and> \<not> sp_open t)"

text \<open>
  After a history of device calls: the file is open in the driver exactly while the process has a
  descriptor, and a cancellation that the process made is one in the driver.
\<close>

definition in_step :: "drv \<Rightarrow> ucall list \<Rightarrow> bool" where
  "in_step s h \<longleftrightarrow> (\<exists>t fds. refines s t \<and> sp_loaded t \<and> fds_run h [] = Some fds \<and>
     sp_open t = (fds \<noteq> []) \<and> (fds \<noteq> [] \<and> cancel_seen h \<longrightarrow> sp_cancelled t))"

lemma in_step_network:
  assumes "in_step s h" and "kernel_laws K"
  shows "in_step (network K es s) h"
proof -
  from assms(1) obtain t fds where t: "refines s t" "sp_loaded t" "fds_run h [] = Some fds"
    "sp_open t = (fds \<noteq> [])" "fds \<noteq> [] \<and> cancel_seen h \<longrightarrow> sp_cancelled t" by (auto simp: in_step_def)
  from network_spec [OF t(1) assms(2), of es] t show ?thesis unfolding in_step_def by metis
qed

lemma in_step_call:
  assumes at: "in_step (driver_at K E s h) h" and K: "kernel_laws K" and E: "world_laws E P"
    and e: "device_call (driver_os K E s W) h e"
  shows "in_step (driver_after K E s (h @ [e])) (h @ [e])"
proof -
  let ?s = "driver_at K E s h"
  have snoc: "fds_run (h @ [e]) [] = do { fds \<leftarrow> fds_run h []; fds_step e fds }" for e
  proof -
    have "fds_run [e] fds = fds_step e fds" for fds by (cases "fds_step e fds") simp_all
    then show ?thesis by (simp only: fds_run_append)
  qed
  from at obtain t fds where t: "refines ?s t" "sp_loaded t" "fds_run h [] = Some fds"
    "sp_open t = (fds \<noteq> [])" "fds \<noteq> [] \<and> cancel_seen h \<longrightarrow> sp_cancelled t" by (auto simp: in_step_def)
  note F = refines_flags [OF t(1)]
  from e obtain c where c: "entry_of E h e = Some c" by (cases e) auto
  have r: "driver_after K E s (h @ [e]) = snd (enter K c ?s)"
    by (simp add: reacts_def driver_at_def Let_def c)
  show ?thesis
  proof (cases "may_call K ?s c \<and> \<not> faulting K c ?s")
    case True
    then have "may_call K ?s c" "\<not> faulting K c ?s" by simp_all
    from enter_spec [OF t(1) K this] obtain q u t' where
      u: "enter K c ?s = (q, u)" "spec_step c t q t'" "refines u t'" by blast
    from u(2) t c e u(1) E have "sp_loaded t' \<and> (\<exists>gs. fds_run (h @ [e]) [] = Some gs \<and>
        sp_open t' = (gs \<noteq> []) \<and> (gs \<noteq> [] \<and> cancel_seen (h @ [e]) \<longrightarrow> sp_cancelled t'))"
      by (cases e) (auto simp: snoc syscall_result_def world_laws_def split: if_splits)
    with u(1,3) show ?thesis unfolding r in_step_def by auto
  next
    case False
    then have "enter K c ?s = (- EFAULT, ?s)" by (intro enter_refused [OF t(1) K]) blast
    with False t c e F show ?thesis unfolding r in_step_def
      by (intro exI [of _ t] exI [of _ fds]) (cases e; auto simp: snoc)
  qed
qed

lemma in_step_run:
  assumes "ready s" and K: "kernel_laws K" and E: "world_laws E P" and "device_run (driver_os K E s W) h"
  shows "in_step (driver_at K E s h) h"
  using assms(4)
proof (induction h rule: rev_induct)
  case Nil
  have "in_step s []" using assms(1) by (auto simp: ready_def in_step_def)
  from in_step_network [OF this K] show ?case by (simp add: driver_at_def)
next
  case (snoc e h)
  then have "in_step (driver_at K E s h) h" "device_call (driver_os K E s W) h e" by simp_all
  from in_step_call [OF this(1) K E this(2)] in_step_network [OF _ K] show ?case
    unfolding driver_at_def by blast
qed

lemma store_user_dom: "dom (fold store_user es m) = dom m"
proof (induction es arbitrary: m)
  case (Cons e es)
  have "dom (store_user e m) = dom m"
    by (cases e) (auto simp: Let_def split: option.splits)
  with Cons show ?case by simp
qed simp

text \<open>The driver keeps the laws that the program's quitting rests on.\<close>

lemma driver_os_laws:
  assumes s: "ready s" and K: "kernel_laws K" and E: "world_laws E P"
  shows "device_laws (driver_os K E s W) P"
  unfolding device_laws_def
proof (intro allI impI, elim conjE)
  fix h fd
  let ?s = "driver_at K E s h" and ?W = "driver_os K E s W"
  assume h: "device_run ?W h" and fd: "fds_run h [] = Some [fd]"
  from in_step_run [OF s K E h] fd obtain t where t: "refines ?s t" "sp_loaded t" "sp_open t"
    "cancel_seen h \<longrightarrow> sp_cancelled t" by (auto simp: in_step_def)
  have may: "may_call K ?s (Ioctl_file cmd arg)" "may_call K ?s Poll_file" for cmd arg
    using refines_flags [OF t(1)] t(3) by simp_all
  have "o_ioctl ?W h fd KVNET_IOCTL_CANCEL_PENDING_READ \<noteq> - 1"
    using enter_spec [OF t(1) K may(1) [of KVNET_IOCTL_CANCEL_PENDING_READ "w_arg E h"]]
    by (auto simp: syscall_result_def)
  moreover have "\<exists>revents c. o_poll ?W h fd (U_POLLIN OR U_POLLERR) (- 1) = (1, revents, c) \<and>
      revents AND U_POLLERR \<noteq> 0" if "cancel_seen h"
  proof -
    have "spec_mask t = POLLPRI OR POLLERR" using t(4) that by (simp add: spec_mask_def)
    with enter_spec [OF t(1) K may(2)] obtain u where "enter K Poll_file ?s = (uint (POLLPRI OR POLLERR :: u32), u)"
      by auto
    moreover have "user_events (POLLPRI OR POLLERR) = U_POLLERR" by (simp only: user_events_values)
    ultimately have "o_poll ?W h fd (U_POLLIN OR U_POLLERR) (- 1) = (1, U_POLLERR, False)"
      by (simp add: driver_os_def Let_def del: word_of_int_numeral uint_or)
    then show ?thesis by (intro exI [of _ U_POLLERR] exI [of _ False]) simp
  qed
  moreover have "P \<subseteq> dom m" if "o_read_hdr ?W h fd n = (r, hdr, m)" for n r hdr m
  proof -
    have "m = user_after ?s (snd (enter K (Read_file O_NONBLOCK [n]) ?s)) (w_mem E h)"
      using that by (auto simp: driver_os_def Let_def split: prod.splits)
    then have "dom m = dom (w_mem E h)" by (simp only: user_after_def store_user_dom)
    with E show ?thesis by (simp add: world_laws_def)
  qed
  ultimately show "o_ioctl ?W h fd KVNET_IOCTL_CANCEL_PENDING_READ \<noteq> - 1 \<and>
     (cancel_seen h \<longrightarrow> (\<exists>revents c. o_poll ?W h fd (U_POLLIN OR U_POLLERR) (- 1) = (1, revents, c) \<and>
        revents AND U_POLLERR \<noteq> 0)) \<and>
     (\<forall>n r hdr m. o_read_hdr ?W h fd n = (r, hdr, m) \<longrightarrow> r \<noteq> - 1 \<longrightarrow> P \<subseteq> dom m)" by blast
qed

text \<open>
  The example program quits on the driver, when a call of the process is one step, a sleeping
  \<open>poll\<close> too: the wake-ups play no part here, and a cancellation that comes while a \<open>poll\<close> runs is
  not among the runs (\<open>Quitting\<close> cuts the \<open>poll\<close> and the cancellation into their sections). With the
  module loaded and \<open>/dev/kvnet\<close> closed when it starts, and whatever the network stack does with the
  interface meanwhile: once \<open>main\<close> waits for the packet loop, no run goes on for ever, and every run
  goes on until \<open>main\<close> has returned, the loop has ended, the device is closed and all memory is freed.
\<close>

lemma client_quits_on_driver:
  assumes s: "ready s" and K: "kernel_laws K" and E: "world_laws E (set (pointers M 64))"
    and M: "enough_memory M" and tap: "use_tap_arg argv = 0"
    and p: "prog_reachable M (driver_os K E s W) argv p" "p_main p = M_join"
  shows "(\<nexists>f. f 0 = p \<and> (\<forall>n. prog_step M (driver_os K E s W) argv (f n) (f (Suc n)))) \<and>
    (\<forall>q. (prog_step M (driver_os K E s W) argv)\<^sup>*\<^sup>* p q \<longrightarrow>
       finished q \<or> (\<exists>u. prog_step M (driver_os K E s W) argv q u))"
  by (rule quitting_ends [OF p driver_os_laws [OF s K E] M tap])

section \<open>A packet, from the network stack to the process\<close>

text \<open>What becomes of a packet of the process into which the driver copies \<open>b\<close>.\<close>

definition filled :: "sk_buff \<Rightarrow> upkt \<Rightarrow> upkt" where
  "filled b u = (let n = min (skb_len b) (up_len u); d = take (unat n) (skb_data b)
     in u\<lparr>up_data := d @ drop (length d) (up_data u), up_len := n\<rparr>)"

fun fill_packets :: "(addr \<times> sk_buff) list \<Rightarrow> (addr \<rightharpoonup> upkt) \<Rightarrow> (addr \<rightharpoonup> upkt)" where
  "fill_packets [] m = m"
| "fill_packets ((p, b) # ps) m = fill_packets ps (m(p \<mapsto> filled b (the (m p))))"

lemma store_copy:
  "m p = Some u \<Longrightarrow> store_user (Copy_to_user (pkt_data p) bs 0) m =
     m(p \<mapsto> u\<lparr>up_data := bs @ drop (length bs) (up_data u)\<rparr>)"
  by (simp add: pkt_data_def)

lemma store_delivered:
  assumes "m p = Some u" and "cap p = up_len u"
  shows "fold store_user (deliver_calls cap p x b) m = m(p \<mapsto> filled b u)"
  using assms by (simp add: deliver_calls_def deliver_len_def store_copy filled_def Let_def del: store_user.simps(1))

lemma store_loop:
  assumes "distinct (map P js)" and "\<And>i. i \<in> set js \<Longrightarrow> \<exists>u. m (P i) = Some u \<and> cap (P i) = up_len u"
  shows "fold store_user (loop_calls cap P pool js xs) m = fill_packets (zip (map P js) (map (\<lambda>x. the (pool x)) xs)) m"
  using assms
proof (induction js arbitrary: xs m)
  case (Cons i js)
  show ?case
  proof (cases xs)
    case (Cons x ys)
    from Cons.prems(2) [of i] obtain u where u: "m (P i) = Some u" "cap (P i) = up_len u" by auto
    define m' where "m' = m(P i \<mapsto> filled (the (pool x)) u)"
    have "fold store_user (loop_calls cap P pool js ys) m' =
        fill_packets (zip (map P js) (map (\<lambda>x. the (pool x)) ys)) m'"
      by (rule Cons.IH) (use Cons.prems in \<open>auto simp: m'_def image_iff\<close>)
    with u Cons store_delivered [where m = m and p = "P i" and cap = cap, OF u] show ?thesis
      by (simp add: loop_calls_Cons m'_def)
  qed (simp add: loop_calls_Cons)
qed (simp add: loop_calls_Cons)

lemma store_read:
  assumes "distinct ptrs" and "\<And>p. p \<in> set ptrs \<Longrightarrow> \<exists>u. m p = Some u \<and> cap p = up_len u"
  shows "fold store_user (read_calls K s len ptrs rest cap dev xs) m = fill_packets (zip ptrs (frames s xs)) m"
proof -
  have "fold store_user (loop_calls cap (\<lambda>i. ptrs ! i) (pool_of s) [0..<length ptrs] xs) m =
      fill_packets (zip (map (\<lambda>i. ptrs ! i) [0..<length ptrs]) (map (\<lambda>x. the (pool_of s x)) xs)) m"
    by (rule store_loop) (use assms in \<open>auto simp: map_nth\<close>)
  then show ?thesis by (simp add: read_calls_def Let_def map_nth frames_def)
qed

lemma header_loop: "fold store_header (loop_calls cap P pool js xs) h = h"
proof (induction js arbitrary: xs)
  case (Cons i js)
  then show ?case by (cases xs) (simp_all add: loop_calls_Cons deliver_calls_def)
qed (simp add: loop_calls_Cons)

lemma header_read:
  "xs \<noteq> [] \<Longrightarrow> fold store_header (read_calls K s len ptrs rest cap dev xs) h =
     h\<lparr>u_count := of_nat (le_val (le_bytes 4 (min (length ptrs) (length xs))))\<rparr>"
  by (simp add: read_calls_def Let_def header_loop)


text \<open>The process's memory as the driver finds it: the request, and packets at its pointers.\<close>

definition request :: "kernel \<Rightarrow> drv \<Rightarrow> u64 \<Rightarrow> addr list \<Rightarrow> (addr \<rightharpoonup> upkt) \<Rightarrow> bool" where
  "request K s len ptrs m \<longleftrightarrow> distinct ptrs \<and> (\<exists>rest. good_header K s len ptrs rest) \<and>
     (\<forall>p \<in> set ptrs. m p \<noteq> None) \<and> user_ok K (ktrace s) (set ptrs) (\<lambda>p. up_len (the (m p))) \<and>
     (\<forall>h bs. k_memcpy_toiovec K h bs)"

definition file_at :: "drv \<Rightarrow> addr \<Rightarrow> vnet \<Rightarrow> addr list \<Rightarrow> bool" where
  "file_at s a v xs \<longleftrightarrow> drv_inv s a v xs \<and> vn_device (net_dev v) \<noteq> NULL \<and>
     io_opened (io_dev v) \<noteq> 0 \<and> io_canceled (io_dev v) = 0"

lemma file_at_open: "file_at s a v xs \<Longrightarrow> file_is_open s"
  by (simp add: file_at_def inv_defs file_is_open_def)

lemma driver_read:
  assumes run: "file_at s a v xs" and xs: "xs \<noteq> []"
    and rq: "request K s len ptrs m"
  shows "\<exists>t. enter K (Read_file O_NONBLOCK [len]) s = (4 + 8 * int (min (length ptrs) (length xs)), t) \<and>
    user_after s t m = fill_packets (zip ptrs (frames s xs)) m \<and>
    (\<forall>h. header_after s t h = h\<lparr>u_count := of_nat (min (length ptrs) (length xs))\<rparr>)"
proof -
  have inv: "drv_inv s a v xs" and dev: "vn_device (net_dev v) \<noteq> NULL" using run by (simp_all add: file_at_def)
  obtain rest where hdr: "good_header K s len ptrs rest" and dist: "distinct ptrs"
    and user: "user_ok K (ktrace s) (set ptrs) (\<lambda>p. up_len (the (m p)))"
    using rq by (auto simp: request_def)
  have out: "k_memcpy_toiovec K h bs" for h bs using rq by (simp add: request_def)
  have mem: "\<exists>u. m p = Some u \<and> up_len (the (m p)) = up_len u" if "p \<in> set ptrs" for p
    using rq that by (auto simp: request_def)
  let ?n = "min (length ptrs) (length xs)"
  from io_read_exact [OF inv dev hdr dist user out] xs obtain t where
    t: "io_read_to_iovec K len s = Some (4 + 8 * int ?n, t)"
      "ktrace t = ktrace s @ read_calls K s len ptrs rest (\<lambda>p. up_len (the (m p))) (vn_device (net_dev v)) xs"
    by auto
  have len: "unat len < 2 ^ 31" and small: "length ptrs < 2 ^ 28"
    using hdr by (simp_all add: good_header_def length_header_bytes Let_def)
  have "io_dev_iov_total [len] = len" by (simp add: io_dev_iov_total_def)
  moreover have "sint len = int (unat len)"
    using sint_of_nat_u64 [OF len] by simp
  ultimately have "enter K (Read_file O_NONBLOCK [len]) s = (4 + 8 * int ?n, t)"
    using t(1) len file_at_open [OF run] by (simp add: enter_def io_dev_aio_read_def Let_def)
  moreover have "user_after s t m = fill_packets (zip ptrs (frames s xs)) m"
  proof -
    have "fold store_user (read_calls K s len ptrs rest (\<lambda>p. up_len (the (m p))) (vn_device (net_dev v)) xs) m =
        fill_packets (zip ptrs (frames s xs)) m"
      by (rule store_read [OF dist]) (use mem in blast)
    then show ?thesis by (simp add: user_after_def t(2))
  qed
  moreover have "?n mod 256 ^ 4 = ?n" using small by simp
  then have "header_after s t h = h\<lparr>u_count := of_nat ?n\<rparr>" for h
    using header_read [OF xs] by (simp add: header_after_def t(2) le_val_bytes)
  ultimately show ?thesis by blast
qed

lemma driver_polls:
  assumes run: "file_at s a v xs" and xs: "xs \<noteq> []"
  shows "\<exists>t. enter K Poll_file s = (uint ((POLLOUT OR POLLWRNORM) OR (POLLIN OR POLLRDNORM) :: u32), t) \<and>
    file_at t a v xs \<and> frames t xs = frames s xs"
proof -
  let ?m = "(POLLOUT OR POLLWRNORM) OR (POLLIN OR POLLRDNORM) :: u32"
  have inv: "drv_inv s a v xs" and live: "io_canceled (io_dev v) = 0" using run by (simp_all add: file_at_def)
  from io_dev_poll_inv [OF inv] live xs obtain t where
    t: "io_dev_poll s = Some (?m, t)" "drv_inv t a v xs" "same_but_trace s t" by auto
  then have "enter K Poll_file s = (uint ?m, t)" using file_at_open [OF run] by (simp add: enter_def)
  moreover have "frames t xs = frames s xs" using t(3) by (intro frames_skbs) (simp add: same_but_trace_def)
  ultimately show ?thesis using t(2) run by (auto simp: file_at_def)
qed

lemma driver_polled:
  assumes run: "file_at (driver_at K E s (utrace l)) a v xs" and xs: "xs \<noteq> []"
  shows "polled (driver_os K E s W) l ((POLLOUT OR POLLWRNORM) OR (POLLIN OR POLLRDNORM))"
proof -
  let ?s = "driver_at K E s (utrace l)" and ?m = "(POLLOUT OR POLLWRNORM) OR (POLLIN OR POLLRDNORM) :: u32"
  have "fst (enter K Poll_file ?s) = uint ?m" using driver_polls [OF assms, of K] by auto
  moreover have "user_events ?m = U_POLLIN" by (simp only: user_events_values)
  ultimately show ?thesis
    unfolding polled_def
    by (intro conjI exI [of _ False]) (simp_all add: driver_os_def Let_def del: uint_or word_of_int_numeral)
qed

text \<open>A read of the library, with \<open>xs\<close> waiting at its \<open>poll\<close> and \<open>ys\<close> when its \<open>read\<close> follows.\<close>

lemma library_read:
  assumes l: "on_device (driver_os K E s W) l" "fdesc l \<noteq> - 1" "12 \<le> len"
    and poll: "file_at (driver_at K E s (utrace l)) a v xs" "xs \<noteq> []"
    and h: "h = utrace l @ [U_poll (fdesc l) (U_POLLIN OR U_POLLERR) (- 1) 1]"
    and read: "file_at (driver_at K E s h) a w ys" "ys \<noteq> []"
    and user: "request K (driver_at K E s h) (ucast len) (u_pkt hdr) (w_mem E h)" "w_hdr E h = hdr"
  shows "\<exists>st l'. kvnet_read (driver_os K E s W) (Some hdr) len l =
      Some (st, Some (hdr\<lparr>u_count := of_nat (min (length (u_pkt hdr)) (length ys))\<rparr>), l') \<and>
    KVNET_SUCCEEDED st \<and>
    upkts l' = fill_packets (zip (u_pkt hdr) (frames (driver_at K E s h) ys)) (w_mem E h)"
proof -
  let ?W = "driver_os K E s W" and ?s = "driver_at K E s h" and ?n = "min (length (u_pkt hdr)) (length ys)"
  let ?l = "ulog (U_poll (fdesc l) (U_POLLIN OR U_POLLERR) (- 1) 1) l"
  have tap: "use_tap_dev l = 0" using l(1) by (simp add: on_device_def)
  from driver_read [OF read user(1)] obtain t where
    t: "enter K (Read_file O_NONBLOCK [ucast len]) ?s = (4 + 8 * int ?n, t)"
      "user_after ?s t (w_mem E h) = fill_packets (zip (u_pkt hdr) (frames ?s ys)) (w_mem E h)"
      "\<forall>h. header_after ?s t h = h\<lparr>u_count := of_nat ?n\<rparr>" by blast
  let ?m = "fill_packets (zip (u_pkt hdr) (frames ?s ys)) (w_mem E h)" and ?r = "4 + 8 * int ?n"
  have tr: "utrace ?l = h" "fdesc ?l = fdesc l" by (simp_all add: h)
  have "o_read_hdr ?W h (fdesc l) (ucast len) = (?r, hdr\<lparr>u_count := of_nat ?n\<rparr>, ?m)"
    using t user(2) by (simp add: driver_os_def Let_def syscall_result_def)
  moreover have "?r \<noteq> - 1" by simp
  ultimately have "kvnet_read_dev ?W hdr len ?l =
      (let u = (ulog (U_read (fdesc l) (ucast len) ?r) ?l)\<lparr>upkts := ?m\<rparr> in
       (status ?W KVNET_NO_ERROR u, hdr\<lparr>u_count := of_nat ?n\<rparr>, u))"
    by (simp only: kvnet_read_dev_def Let_def tr prod.case if_False)
  moreover have "poll_done ?W hdr len 1 U_POLLIN ?l = Some (kvnet_read_dev ?W hdr len ?l)"
    using tap by (simp add: poll_done_def)
  moreover have "user_events ((POLLOUT OR POLLWRNORM) OR (POLLIN OR POLLRDNORM)) = U_POLLIN"
    by (simp only: user_events_values)
  ultimately show ?thesis
    using kvnet_read_polled [OF l(2) tap l(3) driver_polled [OF poll, where W = W], of hdr]
    by (simp add: Let_def KVNET_SUCCEEDED_def)
qed

definition xmits :: "(addr \<times> sk_buff) list \<Rightarrow> entry list" where
  "xmits ps = map (\<lambda>(p, b). Dev_xmit p b) ps"

lemma network_xmits:
  assumes "drv_inv s a v xs" and "vn_device (net_dev v) \<noteq> NULL" and "up_of s" and "sendable ps s"
  shows "send_all K ps s = Some (network K (xmits ps) s)"
  using assms
proof (induction ps arbitrary: s v xs)
  case Nil
  then show ?case by (simp add: network_def xmits_def)
next
  case (Cons pb ps)
  obtain p b where pb: "pb = (p, b)" by (cases pb)
  from send_one [OF Cons.prems(1-3), of p b ps K] Cons.prems(4) pb obtain t w where
    t: "net_dev_send K p (the_dev s) (handed p b s) = Some (0, t)" "drv_inv t a w (take (capacity v) (xs @ [p]))"
      "sendable ps t" "up_of t" "vn_device (net_dev w) = vn_device (net_dev v)" by blast
  have "the_dev s \<noteq> NULL" using Cons.prems(1,2) by (simp add: the_dev_inv)
  then have "may_call K s (Dev_xmit p b)" using Cons.prems(4) pb by (auto simp: sendable_def)
  then have "enter K (Dev_xmit p b) s = (0, t)" using t(1) by (simp add: enter_def)
  with Cons.IH [OF t(2) _ t(4,3)] Cons.prems(2) t(1,5) pb show ?case
    by (simp add: network_def xmits_def)
qed

text \<open>
  (C7) From the network stack to the process: packets \<open>ps\<close> that the stack sends, with the interface
  up, while \<open>kvnet_read\<close> waits in \<open>poll\<close> join those already waiting, up to 256. The read
  succeeds: the packets at the process's pointers hold, in order, what fits of those in the queue,
  with their lengths, the header says how many, and nothing else in the process's memory has
  changed.
\<close>

theorem sent_packets_read:
  assumes l: "on_device (driver_os K E s W) l" "fdesc l \<noteq> - 1" "12 \<le> len"
    and net: "w_net E (utrace l) = es @ xmits ps" "u = network K es (driver_after K E s (utrace l))"
    and run: "running u a v xs" "io_opened (io_dev v) \<noteq> 0" "io_canceled (io_dev v) = 0"
    and up: "up_of u" "sendable ps u" "xs \<noteq> [] \<or> ps \<noteq> []"
    and h: "h = utrace l @ [U_poll (fdesc l) (U_POLLIN OR U_POLLERR) (- 1) 1]" "w_net E h = []"
    and user: "request K (driver_at K E s h) (ucast len) (u_pkt hdr) (w_mem E h)" "w_hdr E h = hdr"
  shows "\<exists>st l' n. kvnet_read (driver_os K E s W) (Some hdr) len l = Some (st, Some (hdr\<lparr>u_count := of_nat n\<rparr>), l') \<and>
    KVNET_SUCCEEDED st \<and> n = min (length (u_pkt hdr)) (min 256 (length xs + length ps)) \<and>
    upkts l' = fill_packets (zip (u_pkt hdr)
      (take 256 (frames u xs @ map (payload \<circ> snd) ps))) (w_mem E h)"
proof -
  let ?ys = "take 256 (xs @ map fst ps)"
  note F = running_facts [OF run(1)]
  have cap: "capacity v = 256" using run(1) by (simp add: running_def capacity_def module_cfg_def)
  have dev: "vn_device (net_dev v) \<noteq> NULL" using F(7) run(2) by simp
  have at: "driver_at K E s (utrace l) = network K (xmits ps) u" by (simp add: driver_at_def net network_def)
  from send_all_bounded_fifo [OF F(1) dev up(1,2), of K, unfolded cap] network_xmits [OF F(1) dev up(1,2), of K]
  obtain w where w: "drv_inv (driver_at K E s (utrace l)) a w ?ys" "vn_device (net_dev w) = vn_device (net_dev v)"
      "io_dev w = io_dev v" "frames (driver_at K E s (utrace l)) ?ys = take 256 (frames u xs @ map (payload \<circ> snd) ps)"
    unfolding at by auto
  have f: "file_at (driver_at K E s (utrace l)) a w ?ys" using w dev run(2,3) by (simp add: file_at_def)
  have ys: "?ys \<noteq> []" using up(3) by auto
  from driver_polls [OF f ys, of K] obtain t where
    t: "enter K Poll_file (driver_at K E s (utrace l)) = (uint ((POLLOUT OR POLLWRNORM) OR (POLLIN OR POLLRDNORM) :: u32), t)"
      "file_at t a w ?ys" "frames t ?ys = frames (driver_at K E s (utrace l)) ?ys" by blast
  have "driver_at K E s h = driver_after K E s h" by (simp add: driver_at_def h(2) network_def)
  also have "\<dots> = snd (enter K Poll_file (driver_at K E s (utrace l)))"
    by (simp add: h(1) reacts_def driver_at_def Let_def)
  finally have r: "driver_at K E s h = t" using t(1) by simp
  have "file_at (driver_at K E s h) a w ?ys" using t(2) r by simp
  from library_read [OF l f ys h(1) this ys user] obtain st l' where
    "kvnet_read (driver_os K E s W) (Some hdr) len l =
      Some (st, Some (hdr\<lparr>u_count := of_nat (min (length (u_pkt hdr)) (length ?ys))\<rparr>), l')" "KVNET_SUCCEEDED st"
    "upkts l' = fill_packets (zip (u_pkt hdr) (frames (driver_at K E s h) ?ys)) (w_mem E h)" by blast
  moreover have "length ?ys = min 256 (length xs + length ps)" by (simp add: min.commute)
  moreover have "frames (driver_at K E s h) ?ys = take 256 (frames u xs @ map (payload \<circ> snd) ps)"
    using t(3) w(4) r by simp
  ultimately show ?thesis by metis
qed

end
