(* ===== verification/Read_Rounds.thy ===== *)
theory Read_Rounds
  imports Traffic
begin

text \<open>
  The rounds of a read's loop, one by one, for the theories that let other handlers run between
  them. A round is described in any state of the driver in which the queue is in order, also
  while the interface is going down and its queue is switched off already.
\<close>

section \<open>Rounds\<close>

text \<open>The loop is its first round, and the others if that delivered a packet.\<close>

lemma io_read_loop_round:
  assumes "0 \<le> ret"
  shows "io_read_loop K m (i # js) ret s = do {
    (r, s) \<leftarrow> io_read_loop K m [i] ret s;
    if r = ret + 1 then io_read_loop K m js r s else Some (r, s) }"
  using assms by (auto split: bind_splits)

text \<open>
  The reader between two rounds: the index of the next pointer, the value to return so far,
  and whether the loop is still running.
\<close>

record reader =
  rd_index :: nat
  rd_ret :: int
  rd_live :: bool

fun fetch_round :: "kernel \<Rightarrow> block \<Rightarrow> reader \<Rightarrow> drv \<Rightarrow> (reader \<times> drv) option" where
  "fetch_round K m rd s =
     (if rd_live rd then do {
        (r, s) \<leftarrow> io_read_loop K m [rd_index rd] (rd_ret rd) s;
        Some (\<lparr>rd_index = rd_index rd + 1, rd_ret = r, rd_live = (r = rd_ret rd + 1)\<rparr>, s) }
      else Some (rd, s))"

declare fetch_round.simps [simp del]

section \<open>A queue that is switched off\<close>

text \<open>The reader does not look at \<open>enabled\<close>: what it does is the same for any value.\<close>

definition enabled_as :: "int \<Rightarrow> vnet \<Rightarrow> vnet" where
  "enabled_as e v = net_dev_update (vn_queue_update (q_enabled_update (\<lambda>_. e))) v"

definition with_enabled :: "int \<Rightarrow> drv \<Rightarrow> drv" where
  "with_enabled e s = s\<lparr>gs_vnet := map_option (map_prod id (enabled_as e)) (gs_vnet s)\<rparr>"

lemma with_enabled_simps [simp]:
  "skbs (with_enabled e s) = skbs s" "netdevs (with_enabled e s) = netdevs s"
  "ktrace (with_enabled e s) = ktrace s" "lock_of (with_enabled e s) = lock_of s"
  "up_of (with_enabled e s) = up_of s" "held_of (with_enabled e s) = held_of s"
  "pool_of (with_enabled e s) = pool_of s"
  by (simp_all add: with_enabled_def pool_of_def lock_of_def up_of_def held_of_def fun_eq_iff)

lemma with_enabled_log: "with_enabled e (log c s) = log c (with_enabled e s)"
  by (simp add: with_enabled_def log_def)

lemma raw_remove_enabled:
  "raw_queue_remove (q\<lparr>q_enabled := e\<rparr>) (s\<lparr>gs_vnet := g\<rparr>) =
     map_option (\<lambda>(x, q, s). (x, q\<lparr>q_enabled := e\<rparr>, s\<lparr>gs_vnet := g\<rparr>)) (raw_queue_remove q s)"
  for s :: drv
  by (auto simp: raw_queue_remove_def SET_NEXT_PKT_def GET_NEXT_PKT_def skb_update_def skb_at_def Let_def
      split: bind_splits option.splits)

lemma raw_remove_gs_vnet: "raw_queue_remove q s = Some (x, r, t) \<Longrightarrow> gs_vnet t = gs_vnet s"
  for s :: drv
  by (auto simp: raw_queue_remove_def SET_NEXT_PKT_def GET_NEXT_PKT_def skb_update_def Let_def
      split: bind_splits if_splits)

lemma take_enabled:
  "with_queue queue_remove (with_enabled e s) =
     map_option (\<lambda>(x, s). (x, with_enabled e s)) (with_queue queue_remove s)"
proof (cases "gs_vnet s")
  case None
  then show ?thesis by (simp add: with_enabled_def with_queue_def vnet_dev_def)
next
  case (Some av)
  obtain a v where av: "gs_vnet s = Some (a, v)" using Some by (cases av) simp
  let ?q = "vn_queue (net_dev v)" and ?g = "Some (a, enabled_as e v)"
  have w: "with_enabled e s = s\<lparr>gs_vnet := ?g\<rparr>" by (simp add: with_enabled_def av)
  have A: "acquire_lock Queue_lock (s\<lparr>gs_vnet := ?g\<rparr>) = (acquire_lock Queue_lock s)\<lparr>gs_vnet := ?g\<rparr>"
    by (simp add: acquire_lock_def log_def)
  have q: "vn_queue (net_dev (enabled_as e v)) = ?q\<lparr>q_enabled := e\<rparr>" by (simp add: enabled_as_def)
  have E: "enabled_as e (net_dev_update (vn_queue_update (\<lambda>_. p)) v) =
      net_dev_update (vn_queue_update (\<lambda>_. p\<lparr>q_enabled := e\<rparr>)) (enabled_as e v)" for p
    by (simp add: enabled_as_def)
  show ?thesis
  proof (cases "raw_queue_remove ?q (acquire_lock Queue_lock s)")
    case None
    then show ?thesis using raw_remove_enabled [of e ?q ?g "acquire_lock Queue_lock s"] av
      by (simp add: w with_queue_def vnet_dev_def queue_remove_raw A q)
  next
    case (Some r)
    obtain x p t where r: "r = (x, p, t)" by (cases r)
    have "gs_vnet t = Some (a, v)"
      using raw_remove_gs_vnet [OF Some [unfolded r]] av by (simp add: acquire_lock_def)
    then show ?thesis using raw_remove_enabled [of e ?q ?g "acquire_lock Queue_lock s"] av Some r
      by (simp add: w with_queue_def vnet_dev_def queue_remove_raw A q release_lock_def log_def
          with_enabled_def E)
  qed
qed

lemma count_enabled:
  "vnet_upd (net_dev_update (vn_stats_update f)) (with_enabled e s) =
     map_option (with_enabled e) (vnet_upd (net_dev_update (vn_stats_update f)) s)"
  by (auto simp: vnet_upd_def with_enabled_def enabled_as_def split: option.splits)

lemma kfree_enabled: "kfree_skb p (with_enabled e s) = map_option (with_enabled e) (kfree_skb p s)"
  by (auto simp: kfree_skb_def skb_at_def with_enabled_def log_def split: bind_splits)

lemma fill_enabled:
  "io_read_fill_network_packet K p x (with_enabled e s) =
     map_option (map_prod id (with_enabled e)) (io_read_fill_network_packet K p x s)"
  by (auto simp: io_read_fill_network_packet_def Let_def skb_at_def count_enabled
      with_enabled_log [symmetric] split: option.splits bind_splits)

lemma round_enabled:
  "io_read_loop K m [i] ret (with_enabled e s) =
     map_option (map_prod id (with_enabled e)) (io_read_loop K m [i] ret s)"
  by (auto simp: take_enabled fill_enabled kfree_enabled split: bind_splits option.splits)

section \<open>States of the driver, up or going down\<close>

text \<open>
  The invariant between the sections: that of a state of the driver except for \<open>enabled\<close>. The
  interface may still count as up though its queue is switched off.
\<close>

definition going_down :: "drv \<Rightarrow> addr \<Rightarrow> vnet \<Rightarrow> addr list \<Rightarrow> bool" where
  "going_down s a v xs \<longleftrightarrow> drv_core s a v xs \<and> (up_of s \<longrightarrow> vn_added (net_dev v) \<noteq> 0) \<and> (up_of s \<or> xs = [])"

lemma drv_inv_going_down: "drv_inv s a v xs \<Longrightarrow> going_down s a v xs"
  by (auto simp: drv_inv_def going_down_def)

lemma going_down_inv:
  "going_down s a v [] \<Longrightarrow> q_enabled (vn_queue (net_dev v)) = 0 \<Longrightarrow> \<not> up_of s \<Longrightarrow> drv_inv s a v []"
  by (simp add: drv_inv_def going_down_def)

lemma enabled_as_simps [simp]:
  "vn_device (net_dev (enabled_as e v)) = vn_device (net_dev v)"
  "vn_added (net_dev (enabled_as e v)) = vn_added (net_dev v)" "cfg (enabled_as e v) = cfg v"
  "vn_stats (net_dev (enabled_as e v)) = vn_stats (net_dev v)"
  "q_enabled (vn_queue (net_dev (enabled_as e v))) = e" "io_dev (enabled_as e v) = io_dev v"
  "queue_rep (vn_queue (net_dev (enabled_as e v))) h xs = queue_rep (vn_queue (net_dev v)) h xs"
  by (simp_all add: enabled_as_def queue_rep_def)

lemma drv_core_enabled:
  assumes "gs_vnet s = Some (a, v)"
  shows "drv_core (with_enabled e s) a (enabled_as e v) xs = drv_core s a v xs"
  using assms dev_wf_cong [of "with_enabled e s" s "enabled_as e v" v]
  by (auto simp: drv_core_def with_enabled_def)

definition as_up :: "drv \<Rightarrow> int" where
  "as_up s = (if up_of s then 1 else 0)"

lemma going_down_as_up:
  assumes "going_down s a v xs"
  shows "drv_inv (with_enabled (as_up s) s) a (enabled_as (as_up s) v) xs"
  using assms drv_core_enabled [of s a v "as_up s" xs]
  by (auto simp: going_down_def drv_inv_def as_up_def) (simp_all add: drv_core_def)

lemma with_enabled_own:
  "gs_vnet s = Some (a, v) \<Longrightarrow> with_enabled (q_enabled (vn_queue (net_dev v))) s = s"
  by (cases v) (simp add: with_enabled_def enabled_as_def)

text \<open>What holds after a round of a state that is up or down holds after it here too.\<close>

lemma round_going_down:
  assumes s: "gs_vnet s = Some (a, v)"
    and r: "io_read_loop K m [i] ret (with_enabled e s) = Some (r, t')"
    and t': "drv_inv t' a w' ys" "up_of t' = up_of s" "vn_added (net_dev w') = vn_added (net_dev v)"
      "up_of s \<longrightarrow> vn_added (net_dev v) \<noteq> 0"
  shows "\<exists>t w. io_read_loop K m [i] ret s = Some (r, t) \<and> t' = with_enabled e t \<and> w' = enabled_as e w \<and>
    q_enabled (vn_queue (net_dev w)) = q_enabled (vn_queue (net_dev v)) \<and> going_down t a w ys"
proof -
  from r obtain t where t: "io_read_loop K m [i] ret s = Some (r, t)" "t' = with_enabled e t"
    unfolding round_enabled by (auto simp del: io_read_loop.simps)
  from t' have "gs_vnet t' = Some (a, w')" by (simp add: inv_defs)
  with t(2) obtain w where w: "gs_vnet t = Some (a, w)" "w' = enabled_as e w"
    by (auto simp: with_enabled_def)
  let ?e = "q_enabled (vn_queue (net_dev v))"
  from round_enabled [of K m i ret ?e s] have "with_enabled ?e t = t"
    by (simp add: with_enabled_own [OF s] t(1) del: io_read_loop.simps)
  then have "gs_vnet (with_enabled ?e t) = gs_vnet t" by simp
  then have "enabled_as ?e w = w" using w(1) by (simp add: with_enabled_def)
  then have q: "q_enabled (vn_queue (net_dev w)) = ?e" by (metis enabled_as_simps(5))
  have "drv_core t a w ys" using t'(1) t(2) w drv_core_enabled [OF w(1)] by (simp add: drv_inv_def)
  moreover have "up_of t = up_of s" "vn_added (net_dev w) = vn_added (net_dev v)" using t t' w by simp_all
  moreover have "up_of s \<or> ys = []" using t'(1,2) by (auto simp: drv_inv_def)
  ultimately have "going_down t a w ys" using t'(4) by (simp add: going_down_def)
  with t w q show ?thesis by blast
qed


section \<open>What a round does\<close>

text \<open>What the reader has returned so far, with \<open>k\<close> packets delivered.\<close>

definition so_far :: "bool \<Rightarrow> nat \<Rightarrow> int" where
  "so_far live k = (if \<not> live \<and> k = 0 then - EAGAIN else int k)"

text \<open>
  The part of the request that is still to be read into: the pointers \<open>ps\<close> from index \<open>i\<close> on, in
  accessible memory that has not been written to so far.
\<close>

definition request_left :: "kernel \<Rightarrow> block \<Rightarrow> (addr \<Rightarrow> u32) \<Rightarrow> nat \<Rightarrow> addr list \<Rightarrow> kcall list \<Rightarrow> bool" where
  "request_left K m cap i ps h \<longleftrightarrow> distinct ps \<and>
     (\<forall>j < length ps. hdr_pkt m (int (i + j)) = Some (ps ! j)) \<and> user_ok K h (set ps) cap"

lemma user_ok_append:
  assumes ok: "user_ok K h P cap" and es: "\<And>p v r. p \<in> P \<Longrightarrow> Put_user p v r \<notin> set es"
  shows "user_ok K (h @ es) P cap"
  unfolding user_ok_def
proof (intro allI ballI)
  fix fs p assume p: "p \<in> P"
  from ok [unfolded user_ok_def, rule_format, OF p, of "es @ fs"] es [OF p]
  show "((\<forall>v r. Put_user p v r \<notin> set fs) \<longrightarrow> k_get_user K ((h @ es) @ fs) p = Some (cap p)) \<and>
      (\<forall>bs. k_copy_to_user K ((h @ es) @ fs) (pkt_data p) bs = 0) \<and> (\<forall>v. k_put_user K ((h @ es) @ fs) p v)"
    by simp
qed

lemma request_left_append:
  "request_left K m cap i ps h \<Longrightarrow> (\<And>p v r. p \<in> set ps \<Longrightarrow> Put_user p v r \<notin> set es) \<Longrightarrow>
   request_left K m cap i ps (h @ es)"
  by (simp add: request_left_def user_ok_append)

lemma request_left_head:
  assumes "request_left K m cap i (p # ps) h"
  shows "hdr_pkt m (int i) = Some p" "user_ok K h {p} cap" "p \<notin> set ps" "request_left K m cap (Suc i) ps h"
proof -
  have "hdr_pkt m (int (i + j)) = Some ((p # ps) ! j)" if "j < Suc (length ps)" for j
    using assms that by (simp add: request_left_def)
  from this [of 0] this [of "Suc j" for j] show "hdr_pkt m (int i) = Some p" "request_left K m cap (Suc i) ps h"
    using assms by (auto simp: request_left_def intro: user_ok_mono [rotated])
  show "user_ok K h {p} cap" "p \<notin> set ps"
    using assms by (auto simp: request_left_def intro: user_ok_mono [rotated])
qed

lemma deliver_copied:
  "copied (deliver_calls cap p x b) = [fitted cap p b]"
  "Put_user q u r \<in> set (deliver_calls cap p x b) \<Longrightarrow> q = p"
  by (auto simp: deliver_calls_def fitted_def deliver_len_def)

lemma down_round_empty:
  assumes inv: "going_down s a v []"
  shows "\<exists>t w. io_read_loop K m [i] ret s = Some (if ret = 0 then - EAGAIN else ret, t) \<and>
    going_down t a w [] \<and> up_of t = up_of s \<and> keeps s v t w \<and> vn_stats (net_dev w) = vn_stats (net_dev v) \<and>
    q_enabled (vn_queue (net_dev w)) = q_enabled (vn_queue (net_dev v)) \<and> skbs t = skbs s \<and>
    ktrace t = ktrace s @ [Spin_lock_bh Queue_lock, Spin_unlock_bh Queue_lock]"
proof -
  let ?e = "as_up s"
  have g: "gs_vnet s = Some (a, v)" using inv by (simp add: going_down_def drv_core_def)
  from take_packet_empty [OF going_down_as_up [OF inv]] obtain t where
    t: "with_queue queue_remove (with_enabled ?e s) = Some (NULL, t)" "drv_inv t a (enabled_as ?e v) []"
      "ktrace t = ktrace s @ [Spin_lock_bh Queue_lock, Spin_unlock_bh Queue_lock]" "skbs t = skbs s"
      "netdevs t = netdevs s" "held_of t = held_of s"
    by (auto simp: same_but_trace_def)
  have u: "up_of t = up_of s" by (simp add: up_of_def up_in_def t(3))
  have "io_read_loop K m [i] ret (with_enabled ?e s) = Some (if ret = 0 then - EAGAIN else ret, t)"
    by (simp add: t(1) IS_PTR_VALID_def)
  from round_going_down [OF g this t(2) u] inv obtain t0 w where
    "io_read_loop K m [i] ret s = Some (if ret = 0 then - EAGAIN else ret, t0)" "t = with_enabled ?e t0"
    "enabled_as ?e v = enabled_as ?e w" "q_enabled (vn_queue (net_dev w)) = q_enabled (vn_queue (net_dev v))"
    "going_down t0 a w []" by (auto simp: going_down_def)
  moreover from this(2,3) have "vn_stats (net_dev w) = vn_stats (net_dev v)" "keeps s v t0 w"
    using t(5,6) unfolding keeps_def by (metis enabled_as_simps(1-4,6) with_enabled_simps(2,6))+
  ultimately show ?thesis using t(3,4) u by (intro exI [of _ t0] exI [of _ w]) simp
qed

lemma down_round_packet:
  assumes inv: "going_down s a v (x # xs)" and p: "hdr_pkt m (int i) = Some p"
    and user: "user_ok K (ktrace s) {p} cap"
  shows "\<exists>t w. io_read_loop K m [i] ret s = Some (ret + 1, t) \<and> going_down t a w xs \<and> up_of t \<and> keeps s v t w \<and>
    dom (skbs t) \<subseteq> dom (skbs s) \<and>
    vn_stats (net_dev w) = count_tx (deliver_len cap p (the (pool_of s x))) (vn_stats (net_dev v)) \<and>
    q_enabled (vn_queue (net_dev w)) = q_enabled (vn_queue (net_dev v)) \<and> frames t xs = frames s xs \<and>
    ktrace t = ktrace s @ deliver_calls cap p x (the (pool_of s x))"
proof -
  let ?e = "as_up s" and ?s = "with_enabled (as_up s) s"
  have g: "gs_vnet s = Some (a, v)" and up: "up_of s"
    using inv by (auto simp: going_down_def drv_core_def)
  note I = going_down_as_up [OF inv]
  from inv_pool [OF I] obtain b where b: "pool_of ?s x = Some b" by blast
  have U: "\<And>fs. (\<And>u r. Put_user p u r \<notin> set fs) \<Longrightarrow> k_get_user K (ktrace ?s @ fs) p = Some (cap p)"
      "\<And>fs bs. k_copy_to_user K (ktrace ?s @ fs) (pkt_data p) bs = 0"
      "\<And>fs n. k_put_user K (ktrace ?s @ fs) p n"
    using user by (simp_all add: user_ok_def)
  obtain s1 s2 t w' where
    r: "with_queue queue_remove ?s = Some (x, s1)" "x \<noteq> NULL"
      "io_read_fill_network_packet K p x s1 = Some (0, s2)"
      "kfree_skb x s2 = Some t" "drv_inv t a w' xs" "keeps ?s (enabled_as ?e v) t w'"
      "pool_of t = (pool_of s)(x := None)" "ktrace t = ktrace s @ deliver_calls cap p x b"
      "vn_stats (net_dev w') = count_tx (deliver_len cap p b) (vn_stats (net_dev v))"
    using read_round_exact [where K = K and p = p and cap = cap, OF I b U] by auto
  have "x \<notin> set xs" using inv by (auto simp: going_down_def drv_core_def queue_rep_def)
  then have F: "frames t xs = frames s xs" by (intro frames_cong) (auto simp: r(7))
  have u: "up_of t = up_of s" by (simp add: up_of_def up_in_def r(8) deliver_calls_def)
  have "io_read_loop K m [i] ret ?s = Some (ret + 1, t)" using r p by (simp add: IS_PTR_VALID_def)
  from round_going_down [OF g this r(5) u] inv r(6) obtain t0 w where
    "io_read_loop K m [i] ret s = Some (ret + 1, t0)" "t = with_enabled ?e t0" "w' = enabled_as ?e w"
    "q_enabled (vn_queue (net_dev w)) = q_enabled (vn_queue (net_dev v))" "going_down t0 a w xs"
    by (auto simp: going_down_def keeps_def)
  moreover have "dom (skbs t) \<subseteq> dom (skbs s)" using r(7) by (metis dom_pool_of dom_fun_upd Diff_subset)
  moreover have "keeps s v t0 w" using r(6) calculation(2,3) by (simp add: keeps_def)
  moreover have "frames t0 xs = frames t xs" using calculation(2) by (intro frames_cong) simp
  ultimately show ?thesis using r(8,9) u up b F by (intro exI [of _ t0] exI [of _ w]) simp
qed


text \<open>
  The round of a reader that is still running: it takes the first packet, if there is one, and
  delivers it to the next pointer; otherwise it stops.
\<close>

definition reader_at :: "nat \<Rightarrow> bool \<Rightarrow> reader \<Rightarrow> bool" where
  "reader_at i live rd \<longleftrightarrow> rd_live rd = live \<and> rd_ret rd = so_far live i \<and> (live \<longrightarrow> rd_index rd = i)"

lemma fetch_idle: "\<not> rd_live rd \<Longrightarrow> fetch_round K m rd s = Some (rd, s)"
  by (simp add: fetch_round.simps)

lemma fetch_step:
  assumes inv: "going_down s a v xs" and rd: "reader_at i True rd"
    and req: "request_left K m cap i ps (ktrace s)" "ps \<noteq> []" and n: "n = length (take 1 xs)"
  shows "\<exists>rd' t w fs. fetch_round K m rd s = Some (rd', t) \<and> reader_at (i + n) (xs \<noteq> []) rd' \<and>
    going_down t a w (drop n xs) \<and> up_of t = up_of s \<and> keeps s v t w \<and> dom (skbs t) \<subseteq> dom (skbs s) \<and>
    q_enabled (vn_queue (net_dev w)) = q_enabled (vn_queue (net_dev v)) \<and>
    frames t (drop n xs) = drop n (frames s xs) \<and>
    tx_packets (vn_stats (net_dev w)) = tx_packets (vn_stats (net_dev v)) + of_nat n \<and>
    tx_dropped (vn_stats (net_dev w)) = tx_dropped (vn_stats (net_dev v)) \<and>
    ktrace t = ktrace s @ fs \<and> request_left K m cap (i + n) (drop n ps) (ktrace t) \<and>
    copied fs = map (\<lambda>(p, b). fitted cap p b) (zip (take n ps) (take n (frames s xs)))"
proof (cases xs)
  case Nil
  let ?e = "[Spin_lock_bh Queue_lock, Spin_unlock_bh Queue_lock]"
  from down_round_empty [of s a v K m i "int i"] inv Nil obtain t w where
    t: "io_read_loop K m [i] (int i) s = Some (if int i = 0 then - EAGAIN else int i, t)"
      "going_down t a w []" "up_of t = up_of s" "keeps s v t w" "vn_stats (net_dev w) = vn_stats (net_dev v)"
      "q_enabled (vn_queue (net_dev w)) = q_enabled (vn_queue (net_dev v))" "skbs t = skbs s"
      "ktrace t = ktrace s @ ?e" by blast
  have so: "so_far False i = (if int i = 0 then - EAGAIN else int i)" by (simp add: so_far_def)
  have "fetch_round K m rd s = Some (\<lparr>rd_index = i + 1, rd_ret = so_far False i, rd_live = False\<rparr>, t)"
    using t(1) rd by (simp add: reader_at_def so_far_def fetch_round.simps del: io_read_loop.simps)
  moreover have "request_left K m cap i ps (ktrace t)"
    unfolding t(8) by (rule request_left_append [OF req(1)]) simp
  ultimately show ?thesis using t Nil n
    by (intro exI [of _ "\<lparr>rd_index = i + 1, rd_ret = so_far False i, rd_live = False\<rparr>"] exI [of _ t]
        exI [of _ w] exI [of _ ?e]) (simp add: reader_at_def frames_def)
next
  case (Cons x ys)
  obtain p qs where ps: "ps = p # qs" using req(2) by (cases ps) simp
  note R = request_left_head [OF req(1) [unfolded ps]]
  let ?e = "deliver_calls cap p x (the (pool_of s x))"
  from down_round_packet [OF inv [unfolded Cons] R(1,2), of "int i"] obtain t w where
    t: "io_read_loop K m [i] (int i) s = Some (int i + 1, t)" "going_down t a w ys" "up_of t" "keeps s v t w"
      "dom (skbs t) \<subseteq> dom (skbs s)"
      "vn_stats (net_dev w) = count_tx (deliver_len cap p (the (pool_of s x))) (vn_stats (net_dev v))"
      "q_enabled (vn_queue (net_dev w)) = q_enabled (vn_queue (net_dev v))" "frames t ys = frames s ys"
      "ktrace t = ktrace s @ ?e" by blast
  have "up_of s" using inv Cons by (simp add: going_down_def)
  moreover have "fetch_round K m rd s = Some (\<lparr>rd_index = i + 1, rd_ret = so_far True (i + 1), rd_live = True\<rparr>, t)"
    using t(1) rd by (simp add: reader_at_def so_far_def fetch_round.simps add.commute del: io_read_loop.simps)
  moreover have "request_left K m cap (Suc i) qs (ktrace t)"
    unfolding t(9) by (rule request_left_append [OF R(4)]) (use R(3) deliver_copied(2) in blast)
  moreover have "frames s xs = the (pool_of s x) # frames s ys" using Cons by (simp add: frames_def)
  ultimately show ?thesis using t Cons n ps
    by (intro exI [of _ "\<lparr>rd_index = i + 1, rd_ret = so_far True (i + 1), rd_live = True\<rparr>"] exI [of _ t]
        exI [of _ w] exI [of _ ?e]) (simp add: reader_at_def count_tx_def deliver_copied(1))
qed

end
