(* ===== verification/Interleave.thy ===== *)
theory Interleave
  imports Read_Rounds
begin

text \<open>
  A read while packets are being sent: the network stack calls \<open>net_dev_send\<close> between the
  rounds of the read's loop, in any order. The two meet in the queue, under its lock; the
  rest of a round touches only the packet that it took off the queue. The specification is
  the same interleaving on a bounded list.
\<close>

section \<open>Interleavings\<close>

datatype action =
    Send addr sk_buff
  | Fetch

fun interleaved :: "kernel \<Rightarrow> block \<Rightarrow> action list \<Rightarrow> reader \<Rightarrow> drv \<Rightarrow> (reader \<times> drv) option" where
  "interleaved K m [] rd s = Some (rd, s)"
| "interleaved K m (Send p b # cs) rd s = do {
     (r, s) \<leftarrow> net_dev_send K p (the_dev s) (handed p b s);
     interleaved K m cs rd s }"
| "interleaved K m (Fetch # cs) rd s = do {
     (rd, s) \<leftarrow> fetch_round K m rd s;
     interleaved K m cs rd s }"

text \<open>Without senders this is the loop of the code.\<close>

lemma interleaved_done:
  "\<not> rd_live rd \<Longrightarrow> interleaved K m (replicate n Fetch) rd s = Some (rd, s)"
  by (induction n) (simp_all add: fetch_round.simps)

lemma interleaved_alone:
  assumes "0 \<le> ret"
  shows "map_option (\<lambda>(rd, s). (rd_ret rd, s))
      (interleaved K m (replicate n Fetch) \<lparr>rd_index = i, rd_ret = ret, rd_live = True\<rparr> s) =
    io_read_loop K m [i..<i + n] ret s"
  using assms
proof (induction n arbitrary: i ret s)
  case 0
  then show ?case by simp
next
  case (Suc n)
  have js: "[i..<i + Suc n] = i # [Suc i..<Suc i + n]" by (simp add: upt_conv_Cons)
  note R = io_read_loop_round [OF Suc.prems, of K m i "[Suc i..<Suc i + n]" s, folded js]
  show ?case
  proof (cases "io_read_loop K m [i] ret s")
    case None
    with R show ?thesis by (simp add: fetch_round.simps del: io_read_loop.simps upt_Suc)
  next
    case (Some rs)
    obtain r t where rs: "rs = (r, t)" by (cases rs)
    show ?thesis
    proof (cases "r = ret + 1")
      case True
      with Suc.IH [of "ret + 1" "Suc i" t] Suc.prems Some rs R show ?thesis
        by (simp add: fetch_round.simps del: io_read_loop.simps upt_Suc)
    next
      case False
      with Some rs R show ?thesis
        by (simp add: fetch_round.simps interleaved_done del: io_read_loop.simps upt_Suc)
    qed
  qed
qed

section \<open>The bounded list\<close>

text \<open>The packets delivered and those left, and whether the reader is still running.\<close>

fun list_interleaved :: "nat \<Rightarrow> action list \<Rightarrow> bool \<Rightarrow> sk_buff list \<Rightarrow> sk_buff list \<times> sk_buff list \<times> bool" where
  "list_interleaved n [] live q = ([], q, live)"
| "list_interleaved n (Send p b # cs) live q = list_interleaved n cs live (take n (q @ [payload b]))"
| "list_interleaved n (Fetch # cs) live q =
     (if live then
        (case q of
           [] \<Rightarrow> list_interleaved n cs False []
         | b # q \<Rightarrow> (let (ds, q, live) = list_interleaved n cs True q in (b # ds, q, live)))
      else list_interleaved n cs live q)"

fun sent :: "action list \<Rightarrow> (addr \<times> sk_buff) list" where
  "sent [] = []"
| "sent (Send p b # cs) = (p, b) # sent cs"
| "sent (Fetch # cs) = sent cs"

fun fetches :: "action list \<Rightarrow> nat" where
  "fetches [] = 0"
| "fetches (Send p b # cs) = fetches cs"
| "fetches (Fetch # cs) = Suc (fetches cs)"

section \<open>The calls of a send\<close>

definition send_only :: "kcall list \<Rightarrow> bool" where
  "send_only es \<longleftrightarrow> copied es = [] \<and> (\<forall>p u r. Put_user p u r \<notin> set es)"

lemma ktrace_updates:
  "skb_update p f s = Some t \<Longrightarrow> ktrace t = ktrace s"
  "netdev_update d g s = Some t \<Longrightarrow> ktrace t = ktrace s"
  by (auto simp: skb_update_def netdev_update_def split: bind_splits)

lemma send_trace:
  assumes "net_dev_send K p d s = Some (r, s')"
  shows "\<exists>es. ktrace s' = ktrace s @ es \<and> send_only es"
  using assms
  by (auto simp: net_dev_send_def with_queue_def Let_def vnet_upd_def raw_queue_insert_def
      SET_NEXT_PKT_def kfree_skb_def io_dev_wakeup_def acquire_lock_def release_lock_def
      send_only_def log_def split: if_splits bind_splits option.splits dest!: ktrace_updates)

lemma send_trace_copied:
  "send_only es \<Longrightarrow> copied es = []" "send_only es \<Longrightarrow> Put_user p u r \<notin> set es"
  by (simp_all add: send_only_def)

section \<open>The driver implements the list\<close>

lemma list_interleaved_fetch:
  assumes "list_interleaved n (Fetch # cs) True q = (ds, r, l)" and "k = length (take 1 q)"
  shows "\<exists>ds'. list_interleaved n cs (q \<noteq> []) (drop k q) = (ds', r, l) \<and> ds = take k q @ ds'"
  using assms by (cases q) (auto split: prod.splits)

lemma sendable_mono: "sendable ps s \<Longrightarrow> dom (skbs t) \<subseteq> dom (skbs s) \<Longrightarrow> sendable ps t"
  by (fastforce simp: sendable_def dom_def subset_iff)

text \<open>Before the remaining actions \<open>cs\<close>, with what the list makes of them; and what they lead to.\<close>

definition actions_pre ::
    "kernel \<Rightarrow> block \<Rightarrow> (addr \<Rightarrow> u32) \<Rightarrow> action list \<Rightarrow> nat \<Rightarrow> bool \<Rightarrow> reader \<Rightarrow> addr list \<Rightarrow>
      drv \<Rightarrow> addr \<Rightarrow> vnet \<Rightarrow> addr list \<Rightarrow> sk_buff list \<times> sk_buff list \<times> bool \<Rightarrow> bool" where
  "actions_pre K m cap cs i live rd ps s a v xs out \<longleftrightarrow>
     drv_inv s a v xs \<and> vn_device (net_dev v) \<noteq> NULL \<and> up_of s \<and> sendable (sent cs) s \<and>
     reader_at i live rd \<and> request_left K m cap i ps (ktrace s) \<and> (live \<longrightarrow> fetches cs \<le> length ps) \<and>
     list_interleaved (capacity v) cs live (frames s xs) = out"

definition actions_post ::
    "kernel \<Rightarrow> block \<Rightarrow> (addr \<Rightarrow> u32) \<Rightarrow> action list \<Rightarrow> nat \<Rightarrow> reader \<Rightarrow> addr list \<Rightarrow> drv \<Rightarrow> addr \<Rightarrow>
      sk_buff list \<times> sk_buff list \<times> bool \<Rightarrow> bool" where
  "actions_post K m cap cs i rd ps s a out \<longleftrightarrow>
     (\<exists>rd' s' w ys fs. interleaved K m cs rd s = Some (rd', s') \<and>
       reader_at (i + length (fst out)) (snd (snd out)) rd' \<and> drv_inv s' a w ys \<and>
       frames s' ys = fst (snd out) \<and> ktrace s' = ktrace s @ fs \<and>
       copied fs = map (\<lambda>(p, b). fitted cap p b) (zip ps (fst out)))"

lemma action_send:
  assumes "actions_pre K m cap (Send p b # cs) i live rd ps s a v xs out"
    and IH: "\<And>t w ys. actions_pre K m cap cs i live rd ps t a w ys out \<Longrightarrow> actions_post K m cap cs i rd ps t a out"
  shows "actions_post K m cap (Send p b # cs) i rd ps s a out"
proof -
  let ?ys = "take (capacity v) (xs @ [p])"
  have C: "drv_inv s a v xs" "vn_device (net_dev v) \<noteq> NULL" "up_of s" "sendable ((p, b) # sent cs) s"
    "reader_at i live rd" "request_left K m cap i ps (ktrace s)" "live \<longrightarrow> fetches cs \<le> length ps"
    "list_interleaved (capacity v) cs live (take (capacity v) (frames s xs @ [payload b])) = out"
    using assms(1) by (simp_all add: actions_pre_def del: take_append)
  from send_one [OF C(1-4), of K] obtain t w where
    t: "net_dev_send K p (the_dev s) (handed p b s) = Some (0, t)" "drv_inv t a w ?ys"
      "sendable (sent cs) t" "up_of t" "vn_device (net_dev w) = vn_device (net_dev v)"
      "cfg w = cfg v" "frames t ?ys = take (capacity v) (frames s xs @ [payload b])" by blast
  from send_trace [OF t(1)] obtain fs where fs: "ktrace t = ktrace s @ fs" "send_only fs"
    by (auto simp: handed_def)
  have "request_left K m cap i ps (ktrace t)"
    unfolding fs(1) by (rule request_left_append [OF C(6)]) (simp add: send_trace_copied [OF fs(2)])
  moreover have "capacity w = capacity v" by (simp add: capacity_def t(6))
  ultimately have "actions_pre K m cap cs i live rd ps t a w ?ys out"
    using C(2,5,7,8) t(2-5) unfolding actions_pre_def t(7) by simp
  from IH [OF this] show ?thesis
    using t(1) fs by (fastforce simp: actions_post_def send_trace_copied)
qed

lemma action_fetch:
  assumes "actions_pre K m cap (Fetch # cs) i True rd ps s a v xs out"
    and IH: "\<And>i live rd ps t w ys out. actions_pre K m cap cs i live rd ps t a w ys out \<Longrightarrow>
      actions_post K m cap cs i rd ps t a out"
  shows "actions_post K m cap (Fetch # cs) i rd ps s a out"
proof -
  let ?n = "length (take 1 xs)"
  obtain ds q l where out: "out = (ds, q, l)" by (cases out)
  have C: "drv_inv s a v xs" "vn_device (net_dev v) \<noteq> NULL" "up_of s" "sendable (sent cs) s"
    "reader_at i True rd" "request_left K m cap i ps (ktrace s)" "Suc (fetches cs) \<le> length ps"
    "list_interleaved (capacity v) (Fetch # cs) True (frames s xs) = (ds, q, l)"
    using assms(1) out by (simp_all add: actions_pre_def)
  then have ps: "ps \<noteq> []" by auto
  have g: "going_down s a v xs" "q_enabled (vn_queue (net_dev v)) \<noteq> 0"
    using C(1,3) by (simp_all add: drv_inv_going_down drv_inv_def)
  from fetch_step [OF g(1) C(5,6) ps refl] C(3) obtain rd' t w fs where
    t: "fetch_round K m rd s = Some (rd', t)" "reader_at (i + ?n) (xs \<noteq> []) rd'"
      "going_down t a w (drop ?n xs)" "up_of t" "keeps s v t w" "dom (skbs t) \<subseteq> dom (skbs s)"
      "q_enabled (vn_queue (net_dev w)) = q_enabled (vn_queue (net_dev v))"
      "frames t (drop ?n xs) = drop ?n (frames s xs)" "ktrace t = ktrace s @ fs"
      "request_left K m cap (i + ?n) (drop ?n ps) (ktrace t)"
      "copied fs = map (\<lambda>(p, b). fitted cap p b) (zip (take ?n ps) (take ?n (frames s xs)))" by auto
  have w: "vn_device (net_dev w) \<noteq> NULL" "capacity w = capacity v"
    using t(5) C(2) by (simp_all add: keeps_def capacity_def)
  have F: "length (frames s xs) = length xs" "(frames s xs \<noteq> []) = (xs \<noteq> [])" by (simp_all add: frames_def)
  obtain ds' where ds: "list_interleaved (capacity w) cs (xs \<noteq> []) (frames t (drop ?n xs)) = (ds', q, l)"
      "ds = take ?n (frames s xs) @ ds'"
    using list_interleaved_fetch [of "capacity v" cs "frames s xs" ds q l ?n] C(8) F t(8) w(2) by auto
  have "drv_inv t a w (drop ?n xs)" using t(3,4,7) g(2) by (simp add: going_down_def drv_inv_def)
  moreover have "xs \<noteq> [] \<longrightarrow> fetches cs \<le> length (drop ?n ps)" using C(7) by (cases xs) auto
  ultimately have "actions_pre K m cap cs (i + ?n) (xs \<noteq> []) rd' (drop ?n ps) t a w (drop ?n xs) (ds', q, l)"
    using w(1) t(2,4,10) sendable_mono [OF C(4) t(6)] ds(1) by (simp add: actions_pre_def)
  from IH [OF this] obtain rd'' s' w' ys gs where
    r: "interleaved K m cs rd' t = Some (rd'', s')" "reader_at (i + ?n + length ds') l rd''"
      "drv_inv s' a w' ys" "frames s' ys = q" "ktrace s' = ktrace t @ gs"
      "copied gs = map (\<lambda>(p, b). fitted cap p b) (zip (drop ?n ps) ds')" by (auto simp: actions_post_def)
  have "length ds = ?n + length ds'" "length (take ?n (frames s xs)) = ?n" using ds(2) F(1) by simp_all
  then show ?thesis using r t(1,9,11) ds(2) unfolding actions_post_def out
    by (intro exI [of _ rd''] exI [of _ s'] exI [of _ w'] exI [of _ ys] exI [of _ "fs @ gs"])
      (simp add: zip_append2 add.assoc)
qed

lemma interleaved_run:
  "actions_pre K m cap cs i live rd ps s a v xs out \<Longrightarrow> actions_post K m cap cs i rd ps s a out"
proof (induction cs arbitrary: s v xs i live rd ps out)
  case Nil
  then show ?case unfolding actions_pre_def actions_post_def
    by (intro exI [of _ rd] exI [of _ s] exI [of _ v] exI [of _ xs] exI [of _ "[]"]) auto
next
  case (Cons c cs)
  show ?case
  proof (cases c)
    case (Send p b)
    show ?thesis unfolding Send by (rule action_send [OF Cons.prems [unfolded Send] Cons.IH])
  next
    case Fetch
    show ?thesis
    proof (cases live)
      case True
      then have live: "live = True" by simp
      show ?thesis unfolding Fetch by (rule action_fetch [OF Cons.prems [unfolded Fetch live] Cons.IH])
    next
      case False
      with Cons.prems Fetch have "actions_pre K m cap cs i live rd ps s a v xs out" "\<not> rd_live rd"
        by (auto simp: actions_pre_def reader_at_def)
      with Cons.IH Fetch show ?thesis by (fastforce simp: actions_post_def fetch_idle)
    qed
  qed
qed

text \<open>
  (C9) A read keeps its promise while packets are being sent. Whatever the order in which the
  network stack's sends fall between the rounds of the read, the packets that the read copies
  to the caller's buffers, the value it has to return and the packets left are those of the
  same interleaving on a bounded list; none is duplicated, lost or put out of order.
\<close>

theorem read_interleaved:
  assumes inv: "drv_inv s a v xs" "vn_device (net_dev v) \<noteq> NULL" "up_of s"
    and ps: "sendable (sent cs) s" and n: "fetches cs \<le> length ptrs"
    and hdr: "\<And>i. i < length ptrs \<Longrightarrow> hdr_pkt m (int i) = Some (ptrs ! i)" and dist: "distinct ptrs"
    and user: "user_ok K (ktrace s) (set ptrs) cap"
    and spec: "list_interleaved (capacity v) cs True (frames s xs) = (ds, q, l)"
  shows "\<exists>rd s' w ys es.
    interleaved K m cs \<lparr>rd_index = 0, rd_ret = 0, rd_live = True\<rparr> s = Some (rd, s') \<and>
    rd_ret rd = (if \<not> l \<and> ds = [] then - EAGAIN else int (length ds)) \<and> rd_live rd = l \<and>
    drv_inv s' a w ys \<and> frames s' ys = q \<and> ktrace s' = ktrace s @ es \<and>
    copied es = map (\<lambda>(p, b). fitted cap p b) (zip ptrs ds)"
proof -
  have rd: "reader_at 0 True \<lparr>rd_index = 0, rd_ret = 0, rd_live = True\<rparr>" by (simp add: reader_at_def so_far_def)
  have req: "request_left K m cap 0 ptrs (ktrace s)" using hdr dist user by (simp add: request_left_def)
  have "actions_pre K m cap cs 0 True \<lparr>rd_index = 0, rd_ret = 0, rd_live = True\<rparr> ptrs s a v xs (ds, q, l)"
    using inv ps rd req n spec by (simp add: actions_pre_def)
  from interleaved_run [OF this] show ?thesis
    by (fastforce simp: actions_post_def reader_at_def so_far_def)
qed

end
