(* ===== verification/Wakeups.thy ===== *)
theory Wakeups
  imports System Interleave
begin

text \<open>
  The poller, the packets and the cancellation, when they run at the same time on different
  processors. \<open>io_dev_poll\<close>, \<open>net_dev_send\<close> and the cancelling \<open>ioctl\<close> are cut where another
  processor can come between: at their accesses to shared data and where the queue's lock
  is free. A poller whose \<open>poll\<close> reports nothing sleeps until it is woken after it has
  joined the wait queue.
\<close>

section \<open>The sections of the handlers\<close>

text \<open>\<open>io_dev_poll\<close>: the test of \<open>canceled\<close>, joining the wait queue, the test of the queue.\<close>

definition poll_check :: "drv \<Rightarrow> u32 option option" where
  "poll_check s = do {
     v \<leftarrow> vnet_dev s;
     Some (if io_canceled (io_dev v) \<noteq> 0 then Some (POLLPRI OR POLLERR) else None) }"

definition poll_join :: "drv \<Rightarrow> drv" where
  "poll_join s = log Poll_wait s"

definition poll_test :: "drv \<Rightarrow> (u32 \<times> drv) option" where
  "poll_test s = do {
     let mk = POLLOUT OR POLLWRNORM;
     (empty, s) \<leftarrow> with_queue (\<lambda>q s. Some (queue_is_empty q s)) s;
     Some (if empty = 0 then mk OR (POLLIN OR POLLRDNORM) else mk, s) }"

lemma io_dev_poll_sections:
  "io_dev_poll s = do {
     r \<leftarrow> poll_check s;
     (case r of Some mk \<Rightarrow> Some (mk, s) | None \<Rightarrow> poll_test (poll_join s)) }"
  by (cases "vnet_dev s") (simp_all add: io_dev_poll_def poll_check_def poll_test_def poll_join_def Let_def)

text \<open>The cancelling \<open>ioctl\<close>: setting \<open>canceled\<close>, and waking.\<close>

definition cancel_set :: "drv \<Rightarrow> drv option" where
  "cancel_set s = vnet_upd (io_dev_update (io_canceled_update (\<lambda>_. 1))) s"

lemma io_dev_ioctl_sections:
  "io_dev_ioctl K KVNET_IOCTL_CANCEL_PENDING_READ arg s = do {
     s \<leftarrow> cancel_set s;
     s \<leftarrow> io_dev_wakeup s;
     Some (0, s) }"
  by (simp add: io_dev_ioctl_def cancel_set_def)

text \<open>\<open>net_dev_send\<close>: what it does under the lock, and what follows for a queued packet.\<close>

definition send_queue :: "addr \<Rightarrow> addr \<Rightarrow> drv \<Rightarrow> (bool \<times> drv) option" where
  "send_queue skb dev s = do {
     _ \<leftarrow> vnet_dev s;
     let s = (if g_utils_debug_enabled s \<noteq> 0 then log (Debug_dump skb) s else s);
     let s = acquire_lock Queue_lock s;
     v \<leftarrow> vnet_dev s;
     let q = vn_queue (net_dev v);
     dropping \<leftarrow>
       (if raw_is_queue_enabled q = 0 then Some True
        else do {
          d \<leftarrow> netdev_at dev s;
          Some (nd_tx_queue_len d \<le> scast (raw_queue_len q)) });
     if dropping then do {
       s \<leftarrow> vnet_upd (net_dev_update (vn_stats_update (tx_dropped_update (\<lambda>n. n + 1)))) s;
       s \<leftarrow> kfree_skb skb s;
       Some (False, release_lock Queue_lock s) }
     else do {
       (_, s) \<leftarrow> with_queue (\<lambda>q s. do { (q, s) \<leftarrow> raw_queue_insert skb q s; Some ((), q, s) }) s;
       Some (True, release_lock Queue_lock s) } }"

definition send_wake :: "kernel \<Rightarrow> addr \<Rightarrow> drv \<Rightarrow> drv option" where
  "send_wake K dev s = do {
     s \<leftarrow> netdev_update dev (nd_trans_start_update (\<lambda>_. k_jiffies K (ktrace s))) s;
     io_dev_wakeup s }"

lemma net_dev_send_sections:
  "net_dev_send K skb dev s = do {
     (queued, s) \<leftarrow> send_queue skb dev s;
     s \<leftarrow> (if queued then send_wake K dev s else Some s);
     Some (0, s) }"
proof -
  let ?s = "acquire_lock Queue_lock (if g_utils_debug_enabled s \<noteq> 0 then log (Debug_dump skb) s else s)"
  have bind_if: "do { x \<leftarrow> (if c then f else g); h x } = (if c then do { x \<leftarrow> f; h x } else do { x \<leftarrow> g; h x })"
    for c and f g :: "'c option" and h :: "'c \<Rightarrow> 'd option" by simp
  have same: "vnet_dev ?s = vnet_dev s" by (simp add: vnet_dev_def acquire_lock_def)
  show ?thesis
    unfolding net_dev_send_def send_queue_def send_wake_def Let_def same
    by (cases "vnet_dev s") (simp_all add: bind_if split_def cong: if_cong)
qed

section \<open>Interleavings\<close>

datatype poll_pc = P_check | P_join | P_test | P_done u32

record race =
  r_drv :: drv
  r_poll :: poll_pc
  r_owed :: nat

text \<open>
  The next section of the poller, the two of a cancellation, and those of the senders;
  \<open>r_owed\<close> counts the senders that have queued their packet and are still to wake the reader.
\<close>

datatype event =
    Poller
  | Cancel_set
  | Cancel_wake
  | Send_queue addr sk_buff
  | Send_wake

fun race_step :: "kernel \<Rightarrow> event \<Rightarrow> race \<Rightarrow> race option" where
  "race_step K Poller r =
     (case r_poll r of
        P_check \<Rightarrow> do {
          m \<leftarrow> poll_check (r_drv r);
          Some (r\<lparr>r_poll := (case m of Some mk \<Rightarrow> P_done mk | None \<Rightarrow> P_join)\<rparr>) }
      | P_join \<Rightarrow> Some (r\<lparr>r_drv := poll_join (r_drv r), r_poll := P_test\<rparr>)
      | P_test \<Rightarrow> do {
          (mk, s) \<leftarrow> poll_test (r_drv r);
          Some (r\<lparr>r_drv := s, r_poll := P_done mk\<rparr>) }
      | P_done mk \<Rightarrow> Some r)"
| "race_step K Cancel_set r = do { s \<leftarrow> cancel_set (r_drv r); Some (r\<lparr>r_drv := s\<rparr>) }"
| "race_step K Cancel_wake r = do { s \<leftarrow> io_dev_wakeup (r_drv r); Some (r\<lparr>r_drv := s\<rparr>) }"
| "race_step K (Send_queue p b) r = do {
     (queued, s) \<leftarrow> send_queue p (the_dev (r_drv r)) (handed p b (r_drv r));
     Some (r\<lparr>r_drv := s, r_owed := r_owed r + (if queued then 1 else 0)\<rparr>) }"
| "race_step K Send_wake r =
     (if r_owed r = 0 then Some r
      else do {
        s \<leftarrow> send_wake K (the_dev (r_drv r)) (r_drv r);
        Some (r\<lparr>r_drv := s, r_owed := r_owed r - 1\<rparr>) })"

fun race_run :: "kernel \<Rightarrow> event list \<Rightarrow> race \<Rightarrow> race option" where
  "race_run K [] r = Some r"
| "race_run K (e # es) r = do { r \<leftarrow> race_step K e r; race_run K es r }"

definition race_start :: "drv \<Rightarrow> race" where
  "race_start s = \<lparr>r_drv = s, r_poll = P_check, r_owed = 0\<rparr>"

text \<open>Whether the poller, having joined the wait queue last, has been woken since.\<close>

fun wake_step :: "kcall \<Rightarrow> bool \<Rightarrow> bool" where
  "wake_step Poll_wait w = False"
| "wake_step Wake_up_interruptible w = True"
| "wake_step e w = w"

definition woken :: "kcall list \<Rightarrow> bool" where
  "woken h = fold wake_step h False"

lemma woken_append [simp]: "woken (h @ es) = fold wake_step es (woken h)"
  by (simp add: woken_def)

text \<open>A poller that sleeps and has no reason to wake up.\<close>

definition asleep :: "race \<Rightarrow> bool" where
  "asleep r \<longleftrightarrow> (case r_poll r of P_done mk \<Rightarrow> user_events mk = 0 | _ \<Rightarrow> False) \<and>
     \<not> woken (ktrace (r_drv r))"

section \<open>A cancellation can be missed\<close>

text \<open>Schedules of one \<open>poll\<close> and one cancellation.\<close>

lemma poll_cancel_schedules:
  "shuffles [Poller, Poller, Poller] [Cancel_set, Cancel_wake] = {
     [Poller, Poller, Poller, Cancel_set, Cancel_wake], [Poller, Poller, Cancel_set, Poller, Cancel_wake],
     [Poller, Poller, Cancel_set, Cancel_wake, Poller], [Poller, Cancel_set, Poller, Poller, Cancel_wake],
     [Poller, Cancel_set, Poller, Cancel_wake, Poller], [Poller, Cancel_set, Cancel_wake, Poller, Poller],
     [Cancel_set, Poller, Poller, Poller, Cancel_wake], [Cancel_set, Poller, Poller, Cancel_wake, Poller],
     [Cancel_set, Poller, Cancel_wake, Poller, Poller], [Cancel_set, Cancel_wake, Poller, Poller, Poller]}"
  by auto

text \<open>
  (C17) A cancellation is missed in one order exactly: when it comes, whole, between the
  poller's test of \<open>canceled\<close> and its joining of the wait queue. The poller then sleeps on an
  empty queue although its read was cancelled; in every other order it is woken, or its
  \<open>poll\<close> reports the error.
\<close>

theorem cancel_missed_iff:
  assumes run: "running s a v []" and live: "io_canceled (io_dev v) = 0"
    and es: "es \<in> shuffles [Poller, Poller, Poller] [Cancel_set, Cancel_wake]"
  shows "\<exists>r. race_run K es (race_start s) = Some r \<and> gs_vnet (r_drv r) = Some (a, cancel_vnet v) \<and>
    (asleep r \<longleftrightarrow> es = [Poller, Cancel_set, Cancel_wake, Poller, Poller])"
proof -
  have g: "gs_vnet s = Some (a, v)" and q: "q_size (vn_queue (net_dev v)) = 0"
    using running_facts(1) [OF run] by (auto simp: inv_defs queue_rep_def)
  note D = race_start_def poll_check_def poll_join_def poll_test_def cancel_set_def io_dev_wakeup_def
    vnet_dev_def vnet_upd_def with_queue_def queue_is_empty_def acquire_lock_def release_lock_def
    asleep_def cancel_vnet_def log_def
  have none: "user_events (POLLOUT OR POLLWRNORM) = 0" "user_events (POLLPRI OR POLLERR) \<noteq> 0"
    by (simp_all only: user_events_values) simp_all
  show ?thesis
    using es unfolding poll_cancel_schedules
    by (elim insertE emptyE) (use none in \<open>simp_all add: D g q live\<close>)
qed

section \<open>A packet cannot\<close>

text \<open>What a sender does after it has queued its packet changes nothing but the trace and a time.\<close>

lemma send_wake_inv:
  assumes w: "send_wake K (vn_device (net_dev v)) s = Some t" and dev: "vn_device (net_dev v) \<noteq> NULL"
  shows "drv_inv t a v xs = drv_inv s a v xs" "ktrace t = ktrace s @ [Wake_up_interruptible]"
    "skbs t = skbs s" "gs_vnet t = gs_vnet s"
proof -
  let ?p = "vn_device (net_dev v)"
  from w dev obtain d where d: "netdevs s ?p = Some d"
    by (auto simp: send_wake_def netdev_update_def netdev_at_def split: bind_splits)
  define e where "e = d\<lparr>nd_trans_start := k_jiffies K (ktrace s)\<rparr>"
  have t: "t = log Wake_up_interruptible (s\<lparr>netdevs := (netdevs s)(?p \<mapsto> e)\<rparr>)"
    using w d dev by (auto simp: send_wake_def netdev_update_def netdev_at_def io_dev_wakeup_def e_def
        split: bind_splits)
  have conf: "dev_conf c e = dev_conf c d" for c by (simp add: dev_conf_def e_def)
  have "dev_wf t v = dev_wf s v"
  proof
    assume "dev_wf s v"
    with dev d show "dev_wf t v" by (auto simp: dev_wf_def t conf)
  next
    assume "dev_wf t v"
    with dev obtain d' where d': "(netdevs s)(?p \<mapsto> e) = [?p \<mapsto> d']" "dev_conf (cfg v) d'"
      by (auto simp: dev_wf_def t)
    from fun_cong [OF d'(1), of ?p] have "d' = e" by simp
    moreover have "netdevs s = [?p \<mapsto> d]"
    proof
      fix q show "netdevs s q = [?p \<mapsto> d] q" using fun_cong [OF d'(1), of q] d by (cases "q = ?p") auto
    qed
    ultimately show "dev_wf s v" using dev d'(2) by (auto simp: dev_wf_def conf)
  qed
  then show "drv_inv t a v xs = drv_inv s a v xs"
    by (simp add: inv_defs t lock_simps)
  show "ktrace t = ktrace s @ [Wake_up_interruptible]" "skbs t = skbs s" "gs_vnet t = gs_vnet s"
    by (simp_all add: t log_def)
qed

lemma send_wake_Some:
  assumes "drv_inv s a v xs" and "vn_device (net_dev v) \<noteq> NULL"
  shows "\<exists>t. send_wake K (vn_device (net_dev v)) s = Some t"
  using assms by (auto simp: send_wake_def netdev_update_def netdev_at_def io_dev_wakeup_def inv_defs dev_wf_def)

lemma send_queue_trace:
  assumes "send_queue p d s = Some (q, u)"
  shows "\<exists>es. ktrace u = ktrace s @ es \<and> Poll_wait \<notin> set es \<and> last (ktrace u) = Spin_unlock_bh Queue_lock"
  using assms
  by (auto simp: send_queue_def with_queue_def Let_def vnet_upd_def raw_queue_insert_def
      SET_NEXT_PKT_def kfree_skb_def acquire_lock_def release_lock_def log_def
      split: if_splits bind_splits option.splits dest!: ktrace_updates)

lemma send_queue_inv:
  assumes inv: "drv_inv s a v xs" and dev: "vn_device (net_dev v) \<noteq> NULL" and ps: "sendable ((p, b) # ps) s"
  shows "\<exists>queued u w ys. send_queue p (the_dev s) (handed p b s) = Some (queued, u) \<and> drv_inv u a w ys \<and>
    (queued \<or> ys = xs) \<and> vn_device (net_dev w) = vn_device (net_dev v) \<and> sendable ps u \<and>
    (\<exists>es. ktrace u = ktrace s @ es \<and> Poll_wait \<notin> set es)"
proof -
  have new: "skbs s p = None" "p \<noteq> NULL" and lin: "skb_linear b" using ps by (auto simp: sendable_def)
  let ?dev = "vn_device (net_dev v)"
  have the: "the_dev s = ?dev" by (rule the_dev_inv [OF inv])
  have K: "\<exists>t w ys. net_dev_send K p ?dev (handed p b s) = Some (0, t) \<and> drv_inv t a w ys \<and>
      vn_device (net_dev w) = ?dev \<and> (ys = xs \<or> last (ktrace t) = Wake_up_interruptible) \<and>
      dom (skbs t) \<subseteq> insert p (dom (skbs s))" for K
  proof (cases "send_accepts v xs")
    case True
    from send_accepting [OF lin inv dev new True, of K] obtain t w q where
      t: "net_dev_send K p ?dev (handed p b s) = Some (0, t)" "drv_inv t a w (xs @ [p])"
        "w = net_dev_update (vn_queue_update (\<lambda>_. q)) v" "last (ktrace t) = Wake_up_interruptible" by blast
    have "dom (skbs t) \<subseteq> insert p (dom (skbs s))" using t(2) inv by (auto simp: inv_defs)
    with t show ?thesis by (intro exI [of _ t] exI [of _ w] exI [of _ "xs @ [p]"]) simp
  next
    case False
    from send_dropping [OF inv dev new False, of K b] obtain t where
      t: "net_dev_send K p ?dev (handed p b s) = Some (0, t)"
        "drv_inv t a (net_dev_update (vn_stats_update (tx_dropped_update (\<lambda>n. n + 1))) v) xs" by blast
    have "dom (skbs t) \<subseteq> insert p (dom (skbs s))" using t(2) inv by (auto simp: inv_defs)
    with t show ?thesis
      by (intro exI [of _ t] exI [of _ "net_dev_update (vn_stats_update (tx_dropped_update (\<lambda>n. n + 1))) v"]) auto
  qed
  obtain K :: kernel where True by simp
  from K [of K] obtain t w ys where
    t: "net_dev_send K p ?dev (handed p b s) = Some (0, t)" "drv_inv t a w ys"
      "vn_device (net_dev w) = ?dev" "ys = xs \<or> last (ktrace t) = Wake_up_interruptible"
      "dom (skbs t) \<subseteq> insert p (dom (skbs s))" by blast
  from t(1) obtain q u where
    u: "send_queue p ?dev (handed p b s) = Some (q, u)" "(if q then send_wake K ?dev u else Some u) = Some t"
    unfolding net_dev_send_sections by (auto split: bind_splits)
  from send_queue_trace [OF u(1)] obtain es where
    es: "ktrace u = ktrace s @ es" "Poll_wait \<notin> set es" "last (ktrace u) = Spin_unlock_bh Queue_lock"
    by (auto simp: handed_def)
  have "drv_inv u a w ys \<and> skbs u = skbs t \<and> (q \<or> ys = xs)"
  proof (cases q)
    case True
    with u(2) have w: "send_wake K (vn_device (net_dev w)) u = Some t" by (simp add: t(3))
    from send_wake_inv [OF this] t(2,3) dev True show ?thesis by simp
  next
    case False
    with u(2) es(3) t show ?thesis by auto
  qed
  moreover from this have "sendable ps u" using sendable_Cons [OF ps] t(5) by metis
  ultimately show ?thesis using u(1) t(3) es(1,2)
    by (intro exI [of _ q] exI [of _ u] exI [of _ w] exI [of _ ys]) (simp add: the)
qed

text \<open>The packets still to be sent in a schedule.\<close>

fun race_sent :: "event list \<Rightarrow> (addr \<times> sk_buff) list" where
  "race_sent [] = []"
| "race_sent (Send_queue p b # es) = (p, b) # race_sent es"
| "race_sent (e # es) = race_sent es"

text \<open>
  The invariant of the wake-up: when the poll found nothing and there is a packet after all,
  the poller was woken, or a sender is about to wake it.
\<close>

definition wakeup_inv :: "addr \<Rightarrow> race \<Rightarrow> (addr \<times> sk_buff) list \<Rightarrow> vnet \<Rightarrow> addr list \<Rightarrow> bool" where
  "wakeup_inv a r ps w ys \<longleftrightarrow> drv_inv (r_drv r) a w ys \<and> vn_device (net_dev w) \<noteq> NULL \<and>
     sendable ps (r_drv r) \<and>
     (\<forall>mk. r_poll r = P_done mk \<and> user_events mk = 0 \<and> ys \<noteq> [] \<longrightarrow>
        woken (ktrace (r_drv r)) \<or> 0 < r_owed r)"

lemma woken_mono: "Poll_wait \<notin> set es \<Longrightarrow> woken h \<Longrightarrow> woken (h @ es)"
proof (induction es arbitrary: h)
  case (Cons e es)
  then have "woken (h @ [e])" by (cases e) auto
  with Cons.IH [of "h @ [e]"] Cons.prems(1) show ?case by simp
qed simp

lemma drv_inv_canceled:
  "drv_inv s a v xs \<Longrightarrow> drv_inv (s\<lparr>gs_vnet := Some (a, cancel_vnet v)\<rparr>) a (cancel_vnet v) xs"
  by (simp add: inv_defs cancel_vnet_def dev_wf_def)

lemma poll_test_inv:
  assumes i: "drv_inv s a w ys"
  shows "\<exists>mk t. poll_test s = Some (mk, t) \<and> drv_inv t a w ys \<and> skbs t = skbs s \<and> ktrace t = ktrace s @
      [Spin_lock_bh Queue_lock, Spin_unlock_bh Queue_lock] \<and> (user_events mk = 0 \<longleftrightarrow> ys = [])"
proof -
  have g: "gs_vnet s = Some (a, w)" and lk: "lock_of s = Some False" using i by (simp_all add: inv_defs)
  let ?m = "if ys = [] then POLLOUT OR POLLWRNORM else (POLLOUT OR POLLWRNORM) OR (POLLIN OR POLLRDNORM)"
  let ?s = "release_lock Queue_lock (acquire_lock Queue_lock s)"
  have "user_events ?m = 0 \<longleftrightarrow> ys = []" by (simp only: user_events_values split: if_splits) simp
  moreover have "length ys < 2 ^ 32" using i by (simp add: inv_defs)
  then have "poll_test s = Some (?m, ?s)"
    using queue_is_empty_rep [of "vn_queue (net_dev w)" "skbs s" ys s] i g
    by (auto simp: poll_test_def with_queue_def queue_is_empty_def inv_defs Let_def vnet_dev_def vnet_upd_def
        split: if_splits)
  moreover have "drv_inv ?s a w ys"
    by (rule drv_inv_same_but_trace [OF i]) (simp add: same_but_trace_def lk lock_simps)
  moreover have "ktrace ?s = ktrace s @ [Spin_lock_bh Queue_lock, Spin_unlock_bh Queue_lock]"
    by (simp add: acquire_lock_def release_lock_def)
  ultimately show ?thesis by (intro exI [of _ ?m] exI [of _ ?s]) simp
qed

lemma wakeup_inv_poller:
  assumes inv: "wakeup_inv a r ps w ys"
  shows "\<exists>r'. race_step K Poller r = Some r' \<and> wakeup_inv a r' ps w ys"
proof -
  have i: "drv_inv (r_drv r) a w ys" and sd: "sendable ps (r_drv r)" using inv by (simp_all add: wakeup_inv_def)
  have g: "gs_vnet (r_drv r) = Some (a, w)" and lk: "lock_of (r_drv r) = Some False"
    using i by (simp_all add: inv_defs)
  show ?thesis
  proof (cases "r_poll r")
    case P_check
    have "user_events (POLLPRI OR POLLERR) \<noteq> 0" by (simp only: user_events_values) simp
    with P_check g inv show ?thesis by (auto simp: poll_check_def wakeup_inv_def)
  next
    case P_join
    have "drv_inv (log Poll_wait (r_drv r)) a w ys"
      by (rule drv_inv_log [OF _ _ i]) (simp_all add: lk lock_simps)
    with P_join inv show ?thesis by (simp add: poll_join_def wakeup_inv_def sendable_def)
  next
    case P_test
    from poll_test_inv [OF i] obtain mk t where
      "poll_test (r_drv r) = Some (mk, t)" "drv_inv t a w ys" "skbs t = skbs (r_drv r)" "user_events mk = 0 \<longleftrightarrow> ys = []"
      by blast
    with P_test inv show ?thesis by (auto simp: wakeup_inv_def sendable_def)
  next
    case (P_done mk)
    with inv show ?thesis by simp
  qed
qed

lemma wakeup_inv_step:
  assumes inv: "wakeup_inv a r (race_sent (e # es)) w ys"
  shows "\<exists>r' w' ys'. race_step K e r = Some r' \<and> wakeup_inv a r' (race_sent es) w' ys'"
proof -
  have i: "drv_inv (r_drv r) a w ys" and dev: "vn_device (net_dev w) \<noteq> NULL"
    and W: "\<And>mk. r_poll r = P_done mk \<Longrightarrow> user_events mk = 0 \<Longrightarrow> ys \<noteq> [] \<Longrightarrow>
      woken (ktrace (r_drv r)) \<or> 0 < r_owed r"
    using inv by (auto simp: wakeup_inv_def)
  have g: "gs_vnet (r_drv r) = Some (a, w)" and lk: "lock_of (r_drv r) = Some False"
    using i by (simp_all add: inv_defs)
  show ?thesis
  proof (cases e)
    case Poller
    with wakeup_inv_poller [of a r "race_sent es" w ys K] inv show ?thesis by fastforce
  next
    case Cancel_set
    with drv_inv_canceled [OF i] g inv dev show ?thesis
      by (intro exI [of _ "r\<lparr>r_drv := (r_drv r)\<lparr>gs_vnet := Some (a, cancel_vnet w)\<rparr>\<rparr>"]
          exI [of _ "cancel_vnet w"] exI [of _ ys])
        (auto simp: cancel_set_def vnet_upd_def cancel_vnet_def wakeup_inv_def sendable_def)
  next
    case Cancel_wake
    have "drv_inv (log Wake_up_interruptible (r_drv r)) a w ys"
      by (rule drv_inv_log [OF _ _ i]) (simp_all add: lk lock_simps)
    with Cancel_wake g inv show ?thesis
      by (intro exI [of _ "r\<lparr>r_drv := log Wake_up_interruptible (r_drv r)\<rparr>"] exI [of _ w] exI [of _ ys])
        (auto simp: io_dev_wakeup_def wakeup_inv_def sendable_def log_def)
  next
    case (Send_queue p b)
    with inv have "sendable ((p, b) # race_sent es) (r_drv r)" by (simp add: wakeup_inv_def)
    from send_queue_inv [OF i dev this] obtain q u w' zs fs where
      u: "send_queue p (the_dev (r_drv r)) (handed p b (r_drv r)) = Some (q, u)" "drv_inv u a w' zs"
        "q \<or> zs = ys" "vn_device (net_dev w') = vn_device (net_dev w)" "sendable (race_sent es) u"
        "ktrace u = ktrace (r_drv r) @ fs" "Poll_wait \<notin> set fs" by blast
    have "woken (ktrace u) \<or> 0 < r_owed r + (if q then 1 else 0)"
      if "r_poll r = P_done mk" "user_events mk = 0" "zs \<noteq> []" for mk
      using W [OF that(1,2)] that(3) u(3) woken_mono [OF u(7), of "ktrace (r_drv r)"] u(6) by auto
    with u Send_queue dev show ?thesis
      by (intro exI [of _ "r\<lparr>r_drv := u, r_owed := r_owed r + (if q then 1 else 0)\<rparr>"]
          exI [of _ w'] exI [of _ zs]) (auto simp: wakeup_inv_def)
  next
    case Send_wake
    show ?thesis
    proof (cases "r_owed r = 0")
      case True
      with Send_wake inv show ?thesis by (auto intro!: exI [of _ w] exI [of _ ys])
    next
      case False
      have the: "the_dev (r_drv r) = vn_device (net_dev w)" by (rule the_dev_inv [OF i])
      from send_wake_Some [OF i dev] obtain t where t: "send_wake K (vn_device (net_dev w)) (r_drv r) = Some t"
        by blast
      from send_wake_inv [OF t dev] i inv Send_wake False t the show ?thesis
        by (intro exI [of _ "r\<lparr>r_drv := t, r_owed := r_owed r - 1\<rparr>"] exI [of _ w] exI [of _ ys])
          (auto simp: wakeup_inv_def sendable_def)
    qed
  qed
qed

lemma wakeup_inv_run:
  "wakeup_inv a r (race_sent es) w ys \<Longrightarrow>
   \<exists>r' w' ys'. race_run K es r = Some r' \<and> wakeup_inv a r' [] w' ys'"
proof (induction es arbitrary: r w ys)
  case (Cons e es)
  from wakeup_inv_step [OF Cons.prems, of K] Cons.IH show ?case by fastforce
qed auto

text \<open>
  (C16) A packet is never missed: whatever the order in which the sections of a \<open>poll\<close>, of any
  number of senders and of cancellations fall, when the \<open>poll\<close> reported nothing and there is a
  packet in the queue, the poller has been woken since it joined the wait queue, or a sender
  that has queued its packet is still to wake it.
\<close>

theorem packet_wakes_poller:
  assumes "running s a v xs" and "vn_device (net_dev v) \<noteq> NULL" and "sendable (race_sent es) s"
  shows "\<exists>r w ys. race_run K es (race_start s) = Some r \<and> drv_inv (r_drv r) a w ys \<and>
    (asleep r \<and> ys \<noteq> [] \<longrightarrow> 0 < r_owed r)"
proof -
  have "wakeup_inv a (race_start s) (race_sent es) v xs"
    using assms running_facts(1) [OF assms(1)] by (simp add: wakeup_inv_def race_start_def)
  from wakeup_inv_run [OF this, of K] obtain r w ys where
    "race_run K es (race_start s) = Some r" "wakeup_inv a r [] w ys" by blast
  then show ?thesis
    by (intro exI [of _ r] exI [of _ w] exI [of _ ys]) (auto simp: wakeup_inv_def asleep_def split: poll_pc.splits)
qed

end
