(* ===== verification/Open_Race.thy ===== *)
theory Open_Race
  imports Driver_Spec
begin

text \<open>
  Two processes that open \<open>/dev/kvnet\<close> at the same time. \<open>io_dev_open\<close> takes no lock: it tests
  \<open>opened\<close>, adds the interface, and then sets \<open>opened\<close>. Those are its sections here; the kernel
  itself runs \<open>register_netdev\<close> under a lock, and \<open>net_dev_add\<close> is one section.
\<close>

abbreviation (input) EEXIST :: int where "EEXIST \<equiv> 17"

section \<open>The sections of \<open>io_dev_open\<close>\<close>

definition open_check :: "drv \<Rightarrow> bool option" where
  "open_check s = do { v \<leftarrow> vnet_dev s; Some (io_opened (io_dev v) \<noteq> 0) }"

definition open_mark :: "drv \<Rightarrow> drv option" where
  "open_mark s = do {
     s \<leftarrow> vnet_upd (io_dev_update (io_opened_update (\<lambda>_. 1))) s;
     vnet_upd (io_dev_update (io_canceled_update (\<lambda>_. 0))) s }"

lemma io_dev_open_sections:
  "io_dev_open K s = do {
     busy \<leftarrow> open_check s;
     if busy then Some (- EACCES, s)
     else do {
       (ret, s) \<leftarrow> net_dev_add K s;
       if ret \<noteq> 0 then Some (ret, s) else do { s \<leftarrow> open_mark s; Some (0, s) } } }"
  by (cases "vnet_dev s") (simp_all add: io_dev_open_def open_check_def open_mark_def bind_assoc cong: if_cong)

datatype open_pc = O_check | O_add | O_mark | O_done int

fun open_step :: "kernel \<Rightarrow> open_pc \<Rightarrow> drv \<Rightarrow> (open_pc \<times> drv) option" where
  "open_step K O_check s = do { busy \<leftarrow> open_check s; Some (if busy then O_done (- EACCES) else O_add, s) }"
| "open_step K O_add s = do { (ret, s) \<leftarrow> net_dev_add K s; Some (if ret \<noteq> 0 then O_done ret else O_mark, s) }"
| "open_step K O_mark s = do { s \<leftarrow> open_mark s; Some (O_done 0, s) }"
| "open_step K (O_done r) s = Some (O_done r, s)"

datatype opener = First | Second

fun open_run :: "kernel \<Rightarrow> opener list \<Rightarrow> open_pc \<times> open_pc \<times> drv \<Rightarrow> (open_pc \<times> open_pc \<times> drv) option" where
  "open_run K [] c = Some c"
| "open_run K (First # es) (p, q, s) = do { (p, s) \<leftarrow> open_step K p s; open_run K es (p, q, s) }"
| "open_run K (Second # es) (p, q, s) = do { (q, s) \<leftarrow> open_step K q s; open_run K es (p, q, s) }"

section \<open>The kernel's devices\<close>

text \<open>The devices that are registered, all of them under the name \<open>kvnet\<close>.\<close>

fun named_step :: "kcall \<Rightarrow> addr set \<Rightarrow> addr set" where
  "named_step (Register_netdev p r) ps = (if r = 0 then insert p ps else ps)"
| "named_step (Unregister_netdev p) ps = ps - {p}"
| "named_step e ps = ps"

definition named_in :: "kcall list \<Rightarrow> addr set" where
  "named_in h = fold named_step h {}"

lemma named_in_append [simp]: "named_in (h @ es) = fold named_step es (named_in h)"
  by (simp add: named_in_def)

text \<open>
  A device is not allocated where one is registered (of at most one); a second device of the
  same name is refused before any callback, and to take back one that was refused runs none.
\<close>

definition one_name :: "kernel \<Rightarrow> bool" where
  "one_name K \<longleftrightarrow> (\<forall>h.
     (card (named_in h) \<le> 1 \<longrightarrow> fst (k_alloc_netdev K h) \<notin> insert NULL (named_in h)) \<and>
     k_register_netdev K h = (if named_in h = {} then (0, [Ndo_init]) else (- EEXIST, [])) \<and>
     (\<forall>p r. r \<noteq> 0 \<longrightarrow> k_unregister_netdev K (h @ [Register_netdev p r]) = []))"

section \<open>Adding the interface twice\<close>

text \<open>The driver with the device \<open>p\<close> registered; \<open>at\<close> is where its pointer to it leads.\<close>

definition has_device :: "drv \<Rightarrow> addr \<Rightarrow> addr \<Rightarrow> vnet \<Rightarrow> bool" where
  "has_device s p a v \<longleftrightarrow> gs_vnet s = Some (a, v) \<and> p \<noteq> NULL \<and> dom (netdevs s) = {p} \<and>
     named_in (ktrace s) = {p} \<and> lock_of s = Some False \<and>
     queue_rep (vn_queue (net_dev v)) (skbs s) [] \<and> 6 \<le> length (cfg_mac (cfg v))"

lemma add_first:
  assumes s: "loaded s a v" and K: "one_name K" and none: "named_in (ktrace s) = {}"
  shows "\<exists>t p w. net_dev_add K s = Some (0, t) \<and> has_device t p a w \<and> vn_device (net_dev w) = p \<and>
    vn_added (net_dev w) = 1 \<and> io_dev w = io_dev v"
proof -
  define p where "p = fst (k_alloc_netdev K (ktrace s))"
  have ok: "drv_ok s a v []" "io_opened (io_dev v) = 0" using s by (simp_all add: loaded_def)
  have g: "gs_vnet s = Some (a, v)" and nd: "netdevs s = Map.empty" and lk: "lock_of s = Some False"
    and q: "queue_rep (vn_queue (net_dev v)) (skbs s) []" and mac: "6 \<le> length (cfg_mac (cfg v))"
    using ok drv_ok_closed [OF ok] by (auto simp: drv_ok_def file_wf_def inv_defs)
  have p: "p \<noteq> NULL" using K none unfolding one_name_def p_def by (metis card.empty insertI1 zero_le)
  from alloc_netdev_ok [OF _ nd p_def p mac] g obtain d where
    d: "alloc_netdev K s = Some (p, (log (Alloc_netdev p) s)\<lparr>netdevs := [p \<mapsto> d]\<rparr>)"
      "set_up_dev K (cfg v) d" by auto
  let ?v1 = "net_dev_update (vn_device_update (\<lambda>_. p)) v"
  let ?w = "net_dev_update (vn_added_update (\<lambda>_. 1)) ?v1"
  let ?s1 = "(log (Alloc_netdev p) s)\<lparr>netdevs := [p \<mapsto> d], gs_vnet := Some (a, ?v1)\<rparr>"
  let ?t = "(log (Register_netdev p 0) ?s1)\<lparr>gs_vnet := Some (a, ?w)\<rparr>"
  have "k_register_netdev K (ktrace ?s1) = (0, [Ndo_init])" using K none by (simp add: one_name_def)
  then have "register_netdev K p ?s1 = Some (0, log (Register_netdev p 0) ?s1)"
    using p by (simp add: register_netdev_def run_ndo_def netdev_at_def net_dev_init_def)
  then have "net_dev_add K s = Some (0, ?t)"
    using g d p by (simp add: net_dev_add_def IS_PTR_VALID_def)
  moreover have "has_device ?t p a ?w"
    using p lk q mac none by (simp add: has_device_def lock_simps)
  ultimately show ?thesis by (intro exI [of _ ?t] exI [of _ p] exI [of _ ?w]) simp
qed

text \<open>
  The second device is refused, and the undoing of its registration takes the driver's
  pointer to the first one away.
\<close>

lemma add_second:
  assumes s: "has_device s p a v" and K: "one_name K"
  shows "\<exists>t w. net_dev_add K s = Some (- EEXIST, t) \<and> has_device t p a w \<and> vn_device (net_dev w) = NULL \<and>
    io_dev w = io_dev v"
proof -
  define q where "q = fst (k_alloc_netdev K (ktrace s))"
  define d where "d = snd (k_alloc_netdev K (ktrace s))"
  have a: "k_alloc_netdev K (ktrace s) = (q, d)" by (simp add: q_def d_def)
  have g: "gs_vnet s = Some (a, v)" and p: "p \<noteq> NULL" "dom (netdevs s) = {p}" using s by (simp_all add: has_device_def)
  have n: "named_in (ktrace s) = {p}" using s by (simp add: has_device_def)
  then have "card (named_in (ktrace s)) \<le> 1" by simp
  with K have "q \<notin> insert NULL (named_in (ktrace s))" unfolding one_name_def q_def by blast
  with n have q: "q \<noteq> NULL" and qp: "q \<noteq> p" by auto
  have "net_dev_setup K q (log (Alloc_netdev q) s\<lparr>netdevs := (netdevs s)(q \<mapsto> d)\<rparr>) \<noteq> None"
    using g q by (simp add: net_dev_setup_def netdev_update_def netdev_at_def Let_def)
  then obtain e where al: "alloc_netdev K s = Some (q, (log (Alloc_netdev q) s)\<lparr>netdevs := (netdevs s)(q \<mapsto> e)\<rparr>)"
    using g q by (auto simp: alloc_netdev_def a Let_def net_dev_setup_def netdev_update_def netdev_at_def)
  let ?v1 = "net_dev_update (vn_device_update (\<lambda>_. q)) v"
  let ?s1 = "(log (Alloc_netdev q) s)\<lparr>netdevs := (netdevs s)(q \<mapsto> e), gs_vnet := Some (a, ?v1)\<rparr>"
  let ?s2 = "log (Register_netdev q (- EEXIST)) ?s1"
  have "k_register_netdev K (ktrace ?s1) = (- EEXIST, [])" using K s by (simp add: one_name_def has_device_def)
  then have reg: "register_netdev K q ?s1 = Some (- EEXIST, ?s2)" by (simp add: register_netdev_def)
  have "k_unregister_netdev K ((ktrace s @ [Alloc_netdev q]) @ [Register_netdev q (- EEXIST)]) = []"
    using K unfolding one_name_def by (metis neg_equal_0_iff_equal zero_neq_numeral)
  then have un: "unregister_netdev K q ?s2 = Some (log (Unregister_netdev q) ?s2)"
    by (simp add: unregister_netdev_def)
  have nd: "(netdevs s)(q := None) = netdevs s" using p(2) qp by (intro ext) auto
  let ?w = "net_dev_update (vn_added_update (\<lambda>_. 0)) (net_dev_update (vn_device_update (\<lambda>_. NULL)) v)"
  have "\<exists>t. net_dev_remove K ?s2 = Some (0, t) \<and> has_device t p a ?w"
  proof (cases "vn_added (net_dev v) = 0")
    case True
    let ?t = "(log (Free_netdev q) (?s2\<lparr>netdevs := netdevs s\<rparr>))\<lparr>gs_vnet := Some (a, ?w)\<rparr>"
    have "net_dev_remove K ?s2 = Some (0, ?t)"
      using True q nd by (simp add: net_dev_remove_def IS_PTR_VALID_def free_netdev_def netdev_at_def)
    moreover have "has_device ?t p a ?w" using s qp by (simp add: has_device_def lock_simps)
    ultimately show ?thesis by blast
  next
    case False
    let ?t = "(log (Free_netdev q) ((log (Unregister_netdev q) ?s2)\<lparr>netdevs := netdevs s\<rparr>))\<lparr>gs_vnet := Some (a, ?w)\<rparr>"
    have "net_dev_remove K ?s2 = Some (0, ?t)"
      using False q nd un by (simp add: net_dev_remove_def IS_PTR_VALID_def free_netdev_def netdev_at_def)
    moreover have "has_device ?t p a ?w" using s qp by (simp add: has_device_def lock_simps)
    ultimately show ?thesis by blast
  qed
  then obtain t where t: "net_dev_remove K ?s2 = Some (0, t)" "has_device t p a ?w" by blast
  have "net_dev_add K s = Some (- EEXIST, t)"
    using g al q reg t(1) by (simp add: net_dev_add_def IS_PTR_VALID_def)
  with t(2) show ?thesis by (intro exI [of _ t] exI [of _ ?w]) simp
qed

section \<open>What the other sections do\<close>

lemma mark_device:
  assumes "has_device s p a v"
  shows "\<exists>t w. open_mark s = Some t \<and> has_device t p a w \<and> net_dev w = net_dev v \<and> io_opened (io_dev w) = 1"
  using assms by (simp add: open_mark_def vnet_upd_def has_device_def)

lemma check_device: "gs_vnet s = Some (a, v) \<Longrightarrow> open_check s = Some (io_opened (io_dev v) \<noteq> 0)"
  by (simp add: open_check_def vnet_dev_def)

text \<open>A file that is open without an interface: closing it gives nothing back, reading from it is an oops.\<close>

lemma orphan_close:
  assumes "has_device s p a v" and "vn_device (net_dev v) = NULL"
  shows "\<exists>t. io_dev_close K s = Some (0, t) \<and> netdevs t = netdevs s"
  using assms by (simp add: io_dev_close_def net_dev_remove_def IS_PTR_VALID_def vnet_dev_def vnet_upd_def has_device_def)

lemma orphan_read:
  assumes s: "has_device s p a v" "vn_device (net_dev v) = NULL" and hdr: "good_header K s len ptrs rest"
  shows "io_read_to_iovec K len s = None"
proof -
  let ?s1 = "log (Memcpy_fromiovecend len (Some (header_bytes (of_nat (length ptrs)) ptrs @ rest)))
          (log (Kmalloc len (k_kmalloc K (ktrace s) len)) s)"
  from fetch_header_ok [OF hdr] obtain hd where
    fh: "fetch_header K len s = Some (Inr (hd, of_nat (length ptrs)), ?s1)"
      "unat (of_nat (length ptrs) :: u32) = length ptrs" by blast
  have ne: "length ptrs \<noteq> 0" using hdr by (simp add: good_header_def)
  have g: "gs_vnet ?s1 = Some (a, v)" and q: "queue_rep (vn_queue (net_dev v)) (skbs ?s1) []"
    using s(1) by (simp_all add: has_device_def)
  let ?t = "release_lock Queue_lock (acquire_lock Queue_lock ?s1)"
  have "queue_remove (vn_queue (net_dev v)) ?s1 = Some (NULL, vn_queue (net_dev v), ?t)"
    using q by (simp add: queue_remove_raw queue_simps raw_queue_remove_def IS_PTR_VALID_def)
  from with_queue_Some [where f = queue_remove, OF g this] g
  have "\<exists>t w. with_queue queue_remove ?s1 = Some (NULL, t) \<and> gs_vnet t = Some (a, w) \<and> vn_device (net_dev w) = NULL"
    using s(2) by simp
  then obtain t w where t: "with_queue queue_remove ?s1 = Some (NULL, t)" "gs_vnet t = Some (a, w)" "vn_device (net_dev w) = NULL"
    by blast
  obtain js where "[0..<length ptrs] = 0 # js" using ne by (metis upt_conv_Cons gr0I)
  with t(1) have "io_read_loop K (kb_mem hd) [0..<length ptrs] 0 ?s1 = Some (- EAGAIN, t)"
    by (simp add: IS_PTR_VALID_def)
  with fh t(2,3) show ?thesis
    by (simp add: io_read_to_iovec_def netif_wake_queue_def netdev_at_def)
qed

text \<open>Schedules of two processes that open the device.\<close>

definition serial :: "opener list \<Rightarrow> bool" where
  "serial es \<longleftrightarrow> es \<in> {[First, First, First, Second, Second, Second], [Second, Second, Second, First, First, First]}"

lemma open_schedules:
  "shuffles [First, First, First] [Second, Second, Second] =
     {[First, First, First, Second, Second, Second], [First, First, Second, First, Second, Second],
      [First, First, Second, Second, First, Second], [First, First, Second, Second, Second, First],
      [First, Second, First, First, Second, Second], [First, Second, First, Second, First, Second],
      [First, Second, First, Second, Second, First], [First, Second, Second, First, First, Second],
      [First, Second, Second, First, Second, First], [First, Second, Second, Second, First, First],
      [Second, Second, Second, First, First, First], [Second, Second, First, Second, First, First],
      [Second, Second, First, First, Second, First], [Second, Second, First, First, First, Second],
      [Second, First, Second, Second, First, First], [Second, First, Second, First, Second, First],
      [Second, First, Second, First, First, Second], [Second, First, First, Second, Second, First],
      [Second, First, First, Second, First, Second], [Second, First, First, First, Second, Second]}"
  by auto

text \<open>
  (C22) Opening \<open>/dev/kvnet\<close> twice at once is right only when one of the opens comes whole before
  the other: then one succeeds and the other is refused. In every other order one succeeds as
  well, but the driver has lost its interface: the device stays registered for ever, closing
  the file gives nothing back, and a read from it is a kernel oops.
\<close>

theorem open_race:
  assumes s: "loaded s a v" and K: "one_name K" and none: "named_in (ktrace s) = {}"
    and es: "es \<in> shuffles [First, First, First] [Second, Second, Second]"
  shows "\<exists>t r q p. open_run K es (O_check, O_check, s) = Some (O_done r, O_done q, t) \<and>
    file_is_open t \<and> named_in (ktrace t) = {p} \<and> dom (netdevs t) = {p} \<and>
    (if serial es then {r, q} = {0, - EACCES} \<and> the_dev t = p
     else {r, q} = {0, - EEXIST} \<and> the_dev t = NULL \<and>
       (\<exists>u. io_dev_close K t = Some (0, u) \<and> dom (netdevs u) = {p}) \<and>
       (\<forall>len ptrs rest. good_header K t len ptrs rest \<longrightarrow> io_read_to_iovec K len t = None))"
proof -
  have closed: "io_opened (io_dev v) = 0" and g: "gs_vnet s = Some (a, v)"
    using s by (simp_all add: loaded_def drv_ok_def inv_defs)
  from add_first [OF s K none] obtain t1 p v1 where
    t1: "net_dev_add K s = Some (0, t1)" "has_device t1 p a v1" "vn_device (net_dev v1) = p" "io_dev v1 = io_dev v"
    by blast
  from mark_device [OF t1(2)] obtain t2 v2 where
    t2: "open_mark t1 = Some t2" "has_device t2 p a v2" "net_dev v2 = net_dev v1" "io_opened (io_dev v2) = 1" by blast
  from add_second [OF t1(2) K] obtain t3 v3 where
    t3: "net_dev_add K t1 = Some (- EEXIST, t3)" "has_device t3 p a v3" "vn_device (net_dev v3) = NULL" "io_dev v3 = io_dev v1"
    by blast
  from mark_device [OF t3(2)] obtain t4 v4 where
    t4: "open_mark t3 = Some t4" "has_device t4 p a v4" "net_dev v4 = net_dev v3" "io_opened (io_dev v4) = 1" by blast
  from add_second [OF t2(2) K] obtain t5 v5 where
    t5: "net_dev_add K t2 = Some (- EEXIST, t5)" "has_device t5 p a v5" "vn_device (net_dev v5) = NULL" "io_dev v5 = io_dev v2"
    by blast
  have c: "open_check s = Some False" "open_check t1 = Some False" "open_check t2 = Some True"
    using check_device [OF g] check_device [of t1 a v1] check_device [of t2 a v2] closed t1 t2
    by (simp_all add: has_device_def)
  have orphan: "file_is_open t \<and> named_in (ktrace t) = {p} \<and> dom (netdevs t) = {p} \<and> the_dev t = NULL \<and>
      (\<exists>u. io_dev_close K t = Some (0, u) \<and> dom (netdevs u) = {p}) \<and>
      (\<forall>len ptrs rest. good_header K t len ptrs rest \<longrightarrow> io_read_to_iovec K len t = None)"
    if "has_device t p a w" "vn_device (net_dev w) = NULL" "io_opened (io_dev w) = 1" for t w
    using orphan_close [OF that(1,2), of K] orphan_read [OF that(1,2)] that
    by (auto simp: has_device_def file_is_open_def the_dev_def)
  have o4: "has_device t4 p a v4" "vn_device (net_dev v4) = NULL" "io_opened (io_dev v4) = 1"
    and o5: "has_device t5 p a v5" "vn_device (net_dev v5) = NULL" "io_opened (io_dev v5) = 1"
    using t2 t3 t4 t5 by simp_all
  have good: "file_is_open t2 \<and> named_in (ktrace t2) = {p} \<and> dom (netdevs t2) = {p} \<and> the_dev t2 = p"
    using t1 t2 by (simp add: has_device_def file_is_open_def the_dev_def)
  have "\<exists>t r q. open_run K es (O_check, O_check, s) = Some (O_done r, O_done q, t) \<and>
      (if serial es then {r, q} = {0, - EACCES} \<and> t = t2 else {r, q} = {0, - EEXIST} \<and> (t = t4 \<or> t = t5))"
    using es unfolding open_schedules
    by (elim insertE emptyE) (auto simp: serial_def c t1(1) t2(1) t3(1) t4(1) t5(1))
  then obtain t r q where t: "open_run K es (O_check, O_check, s) = Some (O_done r, O_done q, t)"
    "if serial es then {r, q} = {0, - EACCES} \<and> t = t2 else {r, q} = {0, - EEXIST} \<and> (t = t4 \<or> t = t5)" by blast
  show ?thesis
  proof (cases "serial es")
    case True
    with t good show ?thesis by (intro exI [of _ t] exI [of _ r] exI [of _ q] exI [of _ p]) simp
  next
    case False
    with t(2) orphan [OF o4] orphan [OF o5] have "{r, q} = {0, - EEXIST}" and
      "file_is_open t \<and> named_in (ktrace t) = {p} \<and> dom (netdevs t) = {p} \<and> the_dev t = NULL \<and>
      (\<exists>u. io_dev_close K t = Some (0, u) \<and> dom (netdevs u) = {p}) \<and>
      (\<forall>len ptrs rest. good_header K t len ptrs rest \<longrightarrow> io_read_to_iovec K len t = None)" by auto
    with t(1) False show ?thesis by (intro exI [of _ t] exI [of _ r] exI [of _ q] exI [of _ p]) simp
  qed
qed

end
