(* ===== verification/Stop_Race.thy ===== *)
theory Stop_Race
  imports Interleave
begin

text \<open>
  Taking the interface down while a process reads. The kernel has stopped the transmit queue
  by the time it calls \<open>net_dev_close\<close>, so no packet is sent then, but a read may be going on.
  The sections of \<open>net_dev_close\<close> fall between the rounds of the read's loop in any order; they
  meet in the queue, under its lock.
\<close>

section \<open>The sections of \<open>net_dev_close\<close>\<close>

definition close_disable :: "drv \<Rightarrow> drv option" where
  "close_disable s = do {
     (_, s) \<leftarrow> with_queue (\<lambda>q s. let (q, s) = queue_enable 0 q s in Some ((), q, s)) s;
     Some s }"

definition close_flush :: "drv \<Rightarrow> (u32 \<times> drv) option" where
  "close_flush s = do {
     _ \<leftarrow> vnet_dev s;
     let s = acquire_lock Queue_lock s;
     (flushed, s) \<leftarrow> with_queue (\<lambda>q s. flush_loop 0 (q, s)) s;
     Some (flushed, release_lock Queue_lock s) }"

definition close_count :: "u32 \<Rightarrow> drv \<Rightarrow> drv option" where
  "close_count flushed s = vnet_upd (net_dev_update (vn_stats_update (tx_dropped_update (\<lambda>n. n + flushed)))) s"

definition close_link :: "addr \<Rightarrow> drv \<Rightarrow> drv option" where
  "close_link dev s = vnet_upd (net_dev_update (vn_connected_update (\<lambda>_. 0))) (log (Netif_stop_queue dev) s)"

lemma net_dev_close_sections:
  "net_dev_close dev s = do {
     s \<leftarrow> close_disable s;
     (flushed, s) \<leftarrow> close_flush s;
     s \<leftarrow> close_count flushed s;
     s \<leftarrow> close_link dev s;
     Some (0, s) }"
  by (simp add: net_dev_close_def net_dev_flush_tx_queue_def close_disable_def close_flush_def
      close_count_def close_link_def Let_def split_def bind_assoc cong: if_cong)

section \<open>The sections one by one\<close>

lemma going_down_queue:
  assumes "going_down s a v xs" and "queue_rep q (skbs t) ys" and "dom (skbs t) = set ys"
    and "heap_linear (skbs t)" and "length ys \<le> length xs" and "netdevs t = netdevs s" and "gs_vnet t = Some (a, w)"
    and "w = net_dev_update (vn_queue_update (\<lambda>_. q)) v" and "lock_of t = Some False" and "up_of t = up_of s"
  shows "going_down t a w ys"
  using assms dev_wf_cong [of t s w v] by (auto simp: going_down_def drv_core_def)

lemma close_disable_down:
  assumes inv: "going_down s a v xs"
  shows "\<exists>t w. close_disable s = Some t \<and> going_down t a w xs \<and> up_of t = up_of s \<and>
    vn_stats (net_dev w) = vn_stats (net_dev v) \<and> q_enabled (vn_queue (net_dev w)) = 0 \<and>
    skbs t = skbs s \<and> ktrace t = ktrace s @ [Spin_lock_bh Queue_lock, Spin_unlock_bh Queue_lock]"
proof -
  let ?q = "(vn_queue (net_dev v))\<lparr>q_enabled := 0\<rparr>"
  let ?w = "net_dev_update (vn_queue_update (\<lambda>_. ?q)) v"
  let ?t = "(release_lock Queue_lock (acquire_lock Queue_lock s))\<lparr>gs_vnet := Some (a, ?w)\<rparr>"
  have I: "drv_core s a v xs" using inv by (simp add: going_down_def)
  then have "close_disable s = Some ?t"
    by (simp add: drv_core_def close_disable_def with_queue_def queue_enable_eq vnet_dev_def)
  moreover have "going_down ?t a ?w xs"
    using I by (intro going_down_queue [OF inv]) (auto simp: drv_core_def queue_rep_def lock_simps)
  ultimately show ?thesis
    by (intro exI [of _ ?t] exI [of _ ?w]) (simp add: lock_simps acquire_lock_def release_lock_def)
qed

lemma flush_trace:
  assumes "flush_loop n qs = Some (m, r)"
  shows "\<exists>fs. ktrace (snd r) = ktrace (snd qs) @ fs \<and> set fs \<subseteq> range Kfree_skb"
proof -
  have "\<exists>fs. ktrace (snd (snd (m, r))) = ktrace (snd qs) @ fs \<and> set fs \<subseteq> range Kfree_skb"
  proof (rule flush_loop.raw_induct [OF _ assms, where P = "\<lambda>n qs mr.
      \<exists>fs. ktrace (snd (snd mr)) = ktrace (snd qs) @ fs \<and> set fs \<subseteq> range Kfree_skb"])
    fix f :: "u32 \<Rightarrow> queue \<times> 'a kmem_scheme \<Rightarrow> (u32 \<times> queue \<times> 'a kmem_scheme) option" and n qs mr
    assume IH: "\<And>n qs mr. f n qs = Some mr \<Longrightarrow>
        \<exists>fs. ktrace (snd (snd mr)) = ktrace (snd qs) @ fs \<and> set fs \<subseteq> range Kfree_skb"
      and step: "(raw_queue_remove (fst qs) (snd qs) \<bind> (\<lambda>(skb, qs). if skb \<noteq> NULL
        then q_free skb qs \<bind> f (n + 1) else Some (n, qs))) = Some mr"
    from step obtain skb q t where r: "raw_queue_remove (fst qs) (snd qs) = Some (skb, q, t)"
      and k: "(if skb \<noteq> NULL then q_free skb (q, t) \<bind> f (n + 1) else Some (n, q, t)) = Some mr"
      by (auto split: bind_splits)
    have T: "ktrace t = ktrace (snd qs)" using r
      by (auto simp: raw_queue_remove_def SET_NEXT_PKT_def GET_NEXT_PKT_def skb_update_def Let_def
          split: bind_splits if_splits)
    show "\<exists>fs. ktrace (snd (snd mr)) = ktrace (snd qs) @ fs \<and> set fs \<subseteq> range Kfree_skb"
    proof (cases "skb = NULL")
      case True
      with k T show ?thesis by auto
    next
      case False
      with k obtain u where u: "q_free skb (q, t) = Some u" "f (n + 1) u = Some mr"
        by (auto split: bind_splits)
      have "ktrace (snd u) = ktrace t @ [Kfree_skb skb]"
        using u(1) by (auto simp: q_free_def kfree_skb_def split: bind_splits)
      moreover obtain fs where "ktrace (snd (snd mr)) = ktrace (snd u) @ fs" "set fs \<subseteq> range Kfree_skb"
        using IH [OF u(2)] by blast
      ultimately show ?thesis using T by (intro exI [of _ "Kfree_skb skb # fs"]) auto
    qed
  qed
  then show ?thesis by simp
qed

lemma close_flush_down:
  assumes inv: "going_down s a v xs"
  shows "\<exists>t w fs. close_flush s = Some (of_nat (length xs), t) \<and> going_down t a w [] \<and> up_of t = up_of s \<and>
    vn_stats (net_dev w) = vn_stats (net_dev v) \<and> skbs t = Map.empty \<and>
    q_enabled (vn_queue (net_dev w)) = q_enabled (vn_queue (net_dev v)) \<and>
    ktrace t = ktrace s @ fs \<and> send_only fs"
proof -
  let ?q = "vn_queue (net_dev v)"
  let ?s0 = "acquire_lock Queue_lock s"
  have I: "drv_core s a v xs" using inv by (simp add: going_down_def)
  then have "q_holds (?q, ?s0) xs" by (simp add: q_holds_def drv_core_def)
  from flush_loop_drains [OF this, of 0] obtain q t where
    t: "flush_loop 0 (?q, ?s0) = Some (of_nat (length xs), q, t)" "queue_rep q (skbs t) []"
      "pool_of t = (pool_of s) |` (- set xs)" "q_enabled q = q_enabled ?q" "netdevs t = netdevs s"
      "kmem.more t = kmem.more s" "lock_of t = lock_of ?s0" "calls_of t = calls_of s" by auto
  obtain fs where fs: "ktrace t = ktrace s @ Spin_lock_bh Queue_lock # fs" "set fs \<subseteq> range Kfree_skb"
    using flush_trace [OF t(1)] by (auto simp: acquire_lock_def)
  let ?w = "net_dev_update (vn_queue_update (\<lambda>_. q)) v"
  let ?u = "(release_lock Queue_lock t)\<lparr>gs_vnet := Some (a, ?w)\<rparr>"
  have g: "gs_vnet s = Some (a, v)" using I by (simp add: drv_core_def)
  have gt: "gs_vnet t = Some (a, v)" using drv_more_gs_vnet [OF t(6)] g by simp
  have "dom (skbs t) = {}" using t(3) I dom_pool_of [of t] dom_pool_of [of s] by (auto simp: drv_core_def)
  then have empty: "skbs t = Map.empty" by simp
  have "with_queue (\<lambda>q s. flush_loop 0 (q, s)) ?s0 = Some (of_nat (length xs), t\<lparr>gs_vnet := Some (a, ?w)\<rparr>)"
    using g t(1) gt by (intro with_queue_Some [THEN trans]) auto
  then have "close_flush s = Some (of_nat (length xs), ?u)"
    using g by (simp add: close_flush_def vnet_dev_def release_lock_def log_def)
  moreover have "up_of t = up_of s" using calls_of_cong [OF t(8)] by simp
  moreover have "going_down ?u a ?w []"
    using t(2,5,7) I empty calculation(2)
    by (intro going_down_queue [OF inv, of q]) (auto simp: lock_simps drv_core_def)
  moreover have "send_only (Spin_lock_bh Queue_lock # fs @ [Spin_unlock_bh Queue_lock])"
  proof -
    have "copied fs = []" using fs(2) by (induction fs) auto
    then show ?thesis using fs(2) by (auto simp: send_only_def)
  qed
  ultimately show ?thesis using empty t(4) fs(1)
    by (intro exI [of _ ?u] exI [of _ ?w] exI [of _ "Spin_lock_bh Queue_lock # fs @ [Spin_unlock_bh Queue_lock]"])
      (simp add: lock_simps release_lock_def)
qed

lemma close_count_down:
  assumes inv: "going_down s a v xs"
  shows "\<exists>t w. close_count n s = Some t \<and> going_down t a w xs \<and> up_of t = up_of s \<and>
    vn_stats (net_dev w) = (vn_stats (net_dev v))\<lparr>tx_dropped := tx_dropped (vn_stats (net_dev v)) + n\<rparr> \<and>
    q_enabled (vn_queue (net_dev w)) = q_enabled (vn_queue (net_dev v)) \<and> skbs t = skbs s \<and> ktrace t = ktrace s"
proof -
  let ?w = "net_dev_update (vn_stats_update (tx_dropped_update (\<lambda>k. k + n))) v"
  have g: "gs_vnet s = Some (a, v)" using inv by (simp add: going_down_def drv_core_def)
  have "going_down (s\<lparr>gs_vnet := Some (a, ?w)\<rparr>) a ?w xs"
    using inv dev_wf_cong [of s s ?w v] by (auto simp: going_down_def drv_core_def)
  with g show ?thesis by (intro exI [of _ "s\<lparr>gs_vnet := Some (a, ?w)\<rparr>"] exI [of _ ?w]) (simp add: close_count_def)
qed

lemma close_link_down:
  assumes inv: "going_down s a v []"
  shows "\<exists>t w. close_link dev s = Some t \<and> going_down t a w [] \<and> \<not> up_of t \<and>
    vn_stats (net_dev w) = vn_stats (net_dev v) \<and> skbs t = skbs s \<and>
    q_enabled (vn_queue (net_dev w)) = q_enabled (vn_queue (net_dev v)) \<and>
    ktrace t = ktrace s @ [Netif_stop_queue dev]"
proof -
  let ?w = "net_dev_update (vn_connected_update (\<lambda>_. 0)) v"
  let ?t = "(log (Netif_stop_queue dev) s)\<lparr>gs_vnet := Some (a, ?w)\<rparr>"
  have g: "gs_vnet s = Some (a, v)" using inv by (simp add: going_down_def drv_core_def)
  have "going_down ?t a ?w [] \<and> \<not> up_of ?t"
    using inv dev_wf_cong [of s s ?w v] by (auto simp: going_down_def drv_core_def lock_simps)
  with g show ?thesis by (intro exI [of _ ?t] exI [of _ ?w]) (simp add: close_link_def)
qed

section \<open>The read and the close together\<close>

datatype turn = Round | Stop

datatype close_pc = Close_disable | Close_flush | Close_count u32 | Close_link | Close_done

fun close_step :: "addr \<Rightarrow> close_pc \<Rightarrow> drv \<Rightarrow> (close_pc \<times> drv) option" where
  "close_step dev Close_disable s = do { s \<leftarrow> close_disable s; Some (Close_flush, s) }"
| "close_step dev Close_flush s = do { (n, s) \<leftarrow> close_flush s; Some (Close_count n, s) }"
| "close_step dev (Close_count n) s = do { s \<leftarrow> close_count n s; Some (Close_link, s) }"
| "close_step dev Close_link s = do { s \<leftarrow> close_link dev s; Some (Close_done, s) }"
| "close_step dev Close_done s = Some (Close_done, s)"

fun meanwhile :: "kernel \<Rightarrow> block \<Rightarrow> addr \<Rightarrow> turn list \<Rightarrow> reader \<Rightarrow> close_pc \<Rightarrow> drv \<Rightarrow>
    (reader \<times> close_pc \<times> drv) option" where
  "meanwhile K m dev [] rd pc s = Some (rd, pc, s)"
| "meanwhile K m dev (Round # cs) rd pc s = do {
     (rd, s) \<leftarrow> fetch_round K m rd s;
     meanwhile K m dev cs rd pc s }"
| "meanwhile K m dev (Stop # cs) rd pc s = do {
     (pc, s) \<leftarrow> close_step dev pc s;
     meanwhile K m dev cs rd pc s }"

text \<open>Each of the two alone is the code's own.\<close>

lemma meanwhile_close:
  "map_option (\<lambda>(rd, pc, s). (0, s)) (meanwhile K m dev [Stop, Stop, Stop, Stop] rd Close_disable s) =
     net_dev_close dev s"
  by (auto simp: net_dev_close_sections split: bind_splits option.splits)

lemma meanwhile_read:
  "map_option (\<lambda>(rd, pc, s). (rd, s)) (meanwhile K m dev (replicate n Round) rd pc s) =
     interleaved K m (replicate n Fetch) rd s"
proof (induction n arbitrary: rd s)
  case (Suc n)
  show ?case
  proof (cases "fetch_round K m rd s")
    case None
    then show ?thesis by simp
  next
    case (Some x)
    with Suc.IH [of "fst x" "snd x"] show ?thesis by (cases x) simp
  qed
qed simp

fun sections_left :: "close_pc \<Rightarrow> nat" where
  "sections_left Close_disable = 4"
| "sections_left Close_flush = 3"
| "sections_left (Close_count n) = 2"
| "sections_left Close_link = 1"
| "sections_left Close_done = 0"

fun uncounted :: "close_pc \<Rightarrow> u32" where
  "uncounted (Close_count n) = n"
| "uncounted _ = 0"

fun stops :: "turn list \<Rightarrow> nat" where
  "stops [] = 0"
| "stops (Round # cs) = stops cs"
| "stops (Stop # cs) = Suc (stops cs)"

fun rounds :: "turn list \<Rightarrow> nat" where
  "rounds [] = 0"
| "rounds (Round # cs) = Suc (rounds cs)"
| "rounds (Stop # cs) = rounds cs"

text \<open>The rounds before the \<open>n\<close>-th next section of the close; the flush is its second.\<close>

fun rounds_before :: "nat \<Rightarrow> turn list \<Rightarrow> nat" where
  "rounds_before n [] = 0"
| "rounds_before n (Round # cs) = Suc (rounds_before n cs)"
| "rounds_before 0 (Stop # cs) = 0"
| "rounds_before (Suc n) (Stop # cs) = rounds_before n cs"

lemma rounds_before_le: "rounds_before n cs \<le> rounds cs"
  by (induction n cs rule: rounds_before.induct) simp_all

definition at_close :: "close_pc \<Rightarrow> drv \<Rightarrow> vnet \<Rightarrow> addr list \<Rightarrow> bool" where
  "at_close pc s v xs \<longleftrightarrow>
     (sections_left pc < 4 \<longrightarrow> q_enabled (vn_queue (net_dev v)) = 0) \<and>
     (sections_left pc < 3 \<longrightarrow> xs = []) \<and> (sections_left pc = 0 \<longrightarrow> \<not> up_of s)"

lemma close_step_down:
  assumes inv: "going_down s a v xs" and pc: "at_close pc s v xs" "sections_left pc \<noteq> 0"
  shows "\<exists>pc' t w ys fs. close_step dev pc s = Some (pc', t) \<and> going_down t a w ys \<and> at_close pc' t w ys \<and>
    sections_left pc = Suc (sections_left pc') \<and>
    ys = (if sections_left pc = 3 then [] else xs) \<and> frames t ys = frames s ys \<and>
    tx_dropped (vn_stats (net_dev w)) + uncounted pc' + of_nat (length ys) =
      tx_dropped (vn_stats (net_dev v)) + uncounted pc + of_nat (length xs) \<and>
    tx_packets (vn_stats (net_dev w)) = tx_packets (vn_stats (net_dev v)) \<and>
    ktrace t = ktrace s @ fs \<and> send_only fs"
proof (cases pc)
  case Close_disable
  from close_disable_down [OF inv] obtain t w where t:
    "close_disable s = Some t" "going_down t a w xs" "vn_stats (net_dev w) = vn_stats (net_dev v)"
    "q_enabled (vn_queue (net_dev w)) = 0" "skbs t = skbs s"
    "ktrace t = ktrace s @ [Spin_lock_bh Queue_lock, Spin_unlock_bh Queue_lock]" by blast
  moreover have "frames t xs = frames s xs" by (intro frames_cong) (simp add: pool_of_def t(5))
  ultimately show ?thesis using Close_disable
    by (intro exI [of _ Close_flush] exI [of _ t] exI [of _ w] exI [of _ xs]) (auto simp: at_close_def send_only_def)
next
  case Close_flush
  from close_flush_down [OF inv] obtain t w fs where
    "close_flush s = Some (of_nat (length xs), t)" "going_down t a w []"
    "vn_stats (net_dev w) = vn_stats (net_dev v)"
    "q_enabled (vn_queue (net_dev w)) = q_enabled (vn_queue (net_dev v))"
    "ktrace t = ktrace s @ fs" "send_only fs" by blast
  then show ?thesis using Close_flush pc
    by (intro exI [of _ "Close_count (of_nat (length xs))"] exI [of _ t] exI [of _ w] exI [of _ "[]"] exI [of _ fs])
      (simp add: at_close_def frames_def)
next
  case (Close_count n)
  with pc have xs: "xs = []" by (simp add: at_close_def)
  from close_count_down [OF inv, of n] obtain t w where
    "close_count n s = Some t" "going_down t a w xs"
    "vn_stats (net_dev w) = (vn_stats (net_dev v))\<lparr>tx_dropped := tx_dropped (vn_stats (net_dev v)) + n\<rparr>"
    "q_enabled (vn_queue (net_dev w)) = q_enabled (vn_queue (net_dev v))" "ktrace t = ktrace s" by blast
  then show ?thesis using Close_count pc xs
    by (intro exI [of _ Close_link] exI [of _ t] exI [of _ w] exI [of _ "[]"])
      (auto simp: at_close_def frames_def send_only_def)
next
  case Close_link
  with pc have xs: "xs = []" by (simp add: at_close_def)
  from close_link_down [of s a v dev] inv xs obtain t w where
    "close_link dev s = Some t" "going_down t a w []" "\<not> up_of t" "vn_stats (net_dev w) = vn_stats (net_dev v)"
    "q_enabled (vn_queue (net_dev w)) = q_enabled (vn_queue (net_dev v))"
    "ktrace t = ktrace s @ [Netif_stop_queue dev]" by blast
  then show ?thesis using Close_link pc xs
    by (intro exI [of _ Close_done] exI [of _ t] exI [of _ w] exI [of _ "[]"]
        exI [of _ "[Netif_stop_queue dev]"]) (simp add: at_close_def frames_def send_only_def)
qed (use pc in simp)

definition delivered :: "nat \<Rightarrow> turn list \<Rightarrow> close_pc \<Rightarrow> nat" where
  "delivered n cs pc = min n (rounds_before (sections_left pc - 3) cs)"

lemma delivered_simps [simp]:
  "delivered 0 cs pc = 0" "delivered n [] pc = 0"
  "delivered (Suc n) (Round # cs) pc = Suc (delivered n cs pc)"
  by (simp_all add: delivered_def)

text \<open>
  Before the remaining turns \<open>cs\<close>, with \<open>d\<close> packets still to be delivered; and what the turns lead to.
\<close>

definition turns_pre ::
    "kernel \<Rightarrow> block \<Rightarrow> (addr \<Rightarrow> u32) \<Rightarrow> turn list \<Rightarrow> close_pc \<Rightarrow> nat \<Rightarrow> bool \<Rightarrow> reader \<Rightarrow> addr list \<Rightarrow>
      drv \<Rightarrow> addr \<Rightarrow> vnet \<Rightarrow> addr list \<Rightarrow> nat \<Rightarrow> bool" where
  "turns_pre K m cap cs pc i live rd ps s a v xs d \<longleftrightarrow>
     going_down s a v xs \<and> at_close pc s v xs \<and> sections_left pc = stops cs \<and> reader_at i live rd \<and>
     (live \<or> xs = []) \<and> request_left K m cap i ps (ktrace s) \<and> (live \<longrightarrow> rounds cs \<le> length ps) \<and>
     d = delivered (length xs) cs pc"

definition turns_post ::
    "kernel \<Rightarrow> block \<Rightarrow> addr \<Rightarrow> (addr \<Rightarrow> u32) \<Rightarrow> turn list \<Rightarrow> close_pc \<Rightarrow> nat \<Rightarrow> bool \<Rightarrow> reader \<Rightarrow> addr list \<Rightarrow>
      drv \<Rightarrow> addr \<Rightarrow> vnet \<Rightarrow> addr list \<Rightarrow> nat \<Rightarrow> bool" where
  "turns_post K m dev cap cs pc i live rd ps s a v xs d \<longleftrightarrow>
     (\<exists>rd' s' w fs. meanwhile K m dev cs rd pc s = Some (rd', Close_done, s') \<and>
       reader_at (i + d) (live \<and> rounds cs \<le> d) rd' \<and> going_down s' a w [] \<and> at_close Close_done s' w [] \<and>
       tx_dropped (vn_stats (net_dev w)) =
         tx_dropped (vn_stats (net_dev v)) + uncounted pc + of_nat (length xs - d) \<and>
       tx_packets (vn_stats (net_dev w)) = tx_packets (vn_stats (net_dev v)) + of_nat d \<and>
       ktrace s' = ktrace s @ fs \<and>
       copied fs = map (\<lambda>(p, b). fitted cap p b) (zip ps (take d (frames s xs))))"

lemma turn_stop:
  assumes "turns_pre K m cap (Stop # cs) pc i live rd ps s a v xs d"
    and IH: "\<And>pc t w ys. turns_pre K m cap cs pc i live rd ps t a w ys d \<Longrightarrow>
      turns_post K m dev cap cs pc i live rd ps t a w ys d"
  shows "turns_post K m dev cap (Stop # cs) pc i live rd ps s a v xs d"
proof -
  have C: "going_down s a v xs" "at_close pc s v xs" "sections_left pc = Suc (stops cs)" "reader_at i live rd"
    "live \<or> xs = []" "request_left K m cap i ps (ktrace s)" "live \<longrightarrow> rounds cs \<le> length ps"
    "d = delivered (length xs) (Stop # cs) pc" using assms(1) by (simp_all add: turns_pre_def)
  then have "sections_left pc \<noteq> 0" by simp
  from close_step_down [OF C(1,2) this, of dev] obtain pc' t w ys fs where
    t: "close_step dev pc s = Some (pc', t)" "going_down t a w ys" "at_close pc' t w ys"
      "sections_left pc = Suc (sections_left pc')" "ys = (if sections_left pc = 3 then [] else xs)"
      "frames t ys = frames s ys"
      "tx_dropped (vn_stats (net_dev w)) + uncounted pc' + of_nat (length ys) =
        tx_dropped (vn_stats (net_dev v)) + uncounted pc + of_nat (length xs)"
      "tx_packets (vn_stats (net_dev w)) = tx_packets (vn_stats (net_dev v))"
      "ktrace t = ktrace s @ fs" "send_only fs" by blast
  have d: "d = delivered (length ys) cs pc'"
    by (cases pc) (use t(4,5) C(2,8) in \<open>simp_all add: delivered_def at_close_def\<close>)
  have le: "d \<le> length ys" "d \<le> length xs" using d C(8) by (simp_all add: delivered_def)
  have "request_left K m cap i ps (ktrace t)"
    unfolding t(9) by (rule request_left_append [OF C(6)]) (simp add: send_trace_copied [OF t(10)])
  then have "turns_pre K m cap cs pc' i live rd ps t a w ys d"
    using t(2-5) C(3,4,5,7) d by (auto simp: turns_pre_def)
  from IH [OF this, unfolded turns_post_def] obtain rd' s' w' gs where r:
    "meanwhile K m dev cs rd pc' t = Some (rd', Close_done, s')"
    "reader_at (i + d) (live \<and> rounds cs \<le> d) rd'" "going_down s' a w' []" "at_close Close_done s' w' []"
    "tx_dropped (vn_stats (net_dev w')) =
      tx_dropped (vn_stats (net_dev w)) + uncounted pc' + of_nat (length ys - d)"
    "tx_packets (vn_stats (net_dev w')) = tx_packets (vn_stats (net_dev w)) + of_nat d"
    "ktrace s' = ktrace t @ gs" "copied gs = map (\<lambda>(p, b). fitted cap p b) (zip ps (take d (frames t ys)))"
    by blast
  have "tx_dropped (vn_stats (net_dev w')) =
      tx_dropped (vn_stats (net_dev v)) + uncounted pc + of_nat (length xs - d)"
    using r(5) t(7) le by (simp add: of_nat_diff algebra_simps)
  moreover have "take d (frames t ys) = take d (frames s xs)"
    unfolding t(6) using t(5) le by (auto split: if_splits)
  ultimately show ?thesis using r t(1,8,9,10) unfolding turns_post_def
    by (intro exI [of _ rd'] exI [of _ s'] exI [of _ w'] exI [of _ "fs @ gs"]) (simp add: send_trace_copied)
qed

lemma turn_round:
  assumes "turns_pre K m cap (Round # cs) pc i True rd ps s a v xs d"
    and IH: "\<And>i live rd ps t w ys e. turns_pre K m cap cs pc i live rd ps t a w ys e \<Longrightarrow>
      turns_post K m dev cap cs pc i live rd ps t a w ys e"
  shows "turns_post K m dev cap (Round # cs) pc i True rd ps s a v xs d"
proof -
  let ?n = "length (take 1 xs)" and ?e = "delivered (length (drop (length (take 1 xs)) xs)) cs pc"
  have C: "going_down s a v xs" "at_close pc s v xs" "sections_left pc = stops cs" "reader_at i True rd"
    "request_left K m cap i ps (ktrace s)" "Suc (rounds cs) \<le> length ps"
    "d = delivered (length xs) (Round # cs) pc" using assms(1) by (simp_all add: turns_pre_def)
  then have ps: "ps \<noteq> []" by auto
  from fetch_step [OF C(1,4,5) ps refl] obtain rd' t w fs where
    t: "fetch_round K m rd s = Some (rd', t)" "reader_at (i + ?n) (xs \<noteq> []) rd'"
      "going_down t a w (drop ?n xs)" "up_of t = up_of s"
      "q_enabled (vn_queue (net_dev w)) = q_enabled (vn_queue (net_dev v))"
      "frames t (drop ?n xs) = drop ?n (frames s xs)"
      "tx_packets (vn_stats (net_dev w)) = tx_packets (vn_stats (net_dev v)) + of_nat ?n"
      "tx_dropped (vn_stats (net_dev w)) = tx_dropped (vn_stats (net_dev v))"
      "ktrace t = ktrace s @ fs" "request_left K m cap (i + ?n) (drop ?n ps) (ktrace t)"
      "copied fs = map (\<lambda>(p, b). fitted cap p b) (zip (take ?n ps) (take ?n (frames s xs)))" by blast
  have d: "d = ?n + ?e" using C(7) by (cases xs) simp_all
  have lv: "(xs \<noteq> [] \<and> rounds cs \<le> ?e) = (rounds (Round # cs) \<le> d)" using d by (cases xs) auto
  have "turns_pre K m cap cs pc (i + ?n) (xs \<noteq> []) rd' (drop ?n ps) t a w (drop ?n xs) ?e"
    using t(2-5,10) C(2,3,6) by (cases xs) (auto simp: turns_pre_def at_close_def)
  from IH [OF this, unfolded turns_post_def] obtain rd'' s' w' gs where r:
    "meanwhile K m dev cs rd' pc t = Some (rd'', Close_done, s')"
    "reader_at (i + ?n + ?e) (xs \<noteq> [] \<and> rounds cs \<le> ?e) rd''"
    "going_down s' a w' []" "at_close Close_done s' w' []"
    "tx_dropped (vn_stats (net_dev w')) =
      tx_dropped (vn_stats (net_dev w)) + uncounted pc + of_nat (length (drop ?n xs) - ?e)"
    "tx_packets (vn_stats (net_dev w')) = tx_packets (vn_stats (net_dev w)) + of_nat ?e"
    "ktrace s' = ktrace t @ gs"
    "copied gs = map (\<lambda>(p, b). fitted cap p b) (zip (drop ?n ps) (take ?e (frames t (drop ?n xs))))"
    by blast
  have F: "take d (frames s xs) = take ?n (frames s xs) @ take ?e (drop ?n (frames s xs))"
    "length (take ?n (frames s xs)) = ?n" unfolding d by (simp_all add: take_add frames_def)
  have N: "length (drop ?n xs) - ?e = length xs - d" unfolding d by simp
  have "copied (fs @ gs) = map (\<lambda>(p, b). fitted cap p b) (zip ps (take d (frames s xs)))"
    unfolding F(1) copied_simps(3) t(11) r(8) t(6) zip_append2 F(2) map_append ..
  moreover have "reader_at (i + d) (True \<and> rounds (Round # cs) \<le> d) rd''"
    using r(2) unfolding lv by (simp add: d add.assoc)
  moreover have "tx_packets (vn_stats (net_dev w')) = tx_packets (vn_stats (net_dev v)) + of_nat d"
    by (simp add: r(6) t(7) d)
  ultimately show ?thesis using r(1,3,4,5,7) t(1,8,9) unfolding N turns_post_def
    by (intro exI [of _ rd''] exI [of _ s'] exI [of _ w'] exI [of _ "fs @ gs"]) simp
qed

lemma meanwhile_run:
  "turns_pre K m cap cs pc i live rd ps s a v xs d \<Longrightarrow> turns_post K m dev cap cs pc i live rd ps s a v xs d"
proof (induction cs arbitrary: s v xs pc i live rd ps d)
  case Nil
  then have "pc = Close_done" by (cases pc) (simp_all add: turns_pre_def)
  with Nil show ?case by (auto simp: at_close_def turns_pre_def turns_post_def)
next
  case (Cons c cs)
  show ?case
  proof (cases c)
    case Stop
    show ?thesis unfolding Stop by (rule turn_stop [OF Cons.prems [unfolded Stop] Cons.IH])
  next
    case Round
    show ?thesis
    proof (cases live)
      case True
      then have live: "live = True" by simp
      show ?thesis unfolding Round live
        by (rule turn_round [OF Cons.prems [unfolded Round live] Cons.IH])
    next
      case False
      with Cons.prems Round have "turns_pre K m cap cs pc i live rd ps s a v xs d" "xs = []" "d = 0" "\<not> rd_live rd"
        by (auto simp: turns_pre_def reader_at_def)
      with Cons.IH False Round show ?thesis by (fastforce simp: turns_post_def fetch_idle)
    qed
  qed
qed

text \<open>
  (C10) Taking the interface down during a read loses nothing. However the sections of
  \<open>net_dev_close\<close> fall between the read's rounds, the packets that were taken before the flush are
  delivered in order, every other one is freed and counted in \<open>tx_dropped\<close>, the read returns
  the number delivered or \<open>EAGAIN\<close>, and the driver is left as after a close with nobody reading.
\<close>

theorem stop_during_read:
  assumes inv: "drv_inv s a v xs" and stop: "stops cs = 4" and n: "rounds cs \<le> length ptrs"
    and hdr: "\<And>i. i < length ptrs \<Longrightarrow> hdr_pkt m (int i) = Some (ptrs ! i)" and dist: "distinct ptrs"
    and user: "user_ok K (ktrace s) (set ptrs) cap" and d: "d = min (length xs) (rounds_before 1 cs)"
  shows "\<exists>rd s' w es.
    meanwhile K m dev cs \<lparr>rd_index = 0, rd_ret = 0, rd_live = True\<rparr> Close_disable s =
      Some (rd, Close_done, s') \<and>
    rd_live rd = (rounds cs \<le> d) \<and>
    rd_ret rd = (if \<not> rd_live rd \<and> d = 0 then - EAGAIN else int d) \<and>
    drv_inv s' a w [] \<and> skbs s' = Map.empty \<and> \<not> up_of s' \<and>
    tx_packets (vn_stats (net_dev w)) = tx_packets (vn_stats (net_dev v)) + of_nat d \<and>
    tx_dropped (vn_stats (net_dev w)) = tx_dropped (vn_stats (net_dev v)) + of_nat (length xs - d) \<and>
    ktrace s' = ktrace s @ es \<and>
    copied es = map (\<lambda>(p, b). fitted cap p b) (zip ptrs (take d (frames s xs)))"
proof -
  have D: "d = delivered (length xs) cs Close_disable" by (simp add: d delivered_def)
  have A: "at_close Close_disable s v xs" "sections_left Close_disable = stops cs"
    by (simp_all add: at_close_def stop)
  have R: "reader_at 0 True \<lparr>rd_index = 0, rd_ret = 0, rd_live = True\<rparr>" "True \<or> xs = []"
      "True \<longrightarrow> rounds cs \<le> length ptrs" "request_left K m cap 0 ptrs (ktrace s)"
    using n hdr dist user by (simp_all add: reader_at_def so_far_def request_left_def)
  have "turns_pre K m cap cs Close_disable 0 True \<lparr>rd_index = 0, rd_ret = 0, rd_live = True\<rparr> ptrs s a v xs d"
    using drv_inv_going_down [OF inv] A R D by (simp add: turns_pre_def)
  from meanwhile_run [OF this, of dev] obtain rd s' w es where
    r: "meanwhile K m dev cs \<lparr>rd_index = 0, rd_ret = 0, rd_live = True\<rparr> Close_disable s = Some (rd, Close_done, s')"
      "reader_at d (rounds cs \<le> d) rd" "going_down s' a w []" "at_close Close_done s' w []"
      "tx_dropped (vn_stats (net_dev w)) = tx_dropped (vn_stats (net_dev v)) + of_nat (length xs - d)"
      "tx_packets (vn_stats (net_dev w)) = tx_packets (vn_stats (net_dev v)) + of_nat d"
      "ktrace s' = ktrace s @ es"
      "copied es = map (\<lambda>(p, b). fitted cap p b) (zip ptrs (take d (frames s xs)))" by (auto simp: turns_post_def)
  have ok: "drv_inv s' a w []" "\<not> up_of s'"
    using r(3,4) going_down_inv by (simp_all add: at_close_def)
  then have "skbs s' = Map.empty" by (simp add: drv_inv_def drv_core_def)
  with r ok show ?thesis by (auto simp: reader_at_def so_far_def)
qed

end
