(* ===== verification/Blocking_Read.thy ===== *)
theory Blocking_Read
  imports Stack
begin

text \<open>
  The build with \<open>USE_BLOCKING_READ\<close>, which \<open>hdrs.h\<close> leaves commented out: \<open>io_read_to_iovec\<close>
  waits for the first packet itself, in the wait queue of the device, and there is no \<open>poll\<close>.
  While the process is away others use the driver. What the kernel does to the state of the
  process when it allocates or copies is not looked at.
\<close>

abbreviation (input) ERESTARTSYS :: int where "ERESTARTSYS \<equiv> 512"

section \<open>Waiting\<close>

text \<open>
  The process: whether its entry, a local variable of the read, is in the wait queue, and whether
  its state is \<open>TASK_INTERRUPTIBLE\<close>. A return of \<open>schedule\<close> leaves it running. A process in that
  state is back when it has been woken or has a signal; a running one at any time.
\<close>

record task =
  t_waiting :: bool
  t_sleeping :: bool

text \<open>What others do with the driver during one \<open>schedule\<close>, and whether a signal is pending then.\<close>

record nap =
  nap_calls :: "entry list"
  nap_signal :: bool

definition others :: "kernel \<Rightarrow> nap \<Rightarrow> drv \<Rightarrow> drv" where
  "others K n = fold (\<lambda>e s. snd (enter K e s)) (nap_calls n)"

text \<open>The read is over, or it is away when all naps of the history are used up.\<close>

datatype outcome = Returned int | Away

fun blocking_loop :: "kernel \<Rightarrow> block \<Rightarrow> nap list \<Rightarrow> nat list \<Rightarrow> int \<Rightarrow> task \<Rightarrow> drv \<Rightarrow>
    (outcome \<times> task \<times> drv) option" where
  "blocking_loop K m ns [] ret b s = Some (Returned ret, b, s)"
| "blocking_loop K m ns (i # js) ret b s = do {
     (skb, s) \<leftarrow> with_queue queue_remove s;
     if \<not> IS_PTR_VALID skb then
       (if ret = 0 then
          (case ns of
             [] \<Rightarrow> Some (Away, b, s)
           | n # ns \<Rightarrow>
               if nap_signal n then Some (Returned (- ERESTARTSYS), b\<lparr>t_sleeping := False\<rparr>, others K n s)
               else blocking_loop K m ns (i # js) ret (b\<lparr>t_sleeping := False\<rparr>) (others K n s))
        else Some (Returned ret, b, s))
     else do {
       pkt \<leftarrow> hdr_pkt m (int i);
       (r, s) \<leftarrow> io_read_fill_network_packet K pkt skb s;
       if r \<noteq> 0 then do { s \<leftarrow> kfree_skb skb s; Some (Returned (- EFAULT), b, s) }
       else do { s \<leftarrow> kfree_skb skb s; blocking_loop K m ns js (ret + 1) b s } } }"

declare blocking_loop.simps(2) [simp del]

definition blocking_read :: "kernel \<Rightarrow> u64 \<Rightarrow> nap list \<Rightarrow> drv \<Rightarrow> (outcome \<times> task \<times> drv) option" where
  "blocking_read K len ns s =
     (if len < sizeof_kvnet_header
      then Some (Returned (- EINVAL), \<lparr>t_waiting = False, t_sleeping = False\<rparr>, s)
      else do {
        let b = \<lparr>t_waiting = True, t_sleeping = True\<rparr>;
        (r, s) \<leftarrow> fetch_header K len s;
        (case r of
           Inl e \<Rightarrow> Some (Returned e, b, s)
         | Inr (hdr, count) \<Rightarrow> do {
             (out, b, s) \<leftarrow> blocking_loop K (kb_mem hdr) ns [0..<unat count] 0 b s;
             (case out of
                Away \<Rightarrow> Some (Away, b, s)
              | Returned ret \<Rightarrow> do {
                  v \<leftarrow> vnet_dev s;
                  s \<leftarrow> netif_wake_queue (vn_device (net_dev v)) s;
                  (r, s) \<leftarrow> return_count K hdr ret s;
                  Some (Returned r, \<lparr>t_waiting = False, t_sleeping = False\<rparr>, s) }) }) })"

section \<open>The first packet\<close>

text \<open>The queue is looked at and found empty.\<close>

definition tried :: "drv \<Rightarrow> drv" where
  "tried s = release_lock Queue_lock (acquire_lock Queue_lock s)"

definition no_packet :: "drv \<Rightarrow> bool" where
  "no_packet s \<longleftrightarrow> (case vnet_dev s of None \<Rightarrow> False | Some v \<Rightarrow> \<not> IS_PTR_VALID (q_head (vn_queue (net_dev v))))"

lemma tried_fields [simp]:
  "gs_vnet (tried s) = gs_vnet s" "vnet_dev (tried s) = vnet_dev s" "no_packet (tried s) = no_packet s"
  by (simp_all add: tried_def no_packet_def vnet_dev_def)

lemma take_no_packet:
  assumes "no_packet s"
  shows "with_queue queue_remove s = Some (NULL, tried s)"
proof -
  obtain a v where g: "gs_vnet s = Some (a, v)" "\<not> IS_PTR_VALID (q_head (vn_queue (net_dev v)))"
    using assms by (auto simp: no_packet_def vnet_dev_def split: option.splits)
  then have "gs_vnet (tried s) = Some (a, v)" by simp
  moreover have "(tried s)\<lparr>gs_vnet := gs_vnet (tried s)\<rparr> = tried s" by simp
  ultimately show ?thesis using g
    by (simp add: with_queue_def vnet_dev_def queue_remove_raw raw_queue_remove_def tried_def)
qed

text \<open>Naps through which the queue stays empty and no signal comes; the state after them.\<close>

fun idle_naps :: "kernel \<Rightarrow> nap list \<Rightarrow> drv \<Rightarrow> drv option" where
  "idle_naps K [] s = Some s"
| "idle_naps K (n # ns) s =
     (if no_packet s \<and> \<not> nap_signal n then idle_naps K ns (others K n (tried s)) else None)"

lemma blocking_loop_idle:
  assumes "idle_naps K ns s = Some t"
  shows "blocking_loop K m (ns @ ms) (i # js) 0 b s =
    blocking_loop K m ms (i # js) 0 (if ns = [] then b else b\<lparr>t_sleeping := False\<rparr>) t"
  using assms
proof (induction ns arbitrary: s b)
  case (Cons n ns)
  then have "no_packet s" "\<not> nap_signal n" "idle_naps K ns (others K n (tried s)) = Some t"
    by (simp_all split: if_splits)
  then show ?case
    using Cons.IH [of "others K n (tried s)" "b\<lparr>t_sleeping := False\<rparr>"]
    by (simp add: blocking_loop.simps(2) [of K m "n # ns @ ms"] take_no_packet IS_PTR_VALID_def)
qed simp

text \<open>From the first packet on nobody waits any more, and the loop is the one of the other build.\<close>

lemma blocking_loop_going:
  assumes "0 < ret"
  shows "blocking_loop K m ns js ret b s =
    map_option (\<lambda>(r, t). (Returned r, b, t)) (io_read_loop K m js ret s)"
  using assms
proof (induction js arbitrary: ret s)
  case (Cons i js)
  then show ?case by (auto simp: blocking_loop.simps(2) split: bind_splits option.splits)
qed simp

lemma take_packet_there:
  assumes "vnet_dev s \<noteq> None" and "\<not> no_packet s" and "with_queue queue_remove s = Some (x, t)"
  shows "IS_PTR_VALID x"
  using assms by (auto simp: no_packet_def vnet_dev_def with_queue_def queue_remove_raw
      raw_queue_remove_def acquire_lock_def Let_def split: bind_splits if_splits option.splits)

text \<open>
  (C26) The blocking read waits and then reads: through any naps in which no packet comes and no
  signal is pending it goes on waiting; when it finds a packet, it does what the read of the
  other build does in that state.
\<close>

theorem blocking_read_waits:
  assumes idle: "idle_naps K ns s = Some t" and there: "vnet_dev t \<noteq> None" "\<not> no_packet t" and js: "js \<noteq> []"
  shows "blocking_loop K m (ns @ ms) js 0 b s =
    map_option (\<lambda>(r, u). (Returned r, if ns = [] then b else b\<lparr>t_sleeping := False\<rparr>, u)) (io_read_loop K m js 0 t)"
proof -
  obtain i ks where js': "js = i # ks" using js by (cases js) simp
  let ?b = "if ns = [] then b else b\<lparr>t_sleeping := False\<rparr>"
  have "blocking_loop K m ms (i # ks) 0 ?b t =
      map_option (\<lambda>(r, u). (Returned r, ?b, u)) (io_read_loop K m (i # ks) 0 t)"
    using take_packet_there [OF there]
    by (auto simp: blocking_loop.simps(2) blocking_loop_going split: bind_splits option.splits)
  then show ?thesis by (simp add: js' blocking_loop_idle [OF idle])
qed

section \<open>Ways in which it goes wrong\<close>

text \<open>
  An error after the process has joined the wait queue returns without leaving it: the entry
  is on the stack of the read, and the next wake-up uses it.
\<close>

lemma blocking_read_leaves_entry:
  assumes "blocking_read K len ns s = Some (Returned r, b, u)"
  shows "t_waiting b \<longleftrightarrow> sizeof_kvnet_header \<le> len \<and> (\<exists>e t. fetch_header K len s = Some (Inl e, t))"
  using assms
  by (auto simp: blocking_read_def Let_def split: if_splits bind_splits sum.splits outcome.splits)

lemma idle_replicate:
  "no_packet s \<Longrightarrow> \<exists>t. idle_naps K (replicate k \<lparr>nap_calls = [], nap_signal = False\<rparr>) s = Some t \<and>
     gs_vnet t = gs_vnet s"
proof (induction k arbitrary: s)
  case (Suc k)
  from Suc.IH [of "tried s"] Suc.prems show ?case by (simp add: others_def)
qed simp

text \<open>
  (C27) Cancelling does not end a blocking read. With the file open and nothing queued, the
  \<open>ioctl\<close> wakes the reader, which does not look at \<open>canceled\<close>; and as it does not set its state
  again, it no longer sleeps in \<open>schedule\<close> either but goes round for ever, until a packet or a
  signal comes.
\<close>

theorem blocking_read_ignores_cancel:
  assumes run: "running s a v []" and op: "io_opened (io_dev v) \<noteq> 0" and req: "good_header K s len ptrs rest"
  shows "\<exists>t. blocking_read K len
      (\<lparr>nap_calls = [Ioctl_file KVNET_IOCTL_CANCEL_PENDING_READ arg], nap_signal = False\<rparr> #
       replicate k \<lparr>nap_calls = [], nap_signal = False\<rparr>) s =
        Some (Away, \<lparr>t_waiting = True, t_sleeping = False\<rparr>, t) \<and> gs_vnet t = Some (a, cancel_vnet v)"
proof -
  let ?e = "Ioctl_file KVNET_IOCTL_CANCEL_PENDING_READ arg"
  have g: "gs_vnet s = Some (a, v)" and q: "q_head (vn_queue (net_dev v)) = NULL"
    using running_facts(1) [OF run] by (auto simp: inv_defs queue_rep_def)
  from fetch_header_ok [OF req] obtain hdr s1 where
    s1: "fetch_header K len s = Some (Inr (hdr, of_nat (length ptrs)), s1)"
      "unat (of_nat (length ptrs) :: u32) = length ptrs" "gs_vnet s1 = gs_vnet s" by auto
  have ptrs: "ptrs \<noteq> []" and len: "\<not> len < sizeof_kvnet_header"
    using req by (auto simp: good_header_def word_less_nat_alt sizeof_kvnet_header_def Let_def)
  obtain js where js: "[0..<length ptrs] = 0 # js" using ptrs by (cases ptrs) (simp_all add: upt_conv_Cons del: upt_Suc)
  have n1: "no_packet s1" using g q s1(3) by (simp add: no_packet_def vnet_dev_def IS_PTR_VALID_def)
  define s2 where "s2 = snd (enter K ?e (tried s1))"
  have g1: "gs_vnet (tried s1) = Some (a, v)" using g s1(3) by simp
  then have "may_call K (tried s1) ?e" using op by (simp add: is_loaded_def file_is_open_def vnet_dev_def)
  then have s2: "s2 = log Wake_up_interruptible ((tried s1)\<lparr>gs_vnet := Some (a, cancel_vnet v)\<rparr>)"
    using g1 by (simp add: s2_def enter_def io_dev_ioctl_def io_dev_wakeup_def cancel_vnet_def)
  have n2: "no_packet s2" using q by (simp add: s2 no_packet_def vnet_dev_def cancel_vnet_def IS_PTR_VALID_def)
  let ?ns = "\<lparr>nap_calls = [?e], nap_signal = False\<rparr> # replicate k \<lparr>nap_calls = [], nap_signal = False\<rparr>"
  from idle_replicate [OF n2, of K k] obtain t where
    t: "idle_naps K (replicate k \<lparr>nap_calls = [], nap_signal = False\<rparr>) s2 = Some t" "gs_vnet t = gs_vnet s2" by blast
  then have idle: "idle_naps K ?ns s1 = Some t" using n1 by (simp add: others_def s2_def)
  have nt: "no_packet t" using n2 t(2) by (simp add: no_packet_def vnet_dev_def)
  have "blocking_loop K (kb_mem hdr) (?ns @ []) (0 # js) 0 \<lparr>t_waiting = True, t_sleeping = True\<rparr> s1 =
      Some (Away, \<lparr>t_waiting = True, t_sleeping = False\<rparr>, tried t)"
    unfolding blocking_loop_idle [OF idle]
    by (simp add: blocking_loop.simps(2) take_no_packet [OF nt] IS_PTR_VALID_def)
  then show ?thesis using len s1 js t(2)
    by (intro exI [of _ "tried t"]) (simp add: blocking_read_def s2)
qed

end
