(* ===== verification/Readers.thy ===== *)
theory Readers
  imports Traffic
begin

text \<open>
  Several reads of one file at the same time, on different processors: nothing in \<open>io_dev.c\<close> keeps
  two threads out of \<open>io_read_to_iovec\<close>. The loop is cut at every access to the object: taking a
  packet is one section, as it is under the queue's lock, and each counter is loaded and stored.
  However the sections of any number of reads interleave, no packet is lost, delivered twice or
  freed twice; the counters, which are incremented without a lock, can miss packets.
\<close>

section \<open>The sections of a round\<close>

text \<open>The part of \<open>io_read_fill_network_packet\<close> before the counters: the length, or an error.\<close>

definition fill_copy :: "kernel \<Rightarrow> addr \<Rightarrow> addr \<Rightarrow> drv \<Rightarrow> (u32 option \<times> drv) option" where
  "fill_copy K pkt skb s =
     (let r = k_get_user K (ktrace s) (pkt_data_len pkt);
          s = log (Get_user (pkt_data_len pkt) r) s in
      case r of
        None \<Rightarrow> Some (None, s)
      | Some dlen \<Rightarrow> do {
          b \<leftarrow> skb_at skb s;
          let len = min (skb_len b) dlen;
          bs \<leftarrow> (if unat len \<le> length (skb_data b) then Some (take (unat len) (skb_data b)) else None);
          let left = k_copy_to_user K (ktrace s) (pkt_data pkt) bs;
          let s = log (Copy_to_user (pkt_data pkt) bs left) s;
          Some (if left \<noteq> 0 then None else Some len, s) })"

definition load_stats :: "drv \<Rightarrow> u32 net_stats option" where
  "load_stats s = do { v \<leftarrow> vnet_dev s; Some (vn_stats (net_dev v)) }"

definition store_packets :: "u32 \<Rightarrow> drv \<Rightarrow> drv option" where
  "store_packets n s = vnet_upd (net_dev_update (vn_stats_update (tx_packets_update (\<lambda>_. n)))) s"

definition store_bytes :: "u32 \<Rightarrow> drv \<Rightarrow> drv option" where
  "store_bytes n s = vnet_upd (net_dev_update (vn_stats_update (tx_bytes_update (\<lambda>_. n)))) s"

definition fill_put :: "kernel \<Rightarrow> addr \<Rightarrow> u32 \<Rightarrow> drv \<Rightarrow> int \<times> drv" where
  "fill_put K pkt len s =
     (let ok = k_put_user K (ktrace s) (pkt_data_len pkt) len
      in (if ok then 0 else - EFAULT, log (Put_user (pkt_data_len pkt) len ok) s))"

text \<open>In a row they are the function.\<close>

lemma fill_sections:
  "io_read_fill_network_packet K pkt skb s = do {
     (r, s) \<leftarrow> fill_copy K pkt skb s;
     (case r of
        None \<Rightarrow> Some (- EFAULT, s)
      | Some len \<Rightarrow> do {
          st \<leftarrow> load_stats s;
          s \<leftarrow> store_packets (tx_packets st + 1) s;
          st \<leftarrow> load_stats s;
          s \<leftarrow> store_bytes (tx_bytes st + len) s;
          Some (fill_put K pkt len s) }) }"
  by (auto simp: io_read_fill_network_packet_def fill_copy_def load_stats_def store_packets_def store_bytes_def
      fill_put_def vnet_upd_def vnet_dev_def Let_def count_tx_def split: option.splits bind_splits)

section \<open>Readers\<close>

text \<open>
  Where a read is in its loop, with its local variables, and the packet it has in hand. \<open>r_taken\<close> is
  not in the code: it remembers the packets that the read has taken so far.
\<close>

datatype rpc =
    R_take
  | R_fill addr
  | R_packets addr u32
  | R_packets_store addr u32 u32
  | R_bytes addr u32
  | R_bytes_store addr u32 u32
  | R_put addr u32
  | R_free addr int
  | R_done

record reading =
  r_pc :: rpc
  r_index :: nat
  r_ret :: int
  r_taken :: "addr list"

fun in_hand :: "rpc \<Rightarrow> addr set" where
  "in_hand R_take = {}"
| "in_hand (R_fill x) = {x}"
| "in_hand (R_packets x len) = {x}"
| "in_hand (R_packets_store x len n) = {x}"
| "in_hand (R_bytes x len) = {x}"
| "in_hand (R_bytes_store x len n) = {x}"
| "in_hand (R_put x len) = {x}"
| "in_hand (R_free x r) = {x}"
| "in_hand R_done = {}"

text \<open>One section of the loop over a header \<open>m\<close> with \<open>n\<close> pointers.\<close>

definition read_section :: "kernel \<Rightarrow> block \<Rightarrow> nat \<Rightarrow> reading \<Rightarrow> drv \<Rightarrow> (reading \<times> drv) option" where
  "read_section K m n rd s =
     (case r_pc rd of
        R_take \<Rightarrow>
          if n \<le> r_index rd then Some (rd\<lparr>r_pc := R_done\<rparr>, s)
          else do {
            (skb, s) \<leftarrow> with_queue queue_remove s;
            Some (if \<not> IS_PTR_VALID skb
                  then rd\<lparr>r_pc := R_done, r_ret := if r_ret rd = 0 then - EAGAIN else r_ret rd\<rparr>
                  else rd\<lparr>r_pc := R_fill skb, r_taken := r_taken rd @ [skb]\<rparr>, s) }
      | R_fill x \<Rightarrow> do {
          pkt \<leftarrow> hdr_pkt m (int (r_index rd));
          (r, s) \<leftarrow> fill_copy K pkt x s;
          Some (rd\<lparr>r_pc := case r of None \<Rightarrow> R_free x (- EFAULT) | Some len \<Rightarrow> R_packets x len\<rparr>, s) }
      | R_packets x len \<Rightarrow> do {
          st \<leftarrow> load_stats s;
          Some (rd\<lparr>r_pc := R_packets_store x len (tx_packets st + 1)\<rparr>, s) }
      | R_packets_store x len n \<Rightarrow> do {
          s \<leftarrow> store_packets n s;
          Some (rd\<lparr>r_pc := R_bytes x len\<rparr>, s) }
      | R_bytes x len \<Rightarrow> do {
          st \<leftarrow> load_stats s;
          Some (rd\<lparr>r_pc := R_bytes_store x len (tx_bytes st + len)\<rparr>, s) }
      | R_bytes_store x len n \<Rightarrow> do {
          s \<leftarrow> store_bytes n s;
          Some (rd\<lparr>r_pc := R_put x len\<rparr>, s) }
      | R_put x len \<Rightarrow> do {
          pkt \<leftarrow> hdr_pkt m (int (r_index rd));
          let (r, s) = fill_put K pkt len s;
          Some (rd\<lparr>r_pc := R_free x r\<rparr>, s) }
      | R_free x r \<Rightarrow> do {
          s \<leftarrow> kfree_skb x s;
          Some (if r \<noteq> 0 then rd\<lparr>r_pc := R_done, r_ret := - EFAULT\<rparr>
                else rd\<lparr>r_pc := R_take, r_index := r_index rd + 1, r_ret := r_ret rd + 1\<rparr>, s) }
      | R_done \<Rightarrow> Some (rd, s))"

fun sections :: "kernel \<Rightarrow> block \<Rightarrow> nat \<Rightarrow> nat \<Rightarrow> reading \<Rightarrow> drv \<Rightarrow> (reading \<times> drv) option" where
  "sections K m n 0 rd s = Some (rd, s)"
| "sections K m n (Suc k) rd s = do { (rd, s) \<leftarrow> read_section K m n rd s; sections K m n k rd s }"

text \<open>A read that is left alone does what \<open>io_read_loop\<close> does.\<close>

lemma sections_add:
  "sections K m n (j + k) rd s = do { (rd, s) \<leftarrow> sections K m n j rd s; sections K m n k rd s }"
  by (induction j arbitrary: rd s) (auto split: bind_splits)

lemma fill_alone:
  assumes "io_read_fill_network_packet K pkt x s = Some (r, t)" and "hdr_pkt m (int i) = Some pkt"
  shows "\<exists>k. sections K m n k \<lparr>r_pc = R_fill x, r_index = i, r_ret = ret, r_taken = xs\<rparr> s =
    Some (\<lparr>r_pc = R_free x r, r_index = i, r_ret = ret, r_taken = xs\<rparr>, t)"
proof -
  from assms(1) obtain c s1 where c: "fill_copy K pkt x s = Some (c, s1)"
    by (auto simp: fill_sections split: bind_splits)
  show ?thesis
  proof (cases c)
    case None
    with c assms show ?thesis
      by (intro exI [of _ "Suc 0"]) (simp add: fill_sections read_section_def)
  next
    case (Some len)
    with c assms show ?thesis
      by (intro exI [of _ "Suc (Suc (Suc (Suc (Suc (Suc 0)))))"])
        (auto simp: fill_sections read_section_def split: bind_splits)
  qed
qed

lemma sections_alone:
  "io_read_loop K m [i..<n] ret s = Some (r, t) \<Longrightarrow>
   \<exists>k rd. sections K m n k \<lparr>r_pc = R_take, r_index = i, r_ret = ret, r_taken = xs\<rparr> s = Some (rd, t) \<and>
     r_pc rd = R_done \<and> r_ret rd = r"
proof (induction "n - i" arbitrary: i ret xs s)
  case 0
  then show ?case by (intro exI [of _ "Suc 0"]) (simp add: read_section_def)
next
  case (Suc d)
  then have i: "i < n" "[i..<n] = i # [Suc i..<n]" "d = n - Suc i" by (simp_all add: upt_conv_Cons)
  from Suc.prems i(2) obtain x s1 where x: "with_queue queue_remove s = Some (x, s1)"
    by (auto split: bind_splits)
  let ?rd = "\<lambda>pc ys. \<lparr>r_pc = pc, r_index = i, r_ret = ret, r_taken = ys\<rparr>"
  show ?case
  proof (cases "IS_PTR_VALID x")
    case False
    with x i Suc.prems show ?thesis by (intro exI [of _ "Suc 0"]) (auto simp: read_section_def)
  next
    case True
    with x i(2) Suc.prems obtain pkt q s2 s3 where
      f: "hdr_pkt m (int i) = Some pkt" "io_read_fill_network_packet K pkt x s1 = Some (q, s2)"
        "kfree_skb x s2 = Some s3"
        "if q \<noteq> 0 then r = - EFAULT \<and> t = s3 else io_read_loop K m [Suc i..<n] (ret + 1) s3 = Some (r, t)"
      by (auto split: bind_splits if_splits)
    let ?ys = "xs @ [x]"
    from fill_alone [OF f(2,1)] obtain k where
      k: "sections K m n k (?rd (R_fill x) ?ys) s1 = Some (?rd (R_free x q) ?ys, s2)" by blast
    have "read_section K m n (?rd R_take xs) s = Some (?rd (R_fill x) ?ys, s1)"
      using x True i(1) by (simp add: read_section_def)
    then have start: "sections K m n (Suc (k + j)) (?rd R_take xs) s = sections K m n j (?rd (R_free x q) ?ys) s2" for j
      using k by (simp add: sections_add)
    show ?thesis
    proof (cases "q = 0")
      case False
      with f(3,4) start [of 1] show ?thesis
        by (intro exI [of _ "Suc (k + 1)"]) (simp add: read_section_def)
    next
      case True
      with f(4) Suc.hyps(1) [OF i(3), of "ret + 1" s3 ?ys] obtain j rd where
        j: "sections K m n j \<lparr>r_pc = R_take, r_index = Suc i, r_ret = ret + 1, r_taken = ?ys\<rparr> s3 = Some (rd, t)"
          "r_pc rd = R_done" "r_ret rd = r" by auto
      with f(3) True start [of "Suc j"] show ?thesis
        by (intro exI [of _ "Suc (k + Suc j)"]) (simp add: read_section_def)
    qed
  qed
qed

section \<open>Packets in the hands of readers\<close>

text \<open>
  \<open>own s a v H ys\<close>: \<open>ys\<close> is queued, the packets of \<open>H\<close> are in the hands of readers, and without
  them the state is the invariant's.
\<close>

definition own :: "drv \<Rightarrow> addr \<Rightarrow> vnet \<Rightarrow> addr set \<Rightarrow> addr list \<Rightarrow> bool" where
  "own s a v H ys \<longleftrightarrow> NULL \<notin> H \<and> H \<subseteq> dom (skbs s) \<and> heap_linear (skbs s) \<and> H \<inter> set ys = {} \<and>
     drv_inv (s\<lparr>skbs := (skbs s) |` (- H)\<rparr>) a v ys"

lemma chain_cong: "\<forall>y \<in> set xs. h y = h' y \<Longrightarrow> chain h p xs = chain h' p xs"
  by (induction xs arbitrary: p) (auto split: option.splits)

lemma queue_rep_restrict: "H \<inter> set xs = {} \<Longrightarrow> queue_rep q (h |` (- H)) xs = queue_rep q h xs"
  unfolding queue_rep_def by (subst chain_cong [of xs _ h]) (auto simp: restrict_map_def)

lemma own_none: "own s a v {} ys = drv_inv s a v ys"
  by (auto simp: own_def inv_defs restrict_map_def)

lemma own_facts:
  assumes "own s a v H ys"
  shows "gs_vnet s = Some (a, v)" "lock_of s = Some False" "queue_rep (vn_queue (net_dev v)) (skbs s) ys"
    "dom (skbs s) = set ys \<union> H" "vnet_dev s = Some v"
proof -
  have u: "lock_of (s\<lparr>skbs := h\<rparr>) = lock_of s" for h by (simp add: lock_of_def)
  show "gs_vnet s = Some (a, v)" "lock_of s = Some False" using assms u by (simp_all add: own_def inv_defs)
  then show "vnet_dev s = Some v" by simp
  show "queue_rep (vn_queue (net_dev v)) (skbs s) ys"
    using assms queue_rep_restrict [of H ys] by (simp add: own_def inv_defs)
  have "dom ((skbs s) |` (- H)) = set ys" using assms by (simp add: own_def inv_defs)
  with assms show "dom (skbs s) = set ys \<union> H" by (auto simp: own_def)
qed

lemma own_log:
  assumes "own s a v H ys" and "lock_step e False = Some False" and "\<And>u. up_step e u = u"
  shows "own (log e s) a v H ys"
proof -
  have eq: "(log e s)\<lparr>skbs := h\<rparr> = log e (s\<lparr>skbs := h\<rparr>)" for h by (simp add: log_def)
  from assms have "drv_inv (log e (s\<lparr>skbs := (skbs s) |` (- H)\<rparr>)) a v ys"
    by (intro drv_inv_log) (simp_all add: own_def inv_defs lock_simps)
  with assms(1) show ?thesis by (simp add: own_def eq)
qed

lemma own_stats:
  "own s a v H ys \<Longrightarrow> own (s\<lparr>gs_vnet := Some (a, net_dev_update (vn_stats_update f) v)\<rparr>) a
     (net_dev_update (vn_stats_update f) v) H ys"
  by (auto simp: own_def inv_defs)

lemma own_free:
  assumes o: "own s a v H ys" and x: "x \<in> H"
  shows "\<exists>t. kfree_skb x s = Some t \<and> own t a v (H - {x}) ys \<and> ktrace t = ktrace s @ [Kfree_skb x]"
proof -
  from o x obtain b where b: "x \<noteq> NULL" "skbs s x = Some b" by (auto simp: own_def)
  let ?u = "s\<lparr>skbs := (skbs s)(x := None)\<rparr>"
  have "((skbs s)(x := None)) |` (- (H - {x})) = (skbs s) |` (- H)"
    using x by (auto simp: restrict_map_def fun_eq_iff)
  then have "own ?u a v (H - {x}) ys" using o by (auto simp: own_def heap_linear_def)
  then have "own (log (Kfree_skb x) ?u) a v (H - {x}) ys" by (rule own_log) simp_all
  with b show ?thesis by simp
qed

text \<open>Taking a packet hands it over from the queue to the reader.\<close>

lemma own_take:
  assumes o: "own s a v H (x # ys)"
  shows "\<exists>t w. with_queue queue_remove s = Some (x, t) \<and> x \<noteq> NULL \<and> x \<notin> H \<and> own t a w (insert x H) ys \<and>
    ktrace t = ktrace s @ [Spin_lock_bh Queue_lock, Spin_unlock_bh Queue_lock]"
proof -
  note F = own_facts [OF o]
  let ?s0 = "acquire_lock Queue_lock s"
  have "queue_rep (vn_queue (net_dev v)) (skbs ?s0) (x # ys)" using F(3) by simp
  from raw_queue_remove_cons [OF this] obtain q h where
    q: "raw_queue_remove (vn_queue (net_dev v)) ?s0 = Some (x, q, ?s0\<lparr>skbs := h\<rparr>)" "queue_rep q h ys"
      "q_enabled q = q_enabled (vn_queue (net_dev v))" "pool_of (?s0\<lparr>skbs := h\<rparr>) = pool_of s" by auto
  let ?s1 = "release_lock Queue_lock (?s0\<lparr>skbs := h\<rparr>)" and ?w = "net_dev_update (vn_queue_update (\<lambda>_. q)) v"
  let ?t = "?s1\<lparr>gs_vnet := Some (a, ?w)\<rparr>"
  have "queue_remove (vn_queue (net_dev v)) s = Some (x, q, ?s1)" using q(1) by (simp add: queue_remove_raw)
  from with_queue_Some [where f = queue_remove, OF F(1) this] F(1)
  have eq: "with_queue queue_remove s = Some (x, ?t)" by simp
  have x: "x \<noteq> NULL" "x \<notin> H" "x \<notin> set ys" "H \<inter> set ys = {}"
    using o queue_rep_props [OF F(3)] by (auto simp: own_def)
  have d: "dom h = insert x (set ys \<union> H)"
    using q(4) F(4) dom_pool_of [of "?s0\<lparr>skbs := h\<rparr>"] dom_pool_of [of s] by simp
  have "heap_linear (skbs (?s0\<lparr>skbs := h\<rparr>))" using o q(4) unfolding own_def heap_linear_pool by simp
  then have lin: "heap_linear h" "heap_linear (h |` (- insert x H))"
    by (auto simp: heap_linear_def restrict_map_def split: if_splits)
  have "dom (h |` (- insert x H)) = set ys" using d x by (auto simp: dom_def restrict_map_def split: if_splits)
  moreover have "queue_rep q (h |` (- insert x H)) ys" using q(2) x by (subst queue_rep_restrict) auto
  ultimately have "drv_inv (?t\<lparr>skbs := h |` (- insert x H)\<rparr>) a ?w ys"
    using o q(3) lin(2) F(2) by (auto simp: own_def inv_defs lock_simps)
  then have "own ?t a ?w (insert x H) ys" using o d x lin(1) by (auto simp: own_def)
  moreover have "ktrace ?t = ktrace s @ [Spin_lock_bh Queue_lock, Spin_unlock_bh Queue_lock]"
    by (simp add: acquire_lock_def release_lock_def)
  ultimately show ?thesis using eq x by blast
qed

lemma own_take_empty:
  assumes o: "own s a v H []"
  shows "\<exists>t. with_queue queue_remove s = Some (NULL, t) \<and> own t a v H [] \<and>
    ktrace t = ktrace s @ [Spin_lock_bh Queue_lock, Spin_unlock_bh Queue_lock]"
proof -
  note F = own_facts [OF o]
  let ?t = "release_lock Queue_lock (acquire_lock Queue_lock s)"
  have "queue_remove (vn_queue (net_dev v)) s = Some (NULL, vn_queue (net_dev v), ?t)"
    using F(3) by (simp add: queue_remove_raw raw_queue_remove_def IS_PTR_VALID_def)
  from with_queue_Some [where f = queue_remove, OF F(1) this] F(1)
  have "with_queue queue_remove s = Some (NULL, ?t\<lparr>gs_vnet := Some (a, v)\<rparr>)" by simp
  moreover have e: "?t\<lparr>gs_vnet := Some (a, v)\<rparr> = ?t" using F(1) by simp
  moreover have "own ?t a v H []"
  proof -
    have sw: "?t\<lparr>skbs := h\<rparr> = release_lock Queue_lock (acquire_lock Queue_lock (s\<lparr>skbs := h\<rparr>))" for h
      by (simp add: acquire_lock_def release_lock_def log_def)
    show ?thesis using o F(2) by (simp add: own_def sw inv_defs lock_simps)
  qed
  moreover have "ktrace ?t = ktrace s @ [Spin_lock_bh Queue_lock, Spin_unlock_bh Queue_lock]"
    by (simp add: acquire_lock_def release_lock_def)
  ultimately show ?thesis by auto
qed

section \<open>One section of one reader\<close>

lemma own_fill_copy:
  assumes o: "own s a v H ys" and x: "x \<in> H"
  shows "\<exists>r t es. fill_copy K pkt x s = Some (r, t) \<and> own t a v H ys \<and> ktrace t = ktrace s @ es \<and> freed es = []"
proof -
  from o x obtain b where b: "x \<noteq> NULL" "skbs s x = Some b" "skb_linear b"
    unfolding own_def heap_linear_def by blast
  define g where "g = k_get_user K (ktrace s) (pkt_data_len pkt)"
  let ?s1 = "log (Get_user (pkt_data_len pkt) g) s"
  have o1: "own ?s1 a v H ys" by (rule own_log [OF o]) simp_all
  show ?thesis
  proof (cases g)
    case None
    with o1 show ?thesis
      by (intro exI [of _ None] exI [of _ ?s1]) (simp add: fill_copy_def g_def [symmetric])
  next
    case (Some dlen)
    define len where "len = min (skb_len b) dlen"
    define bs where "bs = take (unat len) (skb_data b)"
    define left where "left = k_copy_to_user K (ktrace ?s1) (pkt_data pkt) bs"
    let ?s2 = "log (Copy_to_user (pkt_data pkt) bs left) ?s1"
    have "len \<le> skb_len b" by (simp add: len_def)
    then have "unat len \<le> length (skb_data b)" using b(3) by (simp add: skb_linear_def word_le_nat_alt)
    moreover have "skb_at x ?s1 = Some b" using b by (simp add: skb_at_def)
    ultimately have "fill_copy K pkt x s = Some (if left \<noteq> 0 then None else Some len, ?s2)"
      using Some by (simp add: fill_copy_def g_def [symmetric] len_def [symmetric] bs_def [symmetric]
          left_def Let_def)
    moreover have "own ?s2 a v H ys" by (rule own_log [OF o1]) simp_all
    ultimately show ?thesis by (intro exI [of _ "if left \<noteq> 0 then None else Some len"] exI [of _ ?s2]) simp
  qed
qed

text \<open>
  What is always true of a reader: how its index, its result so far and the packets it has taken
  hang together, and what it returns in the end.
\<close>

definition reading_ok :: "nat \<Rightarrow> reading \<Rightarrow> bool" where
  "reading_ok n rd \<longleftrightarrow>
     (case r_pc rd of
        R_done \<Rightarrow> r_ret rd = - EFAULT \<and> r_taken rd \<noteq> [] \<or> r_ret rd = - EAGAIN \<and> r_taken rd = [] \<or>
          r_ret rd = int (length (r_taken rd))
      | R_take \<Rightarrow> r_ret rd = int (r_index rd) \<and> length (r_taken rd) = r_index rd
      | R_free x r \<Rightarrow> r_ret rd = int (r_index rd) \<and> length (r_taken rd) = Suc (r_index rd) \<and> r_index rd < n
      | _ \<Rightarrow> r_ret rd = int (r_index rd) \<and> length (r_taken rd) = Suc (r_index rd) \<and> r_index rd < n)"

text \<open>
  What a section does to the packets: it takes one off the queue, or keeps what it has in hand, or
  frees it.
\<close>

definition section_post ::
    "kernel \<Rightarrow> block \<Rightarrow> nat \<Rightarrow> reading \<Rightarrow> drv \<Rightarrow> addr \<Rightarrow> addr set \<Rightarrow> addr list \<Rightarrow> bool" where
  "section_post K m n rd s a H ys \<longleftrightarrow>
     (\<exists>rd' t w H' xs es. read_section K m n rd s = Some (rd', t) \<and> reading_ok n rd' \<and> r_taken rd' = r_taken rd @ xs \<and>
       own t a w H' (drop (length xs) ys) \<and> xs = take (length xs) ys \<and> ktrace t = ktrace s @ es \<and>
       H' = H - in_hand (r_pc rd) \<union> in_hand (r_pc rd') \<and> (\<forall>x \<in> set xs. x \<notin> H) \<and>
       (freed es = [] \<and> in_hand (r_pc rd') = in_hand (r_pc rd) \<union> set xs \<or>
        (\<exists>x. freed es = [x] \<and> in_hand (r_pc rd) = {x} \<and> in_hand (r_pc rd') = {} \<and> xs = [])))"

lemma section_take:
  assumes o: "own s a v H ys" and ok: "reading_ok n rd" and pc: "r_pc rd = R_take"
  shows "section_post K m n rd s a H ys"
proof (cases "n \<le> r_index rd")
  case True
  then have "read_section K m n rd s = Some (rd\<lparr>r_pc := R_done\<rparr>, s)" using pc by (simp add: read_section_def)
  moreover have "reading_ok n (rd\<lparr>r_pc := R_done\<rparr>)" using ok pc by (simp add: reading_ok_def)
  ultimately show ?thesis unfolding section_post_def using o pc
    by (intro exI [of _ "rd\<lparr>r_pc := R_done\<rparr>"] exI [of _ s] exI [of _ v] exI [of _ H] exI [of _ "[]"]) simp
next
  case False
  show ?thesis
  proof (cases ys)
    case Nil
    let ?rd = "rd\<lparr>r_pc := R_done, r_ret := if r_ret rd = 0 then - EAGAIN else r_ret rd\<rparr>"
    from own_take_empty o Nil obtain t where
      t: "with_queue queue_remove s = Some (NULL, t)" "own t a v H []"
        "ktrace t = ktrace s @ [Spin_lock_bh Queue_lock, Spin_unlock_bh Queue_lock]" by blast
    have "read_section K m n rd s = Some (?rd, t)"
      using t(1) pc False by (simp add: read_section_def IS_PTR_VALID_def)
    moreover have "reading_ok n ?rd" using ok pc by (auto simp: reading_ok_def)
    ultimately show ?thesis unfolding section_post_def using t(2,3) pc Nil
      by (intro exI [of _ ?rd] exI [of _ t] exI [of _ v] exI [of _ H] exI [of _ "[]"]
          exI [of _ "[Spin_lock_bh Queue_lock, Spin_unlock_bh Queue_lock]"]) simp
  next
    case (Cons x zs)
    let ?rd = "rd\<lparr>r_pc := R_fill x, r_taken := r_taken rd @ [x]\<rparr>"
    from own_take o Cons obtain t w where
      t: "with_queue queue_remove s = Some (x, t)" "x \<noteq> NULL" "x \<notin> H" "own t a w (insert x H) zs"
        "ktrace t = ktrace s @ [Spin_lock_bh Queue_lock, Spin_unlock_bh Queue_lock]" by blast
    have "read_section K m n rd s = Some (?rd, t)"
      using t(1,2) pc False by (simp add: read_section_def IS_PTR_VALID_def)
    moreover have "reading_ok n ?rd" using ok pc False by (simp add: reading_ok_def)
    ultimately show ?thesis unfolding section_post_def using t(3,4,5) pc Cons
      by (intro exI [of _ ?rd] exI [of _ t] exI [of _ w] exI [of _ "insert x H"] exI [of _ "[x]"]
          exI [of _ "[Spin_lock_bh Queue_lock, Spin_unlock_bh Queue_lock]"]) simp
  qed
qed

lemma section_free:
  assumes o: "own s a v H ys" and ok: "reading_ok n rd" and pc: "r_pc rd = R_free x r" "x \<in> H"
  shows "section_post K m n rd s a H ys"
proof -
  let ?rd = "if r \<noteq> 0 then rd\<lparr>r_pc := R_done, r_ret := - EFAULT\<rparr>
    else rd\<lparr>r_pc := R_take, r_index := r_index rd + 1, r_ret := r_ret rd + 1\<rparr>"
  from own_free [OF o pc(2)] obtain t where
    t: "kfree_skb x s = Some t" "own t a v (H - {x}) ys" "ktrace t = ktrace s @ [Kfree_skb x]" by blast
  have "read_section K m n rd s = Some (?rd, t)" using t(1) pc by (simp add: read_section_def)
  moreover have "reading_ok n ?rd" using ok pc by (auto simp: reading_ok_def)
  ultimately show ?thesis unfolding section_post_def using t(2,3) pc
    by (intro exI [of _ ?rd] exI [of _ t] exI [of _ v] exI [of _ "H - {x}"] exI [of _ "[]"]
        exI [of _ "[Kfree_skb x]"]) auto
qed

lemma section_hold:
  assumes "own s a v H ys" and "in_hand (r_pc rd) = {x}" "x \<in> H" and "reading_ok n (rd\<lparr>r_pc := pc\<rparr>)"
    and "read_section K m n rd s = Some (rd\<lparr>r_pc := pc\<rparr>, t)" and "own t a w H ys" and "in_hand pc = {x}"
    and "ktrace t = ktrace s @ es" "freed es = []"
  shows "section_post K m n rd s a H ys"
  unfolding section_post_def using assms
  by (intro exI [of _ "rd\<lparr>r_pc := pc\<rparr>"] exI [of _ t] exI [of _ w] exI [of _ H] exI [of _ "[]"] exI [of _ es]) auto

lemma section_ok:
  assumes o: "own s a v H ys" and H: "in_hand (r_pc rd) \<subseteq> H" and ok: "reading_ok n rd"
    and hdr: "\<forall>i<n. hdr_pkt m (int i) \<noteq> None"
  shows "section_post K m n rd s a H ys"
proof -
  note F = own_facts [OF o]
  have stats: "\<exists>t. vnet_upd (net_dev_update (vn_stats_update f)) s = Some t \<and>
      own t a (net_dev_update (vn_stats_update f) v) H ys \<and> ktrace t = ktrace s" for f
    using own_stats [OF o] F(1) by simp
  have pkt: "\<exists>p. hdr_pkt m (int (r_index rd)) = Some p" if "r_index rd < n" using hdr that by auto
  show ?thesis
  proof (cases "r_pc rd")
    case R_take
    then show ?thesis by (rule section_take [OF o ok])
  next
    case (R_fill x)
    with pkt ok obtain p where p: "hdr_pkt m (int (r_index rd)) = Some p" by (auto simp: reading_ok_def)
    from own_fill_copy [OF o] R_fill H obtain r t es where
      t: "fill_copy K p x s = Some (r, t)" "own t a v H ys" "ktrace t = ktrace s @ es" "freed es = []" by fastforce
    show ?thesis
      by (rule section_hold [where x = x and pc = "case r of None \<Rightarrow> R_free x (- EFAULT) | Some len \<Rightarrow> R_packets x len",
            OF o _ _ _ _ t(2) _ t(3,4)])
        (use R_fill H ok t(1) p in \<open>auto simp: read_section_def reading_ok_def split: option.splits\<close>)
  next
    case (R_packets x len)
    then show ?thesis
      by (intro section_hold [where x = x and pc = "R_packets_store x len (tx_packets (vn_stats (net_dev v)) + 1)", OF o _ _ _ _ o])
        (use H ok F(5) in \<open>auto simp: read_section_def reading_ok_def load_stats_def\<close>)
  next
    case (R_packets_store x len k)
    from stats obtain t where t: "store_packets k s = Some t"
      "own t a (net_dev_update (vn_stats_update (tx_packets_update (\<lambda>_. k))) v) H ys" "ktrace t = ktrace s"
      unfolding store_packets_def by blast
    show ?thesis
      by (rule section_hold [where x = x and pc = "R_bytes x len", OF o _ _ _ _ t(2)])
        (use R_packets_store H ok t in \<open>auto simp: read_section_def reading_ok_def\<close>)
  next
    case (R_bytes x len)
    then show ?thesis
      by (intro section_hold [where x = x and pc = "R_bytes_store x len (tx_bytes (vn_stats (net_dev v)) + len)", OF o _ _ _ _ o])
        (use H ok F(5) in \<open>auto simp: read_section_def reading_ok_def load_stats_def\<close>)
  next
    case (R_bytes_store x len k)
    from stats obtain t where t: "store_bytes k s = Some t"
      "own t a (net_dev_update (vn_stats_update (tx_bytes_update (\<lambda>_. k))) v) H ys" "ktrace t = ktrace s"
      unfolding store_bytes_def by blast
    show ?thesis
      by (rule section_hold [where x = x and pc = "R_put x len", OF o _ _ _ _ t(2)])
        (use R_bytes_store H ok t in \<open>auto simp: read_section_def reading_ok_def\<close>)
  next
    case (R_put x len)
    with pkt ok obtain p where p: "hdr_pkt m (int (r_index rd)) = Some p" by (auto simp: reading_ok_def)
    obtain r t where rt: "fill_put K p len s = (r, t)" by fastforce
    then have t: "own t a v H ys" "\<exists>ok. ktrace t = ktrace s @ [Put_user (pkt_data_len p) len ok]"
      using own_log [OF o] by (auto simp: fill_put_def Let_def)
    then obtain b where b: "ktrace t = ktrace s @ [Put_user (pkt_data_len p) len b]" by blast
    show ?thesis
      by (rule section_hold [where x = x and pc = "R_free x r", OF o _ _ _ _ t(1) _ b])
        (use R_put H ok p rt in \<open>auto simp: read_section_def reading_ok_def\<close>)
  next
    case (R_free x r)
    with H show ?thesis by (intro section_free [OF o ok]) auto
  next
    case R_done
    with o ok show ?thesis unfolding section_post_def
      by (intro exI [of _ rd] exI [of _ s] exI [of _ v] exI [of _ H] exI [of _ "[]"] exI [of _ "[]"])
        (simp add: read_section_def)
  qed
qed

section \<open>Any number of readers\<close>

text \<open>
  Reader \<open>j\<close> has the header \<open>M j\<close> with \<open>N j\<close> pointers; the schedule is the list of the readers that
  run a section, one after the other.
\<close>

fun run_readers ::
    "kernel \<Rightarrow> ('r \<Rightarrow> block) \<Rightarrow> ('r \<Rightarrow> nat) \<Rightarrow> 'r list \<Rightarrow> ('r \<Rightarrow> reading) \<Rightarrow> drv \<Rightarrow> (('r \<Rightarrow> reading) \<times> drv) option" where
  "run_readers K M N [] R s = Some (R, s)"
| "run_readers K M N (j # js) R s = do {
     (rd, s) \<leftarrow> read_section K (M j) (N j) (R j) s;
     run_readers K M N js (R(j := rd)) s }"

definition in_hands :: "('r \<Rightarrow> reading) \<Rightarrow> addr set" where
  "in_hands R = (\<Union>j. in_hand (r_pc (R j)))"

text \<open>The packets taken so far, each with its reader, in the order in which they were taken.\<close>

definition taken_by :: "'r \<Rightarrow> ('r \<times> addr) list \<Rightarrow> addr list" where
  "taken_by j hist = map snd (filter (\<lambda>p. fst p = j) hist)"

text \<open>
  From \<open>s0\<close> with the queue \<open>xs\<close> to \<open>s\<close>: what was taken is a front part of the queue, every packet of it
  is in the hands of exactly the one reader that took it, or was freed, once.
\<close>

definition shared ::
    "('r \<Rightarrow> nat) \<Rightarrow> drv \<Rightarrow> addr list \<Rightarrow> ('r \<Rightarrow> reading) \<Rightarrow> drv \<Rightarrow> addr \<Rightarrow> vnet \<Rightarrow> ('r \<times> addr) list \<Rightarrow> kcall list \<Rightarrow> bool" where
  "shared N s0 xs R s a v hist es \<longleftrightarrow>
     own s a v (in_hands R) (drop (length hist) xs) \<and> map snd hist = take (length hist) xs \<and> distinct xs \<and>
     ktrace s = ktrace s0 @ es \<and> distinct (freed es) \<and> set (freed es) = set (map snd hist) - in_hands R \<and>
     in_hands R \<subseteq> set (map snd hist) \<and>
     (\<forall>j. r_taken (R j) = taken_by j hist \<and> reading_ok (N j) (R j)) \<and>
     (\<forall>i j. i \<noteq> j \<longrightarrow> in_hand (r_pc (R i)) \<inter> in_hand (r_pc (R j)) = {})"

lemma in_hands_upd:
  assumes "\<forall>i. i \<noteq> j \<longrightarrow> in_hand (r_pc (R i)) \<inter> in_hand (r_pc (R j)) = {}"
  shows "in_hands (R(j := rd)) = in_hands R - in_hand (r_pc (R j)) \<union> in_hand (r_pc rd)"
  using assms by (fastforce simp: in_hands_def split: if_splits)

lemma taken_by_simps [simp]:
  "taken_by j [] = []" "taken_by j (hist @ hist') = taken_by j hist @ taken_by j hist'"
  "taken_by j (map (Pair i) xs) = (if i = j then xs else [])"
  by (simp_all add: taken_by_def filter_map comp_def)

lemma shared_step:
  assumes sh: "shared N s0 xs R s a v hist es" and hdr: "\<forall>j. \<forall>i<N j. hdr_pkt (M j) (int i) \<noteq> None"
  shows "\<exists>rd t w hist' es'. read_section K (M j) (N j) (R j) s = Some (rd, t) \<and>
    shared N s0 xs (R(j := rd)) t a w hist' es'"
proof -
  note S = sh [unfolded shared_def]
  have o: "own s a v (in_hands R) (drop (length hist) xs)" and sep: "\<forall>i. i \<noteq> j \<longrightarrow> in_hand (r_pc (R i)) \<inter> in_hand (r_pc (R j)) = {}"
    and ok: "reading_ok (N j) (R j)" using S by simp_all
  have "in_hand (r_pc (R j)) \<subseteq> in_hands R" by (auto simp: in_hands_def)
  from section_ok [OF o this ok, of "M j" K] hdr obtain rd t w zs fs where
    r: "read_section K (M j) (N j) (R j) s = Some (rd, t)" "reading_ok (N j) rd" "r_taken rd = r_taken (R j) @ zs"
      "own t a w (in_hands (R(j := rd))) (drop (length zs) (drop (length hist) xs))"
      "zs = take (length zs) (drop (length hist) xs)" "ktrace t = ktrace s @ fs" "\<forall>x \<in> set zs. x \<notin> in_hands R"
      "freed fs = [] \<and> in_hand (r_pc rd) = in_hand (r_pc (R j)) \<union> set zs \<or>
        (\<exists>x. freed fs = [x] \<and> in_hand (r_pc (R j)) = {x} \<and> in_hand (r_pc rd) = {} \<and> zs = [])"
    unfolding section_post_def in_hands_upd [OF sep] by auto
  let ?h = "hist @ map (Pair j) zs"
  have h: "map snd ?h = take (length ?h) xs"
    using S r(5) by (simp add: comp_def take_add)
  have new: "set zs \<inter> set (map snd hist) = {}"
  proof -
    have "distinct (map snd ?h)" unfolding h using S by simp
    then show ?thesis by (auto simp: comp_def)
  qed
  have P: "in_hand (r_pc (R j)) \<subseteq> in_hands R" by (auto simp: in_hands_def)
  have E: "distinct (freed es)" "set (freed es) = set (map snd hist) - in_hands R" "in_hands R \<subseteq> set (map snd hist)"
    using S by blast+
  have H: "set (map snd ?h) = set (map snd hist) \<union> set zs" by (simp add: image_image)
  from r(8) have fr: "distinct (freed (es @ fs)) \<and> set (freed (es @ fs)) = set (map snd ?h) - in_hands (R(j := rd)) \<and>
    in_hands (R(j := rd)) \<subseteq> set (map snd ?h)"
  proof
    assume f: "freed fs = [] \<and> in_hand (r_pc rd) = in_hand (r_pc (R j)) \<union> set zs"
    then have "in_hands (R(j := rd)) = in_hands R \<union> set zs" unfolding in_hands_upd [OF sep] using P by blast
    with f E new show ?thesis unfolding H freed_simps by auto
  next
    assume "\<exists>x. freed fs = [x] \<and> in_hand (r_pc (R j)) = {x} \<and> in_hand (r_pc rd) = {} \<and> zs = []"
    then obtain x where f: "freed fs = [x]" "in_hand (r_pc (R j)) = {x}" "in_hand (r_pc rd) = {}" "zs = []" by blast
    then have "in_hands (R(j := rd)) = in_hands R - {x}" "x \<in> in_hands R"
      unfolding in_hands_upd [OF sep] using P by auto
    with f(1,4) E show ?thesis unfolding H freed_simps by auto
  qed
  have D: "\<forall>i k. i \<noteq> k \<longrightarrow> in_hand (r_pc (R i)) \<inter> in_hand (r_pc (R k)) = {}" using S by blast
  have "in_hand (r_pc rd) \<subseteq> in_hand (r_pc (R j)) \<union> set zs" using r(8) by auto
  moreover have "set zs \<inter> in_hand (r_pc (R i)) = {}" for i using r(7) by (auto simp: in_hands_def)
  ultimately have Q: "in_hand (r_pc rd) \<inter> in_hand (r_pc (R i)) = {}" if "i \<noteq> j" for i using D that by blast
  have "in_hand (r_pc ((R(j := rd)) i)) \<inter> in_hand (r_pc ((R(j := rd)) k)) = {}" if "i \<noteq> k" for i k
    using D Q [of i] Q [of k] that by (cases "i = j"; cases "k = j") (simp_all add: Int_commute)
  then have "shared N s0 xs (R(j := rd)) t a w ?h (es @ fs)"
    unfolding shared_def using S r(2,3,4,6) h fr by (auto simp: add.commute)
  with r(1) show ?thesis by blast
qed

lemma shared_run:
  assumes "shared N s0 xs R s a v hist es" and "\<forall>j. \<forall>i<N j. hdr_pkt (M j) (int i) \<noteq> None"
  shows "\<exists>R' t w hist' es'. run_readers K M N js R s = Some (R', t) \<and> shared N s0 xs R' t a w hist' es'"
  using assms
proof (induction js arbitrary: R s v hist es)
  case Nil
  then show ?case by auto
next
  case (Cons j js)
  from shared_step [OF Cons.prems, of K j] obtain rd t w hist' es' where
    r: "read_section K (M j) (N j) (R j) s = Some (rd, t)" "shared N s0 xs (R(j := rd)) t a w hist' es'" by blast
  from Cons.IH [OF r(2) Cons.prems(2)] obtain R' u x h e where
    "run_readers K M N js (R(j := rd)) t = Some (R', u)" "shared N s0 xs R' u a x h e" by blast
  with r(1) show ?case by (intro exI [of _ R'] exI [of _ u] exI [of _ x] exI [of _ h] exI [of _ e]) simp
qed

definition reading_start :: reading where
  "reading_start = \<lparr>r_pc = R_take, r_index = 0, r_ret = 0, r_taken = []\<rparr>"

text \<open>
  (C11) Any number of reads at the same time, under any schedule and with any answers of the kernel,
  never fault. The packets taken are a front part of the queue, each taken by exactly one read;
  each is freed exactly once, but for those still in hand; and when no read has one in hand, the
  driver keeps its invariant with the rest of the queue. A read that is done returns the number of
  packets it took, or \<open>EAGAIN\<close> if it took none, or \<open>EFAULT\<close>.
\<close>

theorem readers_share_queue:
  assumes inv: "drv_inv s a v xs" and start: "\<forall>j. R j = reading_start"
    and hdr: "\<forall>j. \<forall>i<N j. hdr_pkt (M j) (int i) \<noteq> None"
  shows "\<exists>R' t w hist es. run_readers K M N js R s = Some (R', t) \<and>
    map snd hist = take (length hist) xs \<and> (\<forall>j. r_taken (R' j) = taken_by j hist) \<and>
    ktrace t = ktrace s @ es \<and> distinct (freed es) \<and> set (freed es) = set (map snd hist) - in_hands R' \<and>
    (in_hands R' = {} \<longrightarrow> drv_inv t a w (drop (length hist) xs)) \<and>
    (\<forall>j. r_pc (R' j) = R_done \<longrightarrow> r_ret (R' j) = - EFAULT \<or> r_ret (R' j) = int (length (r_taken (R' j))) \<or>
      r_ret (R' j) = - EAGAIN \<and> r_taken (R' j) = [])"
proof -
  have d: "distinct xs" using inv by (simp add: inv_defs queue_rep_def)
  have n: "in_hands R = {}" using start by (simp add: in_hands_def reading_start_def)
  have "own s a v (in_hands R) (drop (length []) xs)" using inv unfolding n by (simp add: own_none)
  then have "shared N s xs R s a v [] []"
    using start d n by (simp add: shared_def reading_start_def reading_ok_def)
  from shared_run [OF this hdr, of K js] obtain R' t w hist es where
    r: "run_readers K M N js R s = Some (R', t)" "shared N s xs R' t a w hist es" by blast
  note S = r(2) [unfolded shared_def]
  have "in_hands R' = {} \<longrightarrow> drv_inv t a w (drop (length hist) xs)" using S by (auto simp: own_none)
  moreover have "r_ret (R' j) = - EFAULT \<or> r_ret (R' j) = int (length (r_taken (R' j))) \<or>
      r_ret (R' j) = - EAGAIN \<and> r_taken (R' j) = []" if "r_pc (R' j) = R_done" for j
  proof -
    have "reading_ok (N j) (R' j)" using S by blast
    with that show ?thesis by (auto simp: reading_ok_def)
  qed
  ultimately show ?thesis using r(1) S by blast
qed

section \<open>The counters\<close>

text \<open>
  (C23) The counters are incremented without a lock: of two reads that count a packet at the same time,
  both are counted only if one of them does so wholly before the other. In the other orders one
  packet is missing from \<open>tx_packets\<close> for ever.
\<close>

theorem counts_lost:
  assumes g: "gs_vnet s = Some (a, v)" and ij: "i \<noteq> j"
    and i: "r_pc (R i) = R_packets x len" and j: "r_pc (R j) = R_packets y len'"
    and js: "js \<in> shuffles [i, i] [j, j]"
  shows "\<exists>R' t w. run_readers K M N js R s = Some (R', t) \<and> gs_vnet t = Some (a, w) \<and>
    tx_packets (vn_stats (net_dev w)) =
      tx_packets (vn_stats (net_dev v)) + (if js = [i, i, j, j] \<or> js = [j, j, i, i] then 2 else 1)"
proof -
  have "js \<in> {[i, i, j, j], [i, j, i, j], [i, j, j, i], [j, i, i, j], [j, i, j, i], [j, j, i, i]}" using js by auto
  then show ?thesis
    using g ij i j
    by (elim insertE emptyE; simp add: read_section_def load_stats_def store_packets_def)
qed

end
