(* ===== verification/Quitting.thy ===== *)
theory Quitting
  imports Wakeups
begin

text \<open>
  The end of the packet loop, with a \<open>poll\<close> that sleeps: the loop of the example program
  (\<open>pktLoop\<close>), down through \<open>kvnet_read\<close> and \<open>poll\<close> to the sections of \<open>io_dev_poll\<close>, while another
  thread runs \<open>cancel_loop\<close>, down to the sections of the cancelling \<open>ioctl\<close>, the network stack
  sends packets, and signals come. \<open>poll\<close> sleeps when the driver reports nothing, until a signal or
  a wake-up that comes after it has joined the wait queue; woken, it asks the driver again, without
  joining again. The descriptor stays open meanwhile, as \<open>main\<close> closes it after the loop has ended
  (\<open>Client_Threads\<close>). What the loop does with its own memory between two reads plays no part here.
\<close>

section \<open>The threads\<close>

text \<open>
  Where the loop is: at its test of \<open>can_run_loop\<close>, in the driver's \<open>poll\<close> (for the first time in
  this call or not), with the events reported, or in the driver's read.
\<close>

datatype loop_at =
    Q_loop
  | Q_check bool
  | Q_join
  | Q_test
  | Q_events u32
  | Q_read
  | Q_end u32

datatype cancel_at = X_test | X_clear | X_set | X_wake | X_done

text \<open>
  \<open>q_woken\<close> is set when the sleeper was woken since it joined the wait queue or slept last.
  \<open>q_missed\<close> is not in the code: it notes that the wake-up of the cancellation came when the loop
  had made its test of \<open>canceled\<close> and had not yet joined the wait queue.
\<close>

record quit =
  q_drv :: drv
  q_at :: loop_at
  q_woken :: bool
  q_run :: bool
  q_cancel :: cancel_at
  q_owed :: nat
  q_missed :: bool

definition wakes :: "drv \<Rightarrow> drv \<Rightarrow> bool" where
  "wakes s t \<longleftrightarrow> Wake_up_interruptible \<in> set (drop (length (ktrace s)) (ktrace t))"

definition onto :: "drv \<Rightarrow> quit \<Rightarrow> quit" where
  "onto t q = q\<lparr>q_drv := t, q_woken := q_woken q \<or> wakes (q_drv q) t\<rparr>"

text \<open>What \<open>kvnet_read\<close> does with the events that \<open>poll\<close> returns.\<close>

definition after_poll :: "u32 \<Rightarrow> loop_at" where
  "after_poll mk =
     (if user_events mk AND (U_POLLERR OR U_POLLHUP OR U_POLLNVAL) \<noteq> 0 then Q_end KVNET_READ_CANCELLED
      else if user_events mk AND U_POLLIN \<noteq> 0 then Q_read
      else Q_end KVNET_SELECT_ERROR)"

lemma after_poll_library:
  assumes "use_tap_dev u = 0"
  shows "poll_done W hdr len 1 (user_events mk) u =
    Some (case after_poll mk of Q_end st \<Rightarrow> (status W st u, hdr, u) | _ \<Rightarrow> kvnet_read_dev W hdr len u)"
  using assms by (simp add: poll_done_def after_poll_def)

text \<open>One section of the loop, whose reads are of \<open>n\<close> bytes.\<close>

definition loop_section :: "kernel \<Rightarrow> u64 \<Rightarrow> quit \<Rightarrow> quit option" where
  "loop_section K n q =
     (case q_at q of
        Q_loop \<Rightarrow> Some (q\<lparr>q_at := if q_run q then Q_check True else Q_end KVNET_NO_ERROR\<rparr>)
      | Q_check first \<Rightarrow> do {
          m \<leftarrow> poll_check (q_drv q);
          Some (q\<lparr>q_at := (case m of Some mk \<Rightarrow> Q_events mk | None \<Rightarrow> if first then Q_join else Q_test)\<rparr>) }
      | Q_join \<Rightarrow> Some (q\<lparr>q_drv := poll_join (q_drv q), q_woken := False, q_at := Q_test\<rparr>)
      | Q_test \<Rightarrow> do {
          (mk, s) \<leftarrow> poll_test (q_drv q);
          Some (q\<lparr>q_drv := s, q_at := Q_events mk\<rparr>) }
      | Q_events mk \<Rightarrow>
          if user_events mk \<noteq> 0 then Some (q\<lparr>q_at := after_poll mk\<rparr>)
          else if q_woken q then Some (q\<lparr>q_woken := False, q_at := Q_check False\<rparr>)
          else Some q
      | Q_read \<Rightarrow> do {
          (r, s) \<leftarrow> io_dev_aio_read K O_NONBLOCK [n] (q_drv q);
          Some (q\<lparr>q_drv := s, q_at := if r < 0 then Q_end KVNET_READ_ERROR else Q_loop\<rparr>) }
      | Q_end st \<Rightarrow> Some q)"

text \<open>One section of \<open>cancel_loop\<close>.\<close>

definition cancel_section :: "quit \<Rightarrow> quit option" where
  "cancel_section q =
     (case q_cancel q of
        X_test \<Rightarrow> Some (q\<lparr>q_cancel := if \<not> q_run q then X_done else X_clear\<rparr>)
      | X_clear \<Rightarrow> Some (q\<lparr>q_run := False, q_cancel := X_set\<rparr>)
      | X_set \<Rightarrow> do {
          s \<leftarrow> cancel_set (q_drv q);
          Some ((onto s q)\<lparr>q_cancel := X_wake\<rparr>) }
      | X_wake \<Rightarrow> do {
          s \<leftarrow> io_dev_wakeup (q_drv q);
          Some ((onto s q)\<lparr>q_missed := (q_at q = Q_join), q_cancel := X_done\<rparr>) }
      | X_done \<Rightarrow> Some q)"

text \<open>The driver reported no event, so \<open>poll\<close> sleeps.\<close>

definition sleeps :: "loop_at \<Rightarrow> bool" where
  "sleeps l \<longleftrightarrow> (case l of Q_events mk \<Rightarrow> user_events mk = 0 | _ \<Rightarrow> False)"

text \<open>A signal ends the sleep of a \<open>poll\<close>, with \<open>EINTR\<close>; then \<open>kvnet_read\<close> polls again.\<close>

definition signal_section :: "quit \<Rightarrow> quit" where
  "signal_section q = (if sleeps (q_at q) then q\<lparr>q_woken := False, q_at := Q_check True\<rparr> else q)"

datatype quit_event = Loop | Cancel | Signal | Queue addr sk_buff | Wake

fun quit_step :: "kernel \<Rightarrow> u64 \<Rightarrow> quit_event \<Rightarrow> quit \<Rightarrow> quit option" where
  "quit_step K n Loop q = loop_section K n q"
| "quit_step K n Cancel q = cancel_section q"
| "quit_step K n Signal q = Some (signal_section q)"
| "quit_step K n (Queue p b) q = do {
     (queued, s) \<leftarrow> send_queue p (the_dev (q_drv q)) (handed p b (q_drv q));
     Some ((onto s q)\<lparr>q_owed := q_owed q + (if queued then 1 else 0)\<rparr>) }"
| "quit_step K n Wake q =
     (if q_owed q = 0 then Some q
      else do {
        s \<leftarrow> send_wake K (the_dev (q_drv q)) (q_drv q);
        Some ((onto s q)\<lparr>q_owed := q_owed q - 1\<rparr>) })"

fun quit_run :: "kernel \<Rightarrow> u64 \<Rightarrow> quit_event list \<Rightarrow> quit \<Rightarrow> quit option" where
  "quit_run K n [] q = Some q"
| "quit_run K n (e # es) q = do { q \<leftarrow> quit_step K n e q; quit_run K n es q }"

definition quit_start :: "drv \<Rightarrow> quit" where
  "quit_start s = \<lparr>q_drv = s, q_at = Q_loop, q_woken = False, q_run = True, q_cancel = X_test,
     q_owed = 0, q_missed = False\<rparr>"

fun quit_sent :: "quit_event list \<Rightarrow> (addr \<times> sk_buff) list" where
  "quit_sent [] = []"
| "quit_sent (Queue p b # es) = (p, b) # quit_sent es"
| "quit_sent (e # es) = quit_sent es"

text \<open>The loop sleeps, and nothing has woken it.\<close>

definition stuck :: "quit \<Rightarrow> bool" where
  "stuck q \<longleftrightarrow> sleeps (q_at q) \<and> \<not> q_woken q"

definition ended :: "quit \<Rightarrow> bool" where
  "ended q \<longleftrightarrow> (case q_at q of Q_end st \<Rightarrow> True | _ \<Rightarrow> False)"

section \<open>The invariant\<close>

text \<open>
  Once the cancellation is complete, a loop that may be about to sleep has been woken, or missed the
  cancellation; and whoever sleeps beside a packet is woken or owed a wake-up.
\<close>

definition quit_inv :: "addr \<Rightarrow> quit \<Rightarrow> (addr \<times> sk_buff) list \<Rightarrow> vnet \<Rightarrow> addr list \<Rightarrow> bool" where
  "quit_inv a q ps w ys \<longleftrightarrow>
     drv_inv (q_drv q) a w ys \<and> vn_device (net_dev w) \<noteq> NULL \<and> sendable ps (q_drv q) \<and>
     (q_cancel q \<in> {X_wake, X_done} \<longrightarrow> io_canceled (io_dev w) \<noteq> 0) \<and>
     q_run q = (q_cancel q \<in> {X_test, X_clear}) \<and>
     (q_cancel q = X_done \<and> q_at q = Q_join \<longrightarrow> q_missed q) \<and>
     (q_cancel q = X_done \<and> (q_at q = Q_test \<or> sleeps (q_at q)) \<longrightarrow> q_woken q \<or> q_missed q) \<and>
     (sleeps (q_at q) \<and> ys \<noteq> [] \<longrightarrow> q_woken q \<or> 0 < q_owed q)"

lemma sleeps_simps [simp]:
  "\<not> sleeps Q_loop" "\<not> sleeps (Q_check f)" "\<not> sleeps Q_join" "\<not> sleeps Q_test" "\<not> sleeps Q_read"
  "\<not> sleeps (Q_end st)" "sleeps (Q_events mk) = (user_events mk = 0)" "\<not> sleeps (after_poll mk)"
  by (simp_all add: sleeps_def after_poll_def)

lemma onto_simps [simp]:
  "q_drv (onto t q) = t" "q_at (onto t q) = q_at q" "q_woken (onto t q) = (q_woken q \<or> wakes (q_drv q) t)"
  "q_run (onto t q) = q_run q" "q_cancel (onto t q) = q_cancel q" "q_owed (onto t q) = q_owed q"
  "q_missed (onto t q) = q_missed q"
  by (simp_all add: onto_def)

lemma wakes_append: "ktrace t = ktrace s @ es \<Longrightarrow> wakes s t = (Wake_up_interruptible \<in> set es)"
  by (simp add: wakes_def)

lemma send_queue_file:
  assumes "send_queue p d s = Some (r, u)" and "gs_vnet s = Some (a, v)"
  shows "\<exists>w. gs_vnet u = Some (a, w) \<and> io_dev w = io_dev v"
  using assms
  by (auto simp: send_queue_def with_queue_def Let_def vnet_upd_def raw_queue_insert_def SET_NEXT_PKT_def
      skb_update_def kfree_skb_def acquire_lock_def release_lock_def log_def
      split: if_splits bind_splits option.splits)

lemma send_wake_dev:
  assumes "drv_inv s a w ys" and "vn_device (net_dev w) \<noteq> NULL"
  shows "\<exists>t. send_wake K (the_dev s) s = Some t \<and> drv_inv t a w ys \<and> skbs t = skbs s \<and> wakes s t"
proof -
  from send_wake_Some [OF assms] obtain t where t: "send_wake K (vn_device (net_dev w)) s = Some t" by blast
  from send_wake_inv [OF t assms(2)] assms(1) t show ?thesis
    by (simp add: the_dev_inv wakes_append)
qed

text \<open>The driver's read, from the loop.\<close>

lemma loop_read:
  assumes inv: "drv_inv s a w ys" and dev: "vn_device (net_dev w) \<noteq> NULL"
    and K: "iovec_laws K" and n: "unat n < 2 ^ 31"
  shows "\<exists>r t x zs. io_dev_aio_read K O_NONBLOCK [n] s = Some (r, t) \<and> drv_inv t a x zs \<and>
    vn_device (net_dev x) = vn_device (net_dev w) \<and> io_dev x = io_dev w \<and> dom (skbs t) \<subseteq> dom (skbs s)"
proof -
  from io_read_safe [OF inv dev K n] obtain r t x k where
    t: "io_read_to_iovec K n s = Some (r, t)" "drv_inv t a x (drop k ys)" "keeps s w t x" by blast
  have "io_dev_iov_total [n] = n" by (simp add: io_dev_iov_total_def)
  moreover have "sint (of_nat (unat n) :: u64) = int (unat n)" by (rule sint_of_nat_u64 [OF n])
  then have "0 \<le> sint n" by simp
  ultimately have "io_dev_aio_read K O_NONBLOCK [n] s = Some (r, t)"
    using t(1) by (simp add: io_dev_aio_read_def Let_def)
  moreover have "dom (skbs t) \<subseteq> dom (skbs s)"
    using t(2) inv set_drop_subset [of k ys] by (simp add: inv_defs)
  ultimately show ?thesis using t(2,3) by (auto simp: keeps_def)
qed

lemma loop_inv:
  assumes inv: "quit_inv a q ps w ys" and K: "iovec_laws K" and n: "unat n < 2 ^ 31"
  shows "\<exists>r x zs. loop_section K n q = Some r \<and> quit_inv a r ps x zs \<and> q_cancel r = q_cancel q \<and>
    q_missed r = q_missed q"
proof -
  note Q = inv [unfolded quit_inv_def]
  have i: "drv_inv (q_drv q) a w ys" and dev: "vn_device (net_dev w) \<noteq> NULL" and sd: "sendable ps (q_drv q)"
    using Q by simp_all
  have g: "gs_vnet (q_drv q) = Some (a, w)" and lk: "lock_of (q_drv q) = Some False"
    using i by (simp_all add: inv_defs)
  have err: "user_events (POLLPRI OR POLLERR) \<noteq> 0" by (simp only: user_events_values) simp
  show ?thesis
  proof (cases "q_at q")
    case Q_loop
    with Q show ?thesis by (auto simp: loop_section_def quit_inv_def)
  next
    case (Q_check first)
    with g Q err show ?thesis
      by (cases "io_canceled (io_dev w) = 0") (auto simp: loop_section_def poll_check_def quit_inv_def)
  next
    case Q_join
    have "drv_inv (log Poll_wait (q_drv q)) a w ys"
      by (rule drv_inv_log [OF _ _ i]) (simp_all add: lk lock_simps)
    with Q_join Q show ?thesis
      by (auto simp: loop_section_def poll_join_def quit_inv_def sendable_def)
  next
    case Q_test
    from poll_test_inv [OF i] obtain mk t where
      t: "poll_test (q_drv q) = Some (mk, t)" "drv_inv t a w ys" "skbs t = skbs (q_drv q)"
        "user_events mk = 0 \<longleftrightarrow> ys = []" by blast
    then have "sendable ps t" using sd by (simp add: sendable_def)
    with t Q_test Q show ?thesis by (auto simp: loop_section_def quit_inv_def)
  next
    case (Q_events mk)
    have np: "after_poll mk \<noteq> Q_join" "after_poll mk \<noteq> Q_test" by (simp_all add: after_poll_def)
    let ?r = "if user_events mk \<noteq> 0 then q\<lparr>q_at := after_poll mk\<rparr>
      else if q_woken q then q\<lparr>q_woken := False, q_at := Q_check False\<rparr> else q"
    have "loop_section K n q = Some ?r" using Q_events by (simp add: loop_section_def)
    moreover have "quit_inv a ?r ps w ys" using Q np Q_events by (simp add: quit_inv_def) blast
    ultimately show ?thesis by (intro exI [of _ ?r] exI [of _ w] exI [of _ ys]) simp
  next
    case Q_read
    from loop_read [OF i dev K n] obtain r t x zs where
      t: "io_dev_aio_read K O_NONBLOCK [n] (q_drv q) = Some (r, t)" "drv_inv t a x zs"
        "vn_device (net_dev x) = vn_device (net_dev w)" "io_dev x = io_dev w"
        "dom (skbs t) \<subseteq> dom (skbs (q_drv q))" by blast
    let ?r = "q\<lparr>q_drv := t, q_at := if r < 0 then Q_end KVNET_READ_ERROR else Q_loop\<rparr>"
    have "sendable ps t" by (rule sendable_mono [OF sd t(5)])
    then have "quit_inv a ?r ps x zs" using t(2-4) Q by (simp add: quit_inv_def split: if_splits)
    moreover have "loop_section K n q = Some ?r" using t(1) Q_read by (simp add: loop_section_def)
    ultimately show ?thesis by (intro exI [of _ ?r] exI [of _ x] exI [of _ zs]) simp
  next
    case (Q_end st)
    with inv show ?thesis by (auto simp: loop_section_def)
  qed
qed

lemma cancel_inv:
  assumes inv: "quit_inv a q ps w ys"
  shows "\<exists>r x. cancel_section q = Some r \<and> quit_inv a r ps x ys"
proof -
  note Q = inv [unfolded quit_inv_def]
  have i: "drv_inv (q_drv q) a w ys" using Q by simp
  have g: "gs_vnet (q_drv q) = Some (a, w)" and lk: "lock_of (q_drv q) = Some False"
    using i by (simp_all add: inv_defs)
  show ?thesis
  proof (cases "q_cancel q")
    case X_set
    let ?t = "(q_drv q)\<lparr>gs_vnet := Some (a, cancel_vnet w)\<rparr>"
    have "cancel_set (q_drv q) = Some ?t" using g by (simp add: cancel_set_def vnet_upd_def cancel_vnet_def)
    with X_set Q drv_inv_canceled [OF i] show ?thesis
      by (intro exI [of _ "(onto ?t q)\<lparr>q_cancel := X_wake\<rparr>"] exI [of _ "cancel_vnet w"])
        (auto simp: cancel_section_def quit_inv_def sendable_def cancel_vnet_def)
  next
    case X_wake
    let ?t = "log Wake_up_interruptible (q_drv q)"
    have "io_dev_wakeup (q_drv q) = Some ?t" using g by (simp add: io_dev_wakeup_def)
    moreover have "drv_inv ?t a w ys" by (rule drv_inv_log [OF _ _ i]) (simp_all add: lk lock_simps)
    moreover have "wakes (q_drv q) ?t" by (simp add: wakes_def)
    ultimately show ?thesis using X_wake Q
      by (intro exI [of _ "(onto ?t q)\<lparr>q_missed := (q_at q = Q_join), q_cancel := X_done\<rparr>"] exI [of _ w])
        (auto simp: cancel_section_def quit_inv_def sendable_def)
  qed (use Q in \<open>auto simp: cancel_section_def quit_inv_def\<close>)
qed

lemma quit_step_inv:
  assumes inv: "quit_inv a q (quit_sent (e # es)) w ys" and K: "iovec_laws K" and n: "unat n < 2 ^ 31"
  shows "\<exists>r x zs. quit_step K n e q = Some r \<and> quit_inv a r (quit_sent es) x zs"
proof (cases e)
  case Loop
  with loop_inv [OF _ K n, of a q "quit_sent es" w ys] inv show ?thesis by auto
next
  case Cancel
  with cancel_inv [of a q "quit_sent es" w ys] inv show ?thesis by auto
next
  case Signal
  have "quit_inv a (signal_section q) (quit_sent es) w ys"
    using inv Signal by (simp add: quit_inv_def signal_section_def)
  with Signal show ?thesis by auto
next
  case (Queue p b)
  note Q = inv [unfolded quit_inv_def]
  have i: "drv_inv (q_drv q) a w ys" and dev: "vn_device (net_dev w) \<noteq> NULL"
    and sd: "sendable ((p, b) # quit_sent es) (q_drv q)" using Q Queue by simp_all
  from send_queue_inv [OF i dev sd] obtain r u x zs where
    u: "send_queue p (the_dev (q_drv q)) (handed p b (q_drv q)) = Some (r, u)" "drv_inv u a x zs"
      "r \<or> zs = ys" "vn_device (net_dev x) = vn_device (net_dev w)" "sendable (quit_sent es) u" by blast
  have "io_dev x = io_dev w"
    using send_queue_file [OF u(1), of a w] u(2) i by (auto simp: inv_defs handed_def)
  with u dev Q Queue show ?thesis
    by (intro exI [of _ "(onto u q)\<lparr>q_owed := q_owed q + (if r then 1 else 0)\<rparr>"] exI [of _ x] exI [of _ zs])
      (auto simp: quit_inv_def)
next
  case Wake
  note Q = inv [unfolded quit_inv_def]
  show ?thesis
  proof (cases "q_owed q = 0")
    case True
    with Wake inv show ?thesis by auto
  next
    case False
    from send_wake_dev [of "q_drv q" a w ys K] Q obtain t where
      t: "send_wake K (the_dev (q_drv q)) (q_drv q) = Some t" "drv_inv t a w ys" "skbs t = skbs (q_drv q)"
        "wakes (q_drv q) t" by blast
    with False Q Wake show ?thesis
      by (intro exI [of _ "(onto t q)\<lparr>q_owed := q_owed q - 1\<rparr>"] exI [of _ w] exI [of _ ys])
        (auto simp: quit_inv_def sendable_def)
  qed
qed

lemma quit_run_inv:
  assumes "quit_inv a q (quit_sent es) w ys" and "iovec_laws K" and "unat n < 2 ^ 31"
  shows "\<exists>r x zs. quit_run K n es q = Some r \<and> quit_inv a r [] x zs"
  using assms
proof (induction es arbitrary: q w ys)
  case (Cons e es)
  from quit_step_inv [OF Cons.prems] Cons.IH [OF _ Cons.prems(2,3)] show ?case by fastforce
qed auto

section \<open>The loop ends\<close>

text \<open>The sections that a loop has left once the cancellation is complete.\<close>

definition left_of :: "loop_at \<Rightarrow> nat" where
  "left_of l =
     (case l of
        Q_end st \<Rightarrow> 0 | Q_loop \<Rightarrow> 1 | Q_check f \<Rightarrow> 2 | Q_read \<Rightarrow> 2 | Q_test \<Rightarrow> 4 | Q_join \<Rightarrow> 5
      | Q_events mk \<Rightarrow> if user_events mk AND (U_POLLERR OR U_POLLHUP OR U_POLLNVAL) \<noteq> 0 then 1 else 3)"

lemma section_progress:
  assumes inv: "quit_inv a q [] w ys" and c: "q_cancel q = X_done" and r: "loop_section K n q = Some r"
  shows "stuck q \<and> r = q \<or> ended q \<and> r = q \<or> left_of (q_at r) < left_of (q_at q)"
proof -
  note Q = inv [unfolded quit_inv_def]
  have g: "vnet_dev (q_drv q) = Some w" using Q by (simp add: inv_defs)
  have e: "user_events (POLLPRI OR POLLERR) = U_POLLERR" by (simp only: user_events_values)
  show ?thesis
  proof (cases "q_at q")
    case (Q_check f)
    have "r = q\<lparr>q_at := Q_events (POLLPRI OR POLLERR)\<rparr>"
      using r Q_check Q c g by (simp add: loop_section_def poll_check_def)
    moreover have "left_of (Q_events (POLLPRI OR POLLERR)) = 1" unfolding left_of_def loop_at.case e by simp
    ultimately show ?thesis using Q_check by (simp add: left_of_def)
  next
    case (Q_events mk)
    with r show ?thesis
      by (auto simp: loop_section_def left_of_def after_poll_def stuck_def split: if_splits)
  qed (use r Q c in \<open>auto simp: loop_section_def left_of_def ended_def split: bind_splits if_splits\<close>)
qed

lemma loop_alone:
  assumes "quit_inv a q [] w ys" and "q_cancel q = X_done" and "left_of (q_at q) \<le> m"
    and K: "iovec_laws K" and n: "unat n < 2 ^ 31"
  shows "\<exists>r x zs. quit_run K n (replicate m Loop) q = Some r \<and> quit_inv a r [] x zs \<and> q_cancel r = X_done \<and>
    q_missed r = q_missed q \<and> (ended r \<or> stuck r)"
  using assms(1-3)
proof (induction m arbitrary: q w ys)
  case 0
  then have "ended q" by (auto simp: left_of_def ended_def split: loop_at.splits if_splits)
  with 0 show ?case by auto
next
  case (Suc m)
  from loop_inv [OF Suc.prems(1) K n] obtain r x zs where
    r: "loop_section K n q = Some r" "quit_inv a r [] x zs" "q_cancel r = q_cancel q" "q_missed r = q_missed q"
    by blast
  have rest: "r = q \<and> (stuck q \<or> ended q) \<or> left_of (q_at r) \<le> m"
    using section_progress [OF Suc.prems(1,2) r(1)] Suc.prems(3) by auto
  have same: "loop_section K n q = Some q \<Longrightarrow> quit_run K n (replicate k Loop) q = Some q" for k
    by (induction k) simp_all
  show ?case
  proof (cases "left_of (q_at r) \<le> m")
    case True
    with Suc.IH [OF r(2)] r Suc.prems(2) show ?thesis by auto
  next
    case False
    with rest r same [of "Suc m"] Suc.prems show ?thesis by auto
  qed
qed

lemma loop_ends:
  assumes run: "running s a v xs" and op: "io_opened (io_dev v) \<noteq> 0" and sd: "sendable (quit_sent es) s"
    and K: "iovec_laws K" and n: "unat n < 2 ^ 31"
  shows "\<exists>q r w ys. quit_run K n es (quit_start s) = Some q \<and> quit_run K n (replicate 5 Loop) q = Some r \<and>
    drv_inv (q_drv r) a w ys \<and>
    (q_cancel q = X_done \<longrightarrow> ended r \<or> q_missed q \<and> stuck r \<and> (ys = [] \<or> 0 < q_owed r))"
proof -
  note F = running_facts [OF run]
  have "quit_inv a (quit_start s) (quit_sent es) v xs"
    using F(1,7) op sd by (simp add: quit_inv_def quit_start_def)
  from quit_run_inv [OF this K n] obtain q x zs where
    q: "quit_run K n es (quit_start s) = Some q" "quit_inv a q [] x zs" by blast
  show ?thesis
  proof (cases "q_cancel q = X_done")
    case True
    have "left_of (q_at q) \<le> 5" by (simp add: left_of_def split: loop_at.splits)
    from loop_alone [OF q(2) True this K n] obtain r w ys where
      r: "quit_run K n (replicate 5 Loop) q = Some r" "quit_inv a r [] w ys" "q_cancel r = X_done"
        "q_missed r = q_missed q" "ended r \<or> stuck r" by blast
    moreover have "q_missed q \<and> (ys = [] \<or> 0 < q_owed r)" if "stuck r"
      using that r by (auto simp: quit_inv_def stuck_def)
    ultimately show ?thesis using q(1) by (auto simp: quit_inv_def)
  next
    case False
    have "quit_sent (replicate m Loop) = []" for m by (induction m) simp_all
    with q(2) have "quit_inv a q (quit_sent (replicate 5 Loop)) x zs" by simp
    from quit_run_inv [OF this K n] obtain r w ys where
      "quit_run K n (replicate 5 Loop) q = Some r" "quit_inv a r [] w ys" by blast
    with q(1) False show ?thesis by (auto simp: quit_inv_def)
  qed
qed

text \<open>
  (C20) Cancelling ends the loop. The cancelling \<open>ioctl\<close> is its two sections, and the driver's
  \<open>poll\<close> its three. However the sections of the loop and of the cancellation, signals and the
  packets that are sent fall, nothing faults; and when the cancellation is complete, the loop has
  ended five sections of its own later, unless the cancellation made its wake-up while the loop was
  between its test of \<open>canceled\<close> and the joining of the wait queue: then the loop may be asleep, but
  only while no packet is queued, or one whose sender has yet to wake it.
\<close>

theorem cancelled_loop_ends:
  assumes "running s a v xs" and "io_opened (io_dev v) \<noteq> 0" and "sendable (quit_sent es) s"
    and "iovec_laws K" and "unat n < 2 ^ 31"
  shows "(\<forall>arg t. io_dev_ioctl K KVNET_IOCTL_CANCEL_PENDING_READ arg t =
      do { t \<leftarrow> cancel_set t; t \<leftarrow> io_dev_wakeup t; Some (0, t) }) \<and>
    (\<forall>t. io_dev_poll t =
      do { m \<leftarrow> poll_check t; (case m of Some mk \<Rightarrow> Some (mk, t) | None \<Rightarrow> poll_test (poll_join t)) }) \<and>
    (\<exists>q r w ys. quit_run K n es (quit_start s) = Some q \<and> quit_run K n (replicate 5 Loop) q = Some r \<and>
      drv_inv (q_drv r) a w ys \<and>
      (q_cancel q = X_done \<longrightarrow> ended r \<or> q_missed q \<and> stuck r \<and> (ys = [] \<or> 0 < q_owed r)))"
  using loop_ends [OF assms] io_dev_ioctl_sections io_dev_poll_sections by blast

end
