(* ===== verification/Examples.thy ===== *)
theory Examples
  imports Log_Lines Stack Wakeups Open_Race Stop_Race Accounting Blocking_Read Readers Quitting
begin

text \<open>
  Concrete instances: a kernel that answers every call with success and keeps all the laws
  the driver relies on, a freshly booted machine, and a driver that is running with its
  interface up and two packets queued. The properties are applied to them.
\<close>

section \<open>A kernel\<close>

definition raw_device :: net_device where
  "raw_device = \<lparr>nd_kvnet_ops = False, nd_kvnet_ethtool_ops = False, nd_kvnet_destructor = False,
     nd_hard_header_len = 0, nd_addr_len = 0, nd_mtu = 0, nd_tx_queue_len = 0, nd_flags = 0x1002,
     nd_dev_addr = replicate 32 0, nd_trans_start = 0, nd_last_rx = 0, nd_priv = zero_stats\<rparr>"

definition calm :: kernel where
  "calm = \<lparr>k_sizeof_vnet = 512, k_net_ip_align = 2,
     k_kmalloc = (\<lambda>h n. if h = [] then 0x1000 else 0x2000),
     k_dev_alloc_skb = (\<lambda>h n. 0x9000),
     k_skb_put_fits = (\<lambda>h p n. True),
     k_eth_type_trans = (\<lambda>h d. (0x0800, drop 14 d)),
     k_get_user = (\<lambda>h p. Some 100),
     k_put_user = (\<lambda>h p n. True),
     k_copy_to_user = (\<lambda>h p bs. 0),
     k_copy_from_user = (\<lambda>h p n. Some (replicate (unat n) 7)),
     k_memcpy_fromiovecend = (\<lambda>h n. Some (take (unat n)
       (header_bytes 2 [0x100, 0x200] @ replicate (unat n) 0))),
     k_memcpy_toiovec = (\<lambda>h bs. True),
     k_alloc_netdev = (\<lambda>h. (0x5000, raw_device)),
     k_ether_setup = (\<lambda>d. d),
     k_register_netdev = (\<lambda>h. (0, [])),
     k_unregister_netdev = (\<lambda>h. if up_in h then [Ndo_stop] else []),
     k_alloc_chrdev_region = (\<lambda>h. (0, 247, 0)),
     k_cdev_add = (\<lambda>h. 0),
     k_class_create = (\<lambda>h. KPtr 0x6000),
     k_device_create = (\<lambda>h. KPtr 0x7000),
     k_jiffies = (\<lambda>h. of_nat (length h))\<rparr>"

lemma calm_iovec: "iovec_laws calm"
  by (auto simp: iovec_laws_def calm_def length_header_bytes min_def)

lemma calm_skb: "skb_laws calm"
  by (simp add: skb_laws_def calm_def)

lemma calm_netdev: "netdev_laws calm"
  by (simp add: netdev_laws_def calm_def)

lemma calm_chrdev: "chrdev_laws calm"
  by (simp add: chrdev_laws_def calm_def)

lemma calm_kmalloc: "kmalloc_works calm"
  by (simp add: kmalloc_works_def calm_def)

lemma calm_errno: "errno_laws calm"
  by (simp add: errno_laws_def calm_def MAX_ERRNO_def)

lemma calm_laws: "kernel_laws calm"
  by (simp add: kernel_laws_def calm_iovec calm_skb calm_netdev calm_chrdev)

section \<open>States\<close>

definition booted :: drv where
  "booted = \<lparr>skbs = Map.empty, netdevs = Map.empty, ktrace = [], gs_vnet = None,
     g_utils_debug_enabled = 0\<rparr>"

lemma booted_unloaded: "unloaded booted"
  by (simp add: unloaded_def booted_def held_of_def lock_of_def up_of_def up_in_def)

definition ex_skb :: "addr \<Rightarrow> sk_buff" where
  "ex_skb nxt = \<lparr>skb_next = nxt, skb_len = 60, skb_data = replicate 60 0x11, skb_protocol = 0,
     skb_mac_len = 0, skb_dev = 0x5000\<rparr>"

definition ex_dev :: net_device where
  "ex_dev = raw_device\<lparr>nd_kvnet_ops := True, nd_kvnet_destructor := True,
     nd_kvnet_ethtool_ops := True, nd_mtu := 1400, nd_tx_queue_len := 256\<rparr>"

definition ex_vnet :: vnet where
  "ex_vnet = \<lparr>
     io_dev = \<lparr>io_added = 1, io_opened = 1, io_canceled = 0, io_major_number = 247,
       io_minor_number = 0, io_class = KPtr 0x6000, io_device = KPtr 0x7000\<rparr>,
     net_dev = \<lparr>vn_added = 1, vn_connected = 1, vn_stats = zero_stats,
       vn_queue = \<lparr>q_head = 0x10, q_tail = 0x20, q_size = 2, q_enabled = 1\<rparr>,
       vn_device = 0x5000\<rparr>,
     cfg = module_cfg\<rparr>"

definition ex_state :: drv where
  "ex_state = \<lparr>skbs = [0x10 \<mapsto> ex_skb 0x20, 0x20 \<mapsto> ex_skb NULL],
     netdevs = [0x5000 \<mapsto> ex_dev],
     ktrace = [Kmalloc 512 0x1000, Spin_lock_init Queue_lock, Alloc_chrdev_region 0, Cdev_add 0,
       Class_create (KPtr 0x6000), Device_create (KPtr 0x6000) (KPtr 0x7000),
       Netif_start_queue 0x5000],
     gs_vnet = Some (0x1000, ex_vnet), g_utils_debug_enabled = 0\<rparr>"

lemma ex_readings:
  "lock_of ex_state = Some False" "up_of ex_state"
  "held_of ex_state = Some [Device (KPtr 0x6000), Class (KPtr 0x6000), Cdev, Region, Block 0x1000]"
  by (simp_all add: lock_of_def up_of_def up_in_def held_of_def ex_state_def)

lemma ex_inv: "drv_inv ex_state 0x1000 ex_vnet [0x10, 0x20]"
proof -
  have "queue_rep (vn_queue (net_dev ex_vnet)) (skbs ex_state) [0x10, 0x20]"
    by (simp add: queue_rep_def ex_state_def ex_vnet_def ex_skb_def)
  moreover have "dom (skbs ex_state) = set [0x10, 0x20]" by (auto simp: ex_state_def)
  moreover have "heap_linear (skbs ex_state)"
    by (simp add: heap_linear_def skb_linear_def ex_state_def ex_skb_def)
  moreover have "dev_wf ex_state ex_vnet"
    by (auto simp: dev_wf_def dev_conf_def ex_state_def ex_vnet_def ex_dev_def module_cfg_def)
  ultimately show ?thesis
    by (simp add: inv_defs ex_readings) (simp add: ex_state_def ex_vnet_def module_cfg_def)
qed

lemma ex_running: "running ex_state 0x1000 ex_vnet [0x10, 0x20]"
  using ex_inv
  by (simp add: running_def drv_ok_def ex_readings)
    (simp add: file_wf_def io_holds_def ex_vnet_def module_cfg_def)

lemma ex_fields:
  "vn_device (net_dev ex_vnet) = 0x5000" "cfg_max_queue_len (cfg ex_vnet) = 256"
  "q_enabled (vn_queue (net_dev ex_vnet)) = 1" "vn_stats (net_dev ex_vnet) = zero_stats"
  "io_canceled (io_dev ex_vnet) = 0" "io_opened (io_dev ex_vnet) = 1"
  "skbs ex_state = [0x10 \<mapsto> ex_skb 0x20, 0x20 \<mapsto> ex_skb NULL]"
  by (simp_all add: ex_vnet_def module_cfg_def ex_state_def)

text \<open>The same driver when the two packets have been read.\<close>

definition idle_vnet :: vnet where
  "idle_vnet = net_dev_update (vn_queue_update (\<lambda>_. \<lparr>q_head = NULL, q_tail = NULL, q_size = 0, q_enabled = 1\<rparr>)) ex_vnet"

definition idle_state :: drv where
  "idle_state = ex_state\<lparr>skbs := Map.empty, gs_vnet := Some (0x1000, idle_vnet)\<rparr>"

lemma idle_running: "running idle_state 0x1000 idle_vnet []"
proof -
  have "lock_of idle_state = Some False" "up_of idle_state"
    "held_of idle_state = Some [Device (KPtr 0x6000), Class (KPtr 0x6000), Cdev, Region, Block 0x1000]"
    using ex_readings by (simp_all add: idle_state_def lock_of_def up_of_def held_of_def)
  moreover have "dev_wf idle_state idle_vnet"
    by (auto simp: dev_wf_def dev_conf_def idle_state_def idle_vnet_def ex_state_def ex_vnet_def ex_dev_def module_cfg_def)
  moreover have "queue_rep (vn_queue (net_dev idle_vnet)) (skbs idle_state) []"
    by (simp add: queue_rep_def idle_state_def idle_vnet_def)
  ultimately have "drv_inv idle_state 0x1000 idle_vnet []"
    by (simp add: inv_defs) (simp add: idle_state_def idle_vnet_def ex_vnet_def module_cfg_def)
  with \<open>held_of idle_state = _\<close> show ?thesis
    by (simp add: running_def drv_ok_def) (simp add: file_wf_def io_holds_def idle_vnet_def ex_vnet_def module_cfg_def)
qed

text \<open>A user's request for two packets, at the addresses \<open>0x100\<close> and \<open>0x200\<close>.\<close>

lemma ex_request: "good_header calm s 20 [0x100, 0x200] []"
  by (simp add: good_header_def calm_def length_header_bytes Let_def)

lemma ex_user: "user_ok calm h P (\<lambda>_. 100)"
  by (simp add: user_ok_def calm_def)

lemma ex_writable: "writable calm h P (\<lambda>_. replicate 100 7)"
  by (simp add: writable_def calm_def)

lemma ex_fresh: "fresh_skbs calm ex_state"
  by (simp add: fresh_skbs_def calm_def ex_state_def)

lemma calm_strips: "strips_header calm"
  by (simp add: strips_header_def calm_def)

section \<open>Reachable states\<close>

lemma booted_reachable: "reachable calm booted"
  by (rule reachable.init) (rule booted_unloaded)

lemma booted_load: "\<exists>s a v. dstep calm booted Load 0 s \<and> loaded s a v"
proof -
  have "may_call calm booted Load" by (simp add: is_loaded_def booted_def calm_def)
  moreover have "k_kmalloc calm (ktrace booted) (alloc_size (k_sizeof_vnet calm)) \<noteq> NULL"
    by (simp add: calm_def)
  from module_start_cases [OF booted_unloaded this calm_chrdev] obtain r s' where
    r: "module_start calm booted = Some (r, s')" "if r = 0 then \<exists>a v. loaded s' a v else unloaded s'"
    by blast
  moreover have "r = 0"
    using r(1) by (simp add: module_start_def vnet_init_def booted_def alloc_nonpaged_mem_def
        alloc_mem_def IS_PTR_VALID_def queue_init_def alloc_lock_def calm_def io_dev_add_def Let_def
        split: if_splits)
  ultimately have "dispatch calm Load booted = Some (0, s')" "\<exists>a v. loaded s' a v" by simp_all
  with dstep.call [OF \<open>may_call calm booted Load\<close>] show ?thesis by blast
qed

lemma loaded_reachable: "\<exists>s a v. reachable calm s \<and> loaded s a v \<and> gs_vnet s = Some (a, v)"
  using booted_load reachable.step [OF booted_reachable]
  by (fastforce simp: loaded_def drv_ok_def inv_defs)

section \<open>Variants\<close>

text \<open>The object allocated, nothing registered yet.\<close>

definition fresh_state :: drv where
  "fresh_state = booted\<lparr>gs_vnet := Some (0x1000, zero_vnet), ktrace := [Kmalloc 512 0x1000]\<rparr>"

lemma fresh_fields:
  "gs_vnet fresh_state = Some (0x1000, zero_vnet)" "held_of fresh_state = Some [Block 0x1000]"
  "netdevs fresh_state = Map.empty" "ktrace fresh_state = [Kmalloc 512 0x1000]"
  by (simp_all add: fresh_state_def held_of_def booted_def)

text \<open>
  Kernels without memory, with an inaccessible buffer, and with a huge length in it; the last one's
  buffers have exactly the room they were allocated with.
\<close>

definition no_memory :: kernel where
  "no_memory = calm\<lparr>k_kmalloc := \<lambda>h n. NULL\<rparr>"

definition bad_user :: kernel where
  "bad_user = calm\<lparr>k_get_user := \<lambda>h p. None\<rparr>"

definition room :: "kcall list \<Rightarrow> addr \<Rightarrow> u32 \<Rightarrow> bool" where
  "room h p n = (case rev h of
       Skb_reserve q k # Dev_alloc_skb r q' # es \<Rightarrow> unat k + unat n \<le> unat r
     | _ \<Rightarrow> False)"

definition huge_user :: kernel where
  "huge_user = calm\<lparr>k_get_user := \<lambda>h p. Some 0xFFFFFFFE, k_skb_put_fits := room\<rparr>"

text \<open>A user whose request is shorter than it says.\<close>

definition short_request :: kernel where
  "short_request = calm\<lparr>k_memcpy_fromiovecend := \<lambda>h n. Some (take (unat n) (header_bytes 2 [0x100, 0x200]))\<rparr>"

lemma variant_laws: "kernel_laws no_memory" "kernel_laws huge_user" "skb_tight huge_user"
  using calm_laws
  by (simp_all add: kernel_laws_def iovec_laws_def skb_laws_def netdev_laws_def chrdev_laws_def skb_tight_def
      no_memory_def huge_user_def room_def)

lemma variant_requests:
  "good_header bad_user s 20 [0x100, 0x200] []" "good_header huge_user s 20 [0x100, 0x200] []"
  by (simp_all add: good_header_def bad_user_def huge_user_def calm_def length_header_bytes Let_def)

section \<open>An operating system\<close>

text \<open>Every call succeeds; \<open>poll\<close> times out, and another thread cancels meanwhile.\<close>

definition calm_os :: os where
  "calm_os = \<lparr>o_errno = (\<lambda>h. 0), o_open = (\<lambda>h f. 3), o_socket = (\<lambda>h. - 1), o_ioctl = (\<lambda>h fd c. 0),
     o_poll = (\<lambda>h fd ev tmo. (0, 0, True)), o_read = (\<lambda>h fd n. (0, [])),
     o_read_hdr = (\<lambda>h fd n. (0, \<lparr>u_count = 0, u_pkt = []\<rparr>, Map.empty)),
     o_write = (\<lambda>h fd bs. int (length bs)), o_write_hdr = (\<lambda>h fd n. 0), o_hwaddr = (\<lambda>h. []),
     o_info = (\<lambda>h. (2, 1, []))\<rparr>"

definition tap_state :: ulib where
  "tap_state = \<lparr>fdesc = 3, canceled = 0, use_tap_dev = 1,
     upkts = [0x100 \<mapsto> \<lparr>up_len = 2, up_data = [1, 2, 3]\<rparr>], utrace = []\<rparr>"

text \<open>A device whose \<open>poll\<close> is interrupted twice and then reports an error event.\<close>

definition cancelled_os :: os where
  "cancelled_os = calm_os\<lparr>o_errno := \<lambda>h. EINTR,
     o_poll := \<lambda>h fd ev tmo. if length h < 2 then (- 1, 0, False) else (1, U_POLLERR, False)\<rparr>"

definition dev_state :: ulib where
  "dev_state = \<lparr>fdesc = 3, canceled = 0, use_tap_dev = 0, upkts = Map.empty, utrace = []\<rparr>"

text \<open>Memory for the example program: for everything, and for two packets only.\<close>

definition ex_env :: env where
  "ex_env = \<lparr>e_malloc = (\<lambda>n. of_nat (Suc n)), e_fresh = (\<lambda>n. \<lparr>up_len = 0, up_data = replicate 8190 0\<rparr>),
     e_info = \<lparr>info_major = 0, info_minor = 0, info_hw_addr = replicate 6 0\<rparr>, e_run = (\<lambda>h. False)\<rparr>"

definition short_env :: env where
  "short_env = ex_env\<lparr>e_malloc := (\<lambda>n. if n = 3 then NULL else of_nat (Suc n))\<rparr>"

definition ex_client :: client where
  "ex_client = \<lparr>c_lib = tap_state, c_live = []\<rparr>"

lemma ex_client_info:
  "KVNET_SUCCEEDED (fst (kvnet_get_driver_info calm_os (Some info) (c_lib ex_client)))"
  "c_live ex_client = []"
  by (simp_all add: kvnet_get_driver_info_def kvnet_get_mac_def os_socket_def KVNET_SUCCEEDED_def
      ex_client_def tap_state_def calm_os_def Let_def)

lemma ex_env_distinct:
  "distinct (e_malloc ex_env 0 # pointers ex_env 64)" "NULL \<notin> set (e_malloc ex_env 0 # pointers ex_env 64)"
proof -
  have u: "unat (of_nat n :: u64) = n" if "n < 100" for n
    by (rule unat_of_nat_small) (use that in simp)
  then have "n = m" if "(of_nat n :: u64) = of_nat m" "n < 100" "m < 100" for n m
    using that by metis
  note inj = this
  have "inj_on (\<lambda>i. of_nat (Suc (Suc i)) :: u64) (set [0..<64])"
    by (intro inj_onI) (use inj in fastforce)
  moreover have one: "(of_nat (Suc 0) :: u64) \<noteq> of_nat (Suc (Suc i))" if "i < 64" for i
    using inj [of "Suc 0" "Suc (Suc i)"] that by linarith
  moreover have "(of_nat (Suc (Suc i)) :: u64) \<noteq> of_nat 0" if "i < 64" for i
    using inj [of "Suc (Suc i)" 0] that by linarith
  moreover have "(of_nat (Suc 0) :: u64) \<noteq> of_nat 0" using inj [of "Suc 0" 0] by linarith
  ultimately show "distinct (e_malloc ex_env 0 # pointers ex_env 64)"
    "NULL \<notin> set (e_malloc ex_env 0 # pointers ex_env 64)"
    by (auto simp: ex_env_def pointers_def distinct_map simp del: of_nat_Suc dest: one)
qed

text \<open>
  A run without signals, on a system where the device can be opened: \<open>main\<close> starts the loop,
  reads a \<open>q\<close> and waits.
\<close>

lemma quitting_run:
  assumes W: "o_open W [] Kvnet_file \<noteq> - 1"
  shows "\<exists>s. prog_reachable ex_env W [] s \<and> p_loop s = L_start"
    "\<exists>s. prog_reachable ex_env W [] s \<and> p_main s = M_join"
proof -
  let ?R = "\<lambda>s. prog_reachable ex_env W [] s \<and> main_frames s = []"
  have go: "?R t" if "?R s" "main_step W [] a s = Some t" "main_frames t = []" for s t a
    using that by (blast intro: prog_reachable.step prog_step.main)
  have 0: "?R initial_prog" by (simp add: prog_reachable.init) (simp add: initial_prog_def)
  obtain s1 where 1: "main_step W [] 0 initial_prog = Some s1" "p_main s1 = M_run" "main_frames s1 = []"
    using W by (simp add: main_step.simps initial_prog_def lib_of_def initial_lib_def kvnet_open_def os_open_def
        Let_def use_tap_arg_def KVNET_SUCCEEDED_def with_lib_def)
  obtain s2 where 2: "main_step W [] 0 s1 = Some s2" "p_main s2 = M_create" "can_run_loop s2"
      "main_frames s2 = []"
    using 1 by (simp add: main_step.simps)
  obtain s3 where 3: "main_step W [] 0 s2 = Some s3" "p_main s3 = M_wait" "can_run_loop s3"
      "main_frames s3 = []" "p_loop s3 = L_start"
    using 2 by (simp add: main_step.simps)
  have r3: "?R s3" using 0 1 2 3 by (meson go)
  obtain s4 where 4: "main_step W [] 113 s3 = Some s4" "p_main s4 = M_cancel C_test" "can_run_loop s4"
      "main_frames s4 = []"
    using 3 by (simp add: main_step.simps)
  obtain s5 where 5: "main_step W [] 0 s4 = Some s5" "p_main s5 = M_cancel C_clear" "main_frames s5 = []"
    using 4 by (simp add: main_step.simps)
  obtain s6 where 6: "main_step W [] 0 s5 = Some s6" "p_main s6 = M_cancel C_call" "main_frames s6 = []"
    using 5 by (simp add: main_step.simps)
  obtain s7 where 7: "main_step W [] 0 s6 = Some s7" "p_main s7 = M_join" "main_frames s7 = []"
    using 6 by (simp add: main_step.simps split_def Let_def)
  have "?R s7" using r3 4 5 6 7 by (meson go)
  with r3 3(5) 7(2) show "\<exists>s. prog_reachable ex_env W [] s \<and> p_loop s = L_start"
    "\<exists>s. prog_reachable ex_env W [] s \<and> p_main s = M_join" by blast+
qed

section \<open>The driver as the device\<close>

text \<open>The module loaded, the file closed.\<close>

definition closed_vnet_ex :: vnet where
  "closed_vnet_ex = \<lparr>
     io_dev = (io_dev ex_vnet)\<lparr>io_opened := 0\<rparr>,
     net_dev = \<lparr>vn_added = 0, vn_connected = 0, vn_stats = zero_stats,
       vn_queue = \<lparr>q_head = NULL, q_tail = NULL, q_size = 0, q_enabled = 0\<rparr>, vn_device = NULL\<rparr>,
     cfg = module_cfg\<rparr>"

definition closed_state :: drv where
  "closed_state = \<lparr>skbs = Map.empty, netdevs = Map.empty, ktrace = butlast (ktrace ex_state),
     gs_vnet = Some (0x1000, closed_vnet_ex), g_utils_debug_enabled = 0\<rparr>"

lemma closed_running: "running closed_state 0x1000 closed_vnet_ex []"
proof -
  have "lock_of closed_state = Some False" "\<not> up_of closed_state"
    "held_of closed_state = Some [Device (KPtr 0x6000), Class (KPtr 0x6000), Cdev, Region, Block 0x1000]"
    by (simp_all add: lock_of_def up_of_def up_in_def held_of_def closed_state_def ex_state_def)
  moreover have "queue_rep (vn_queue (net_dev closed_vnet_ex)) (skbs closed_state) []"
    by (simp add: queue_rep_def closed_state_def closed_vnet_ex_def)
  ultimately have "drv_inv closed_state 0x1000 closed_vnet_ex []"
    by (simp add: inv_defs dev_wf_def) (simp add: closed_state_def closed_vnet_ex_def module_cfg_def)
  with \<open>held_of closed_state = _\<close> show ?thesis
    by (simp add: running_def drv_ok_def)
      (simp add: file_wf_def io_holds_def closed_vnet_ex_def ex_vnet_def module_cfg_def)
qed

lemma closed_view: "view closed_state closed_vnet_ex [] = spec_off\<lparr>sp_loaded := True\<rparr>"
  using running_facts(9) [OF closed_running] by (simp add: view_def spec_off_def closed_vnet_ex_def)

lemma closed_refines: "refines closed_state (spec_off\<lparr>sp_loaded := True\<rparr>)"
  using closed_running closed_view unfolding refines_def by metis

lemma closed_ready: "ready closed_state"
  using closed_refines by (auto simp: ready_def spec_off_def)

lemma closed_open: "fst (enter calm Open_file closed_state) = 0"
proof -
  have "is_loaded closed_state" by (simp add: is_loaded_def closed_state_def)
  moreover have "\<exists>s. io_dev_open calm closed_state = Some (0, s)"
    by (simp add: io_dev_open_def net_dev_add_def alloc_netdev_def register_netdev_def net_dev_setup_def
        netdev_update_def netdev_at_def vnet_dev_def vnet_upd_def IS_PTR_VALID_def calm_def raw_device_def
        closed_state_def closed_vnet_ex_def ex_vnet_def ex_state_def module_cfg_def Let_def)
  ultimately show ?thesis by (auto simp: enter_def)
qed

text \<open>
  A world in which the interface comes up once the process has opened the device, and a
  packet is sent when it polls.
\<close>

definition ex_memory :: "addr \<rightharpoonup> upkt" where
  "ex_memory = (\<lambda>p. Some \<lparr>up_len = 100, up_data = replicate 100 0\<rparr>)"

definition ex_world :: world where
  "ex_world = \<lparr>w_net = (\<lambda>h. if h = [U_open Kvnet_file 3] then Dev_open # xmits [(0x30, ex_skb NULL)] else []),
     w_fd = (\<lambda>h. 3), w_arg = (\<lambda>h. 0), w_hdr = (\<lambda>h. \<lparr>u_count = 2, u_pkt = [0x100, 0x200]\<rparr>),
     w_mem = (\<lambda>h. ex_memory)\<rparr>"

definition ex_stack :: os where
  "ex_stack = driver_os calm ex_world closed_state calm_os"

lemma ex_stack_open: "o_open ex_stack [] Kvnet_file = 3"
  using closed_open by (simp add: ex_stack_def driver_at_def ex_world_def network_def)

lemma ex_world_laws: "world_laws ex_world P"
  by (auto simp: world_laws_def ex_world_def ex_memory_def)

text \<open>The interface is up once the process has opened the device.\<close>

lemma ex_up:
  assumes "u = network calm [Dev_open] (driver_after calm ex_world closed_state [U_open Kvnet_file 3])"
  shows "\<exists>a v. running u a v [] \<and> io_opened (io_dev v) \<noteq> 0 \<and> io_canceled (io_dev v) = 0 \<and> up_of u"
proof -
  define s1 where "s1 = snd (enter calm Open_file closed_state)"
  have u: "u = snd (enter calm Dev_open s1)"
    using driver_after_snoc [of calm ex_world closed_state "[]"]
    by (simp add: assms network_def s1_def reacts_def ex_world_def)
  have "may_call calm closed_state Open_file" by (simp add: is_loaded_def closed_state_def)
  from enter_spec [OF closed_refines calm_laws this] closed_open
  have r1: "refines s1 (spec_off\<lparr>sp_loaded := True, sp_open := True\<rparr>)"
    by (auto simp: s1_def spec_off_def)
  then obtain a v xs where v: "running s1 a v xs" "view s1 v xs = spec_off\<lparr>sp_loaded := True, sp_open := True\<rparr>"
    by (auto simp: refines_def spec_off_def)
  have "io_opened (io_dev v) \<noteq> 0" "\<not> up_of s1" using v(2) by (auto simp: view_def spec_off_def)
  with running_facts [OF v(1)] have "may_call calm s1 Dev_open" by simp
  from enter_spec [OF r1 calm_laws this] u
  have "refines u (spec_off\<lparr>sp_loaded := True, sp_open := True, sp_up := True\<rparr>)"
    by (auto simp: spec_off_def)
  then obtain b w ys where "running u b w ys" "view u w ys = spec_off\<lparr>sp_loaded := True, sp_open := True, sp_up := True\<rparr>"
    by (auto simp: refines_def spec_off_def)
  then show ?thesis by (auto simp: view_def spec_off_def)
qed

text \<open>A kernel with one name for the devices of the driver.\<close>

definition naming :: kernel where
  "naming = calm\<lparr>
     k_alloc_netdev := (\<lambda>h. (if 0x5000 \<in> named_in h then 0x6000 else 0x5000, raw_device)),
     k_register_netdev := (\<lambda>h. if named_in h = {} then (0, [Ndo_init]) else (- EEXIST, [])),
     k_unregister_netdev := (\<lambda>h. case last h of Register_netdev p r \<Rightarrow> [] | _ \<Rightarrow> if up_in h then [Ndo_stop] else [])\<rparr>"

lemma naming_one: "one_name naming"
proof -
  have "0x6000 \<notin> ps" if "card ps \<le> 1" "0x5000 \<in> ps" "finite ps" for ps :: "addr set"
  proof
    assume "0x6000 \<in> ps"
    with that(2) have "{0x5000, 0x6000} \<subseteq> ps" by simp
    from card_mono [OF that(3) this] that(1) show False by simp
  qed
  then show ?thesis by (auto simp: one_name_def naming_def)
qed

lemma closed_loaded: "loaded closed_state 0x1000 closed_vnet_ex"
  by (rule running_loaded [OF closed_running]) (simp add: closed_vnet_ex_def)

text \<open>Loading the module, opening the file, bringing the interface up and sending a packet.\<close>

lemma calm_open: "io_dev_open calm s = Some (r, t) \<Longrightarrow> \<not> file_is_open s \<Longrightarrow> r = 0"
proof -
  have "net_dev_add calm s = Some (r, t) \<Longrightarrow> r = 0" for r t
    by (auto simp: net_dev_add_def alloc_netdev_def register_netdev_def calm_def IS_PTR_VALID_def Let_def
        split: bind_splits if_splits)
  then show "io_dev_open calm s = Some (r, t) \<Longrightarrow> \<not> file_is_open s \<Longrightarrow> r = 0"
    by (auto simp: io_dev_open_def file_is_open_def vnet_dev_def split: bind_splits if_splits)
qed

lemma calm_step:
  "refines s t \<Longrightarrow> may_call calm s e \<Longrightarrow> \<not> faulting calm e s \<Longrightarrow> \<exists>r s' t'. dstep calm s e r s' \<and> spec_step e t r t' \<and> refines s' t'"
  using step_simulates [OF _ calm_laws] dstep.call by (fastforce simp: simulates_def)

lemma refines_dev: "refines s t \<Longrightarrow> sp_open t \<Longrightarrow> the_dev s \<noteq> NULL \<and> up_of s = sp_up t"
  using running_facts(4,7) by (fastforce simp: refines_def view_def spec_off_def)

lemma refines_empty: "refines s t \<Longrightarrow> sp_queue t = [] \<Longrightarrow> skbs s = Map.empty"
  using running_facts(1) by (fastforce simp: refines_def view_def inv_defs unloaded_def)

lemma calm_run:
  "\<exists>s t. dstep calm booted Load 0 s \<and>
     dsteps calm s [(Open_file, 0), (Dev_open, 0), (Dev_xmit 0x30 (ex_skb NULL), 0)] t"
proof -
  obtain s0 a v where 0: "dstep calm booted Load 0 s0" "loaded s0 a v" using booted_load by blast
  have "refines booted spec_off" using booted_unloaded by (simp add: refines_def)
  from step_refines [OF this calm_laws 0(1)] have r0: "refines s0 (spec_off\<lparr>sp_loaded := True\<rparr>)" by simp
  have "is_loaded s0" "\<not> file_is_open s0" using refines_flags [OF r0] by (simp_all add: spec_off_def)
  moreover from this calm_step [OF r0, of Open_file] obtain r s1 t1 where
    1: "dstep calm s0 Open_file r s1" "spec_step Open_file (spec_off\<lparr>sp_loaded := True\<rparr>) r t1" "refines s1 t1" by auto
  ultimately have r: "r = 0" using calm_open by (auto elim: dstepE)
  then have t1: "sp_open t1" "\<not> sp_up t1" "sp_queue t1 = []" using 1(2) by (simp_all add: spec_off_def)
  with refines_dev [OF 1(3)] have "may_call calm s1 Dev_open" by simp
  from calm_step [OF 1(3) this] obtain s2 t2 where
    2: "dstep calm s1 Dev_open 0 s2" "t2 = t1\<lparr>sp_up := True\<rparr>" "refines s2 t2" by auto
  with t1 refines_dev [OF 2(3)] refines_empty [OF 2(3)] have "may_call calm s2 (Dev_xmit 0x30 (ex_skb NULL))"
    by (simp add: ex_skb_def skb_linear_def)
  from calm_step [OF 2(3) this] obtain s3 where "dstep calm s2 (Dev_xmit 0x30 (ex_skb NULL)) 0 s3" by auto
  with 0 1 2 r show ?thesis by auto
qed

end
