(* ===== verification/Witnesses.thy ===== *)
theory Witnesses
  imports Examples
begin

text \<open>
  The properties of the components at concrete inputs: each lemma here applies one of them to
  the states and kernels of \<open>Examples\<close>, where its hypotheses hold.
\<close>

section \<open>Queue, locks and trace\<close>

lemma queue_is_fifo_witness:
  "\<exists>q' s'. run_script (\<lambda>p qs. queue_insert p (fst qs) (snd qs)) (\<lambda>qs. queue_remove (fst qs) (snd qs))
      [Remove, Remove, Remove, Insert 0x10, Remove] (vn_queue (net_dev ex_vnet), ex_state) =
    Some ([0x10, 0x20, NULL, 0x10], q', s') \<and> queue_rep q' (skbs s') []"
proof -
  have "queue_rep (vn_queue (net_dev ex_vnet)) (skbs ex_state) [0x10, 0x20]"
    using ex_inv by (simp add: inv_defs)
  from queue_is_fifo [OF this, of "[Remove, Remove, Remove, Insert 0x10, Remove]"] show ?thesis
    by (auto simp: ex_state_def)
qed

text \<open>A line with its text, and the line that does not fit; pointers are printed as zeros here.\<close>

abbreviation zeros :: "addr \<Rightarrow> string" where
  "zeros p \<equiv> replicate 16 CHR ''0''"

abbreviation ex_line :: log_call where
  "ex_line \<equiv> (LOG_WARN, ''%s: %d packet(s) still left in the queue.'', [A_str ''queue_close'', A_word 3])"

lemma log_lines_whole_witness:
  "TRACE 0 LOG_WARN ''queue_close: 3 packet(s) still left in the queue.'' =
     Some (Some (''kvnet!queue_close: 3 packet(s) still left in the queue.'' @ [CHR 0x0A])) \<and>
   (\<exists>s v t. vnet_dev s = Some v \<and> log_text zeros (stats_call (vn_stats (net_dev v))) = Some t \<and>
      TRACE 1 LOG_DBG t = Some (Some (printed LOG_DBG t)))"
proof
  have "\<exists>l \<in> set driver_lines. call_of ex_line l"
    by (simp add: driver_lines_def queue_close_lines_def msg_def)
  then have l: "driver_call booted ex_line" by (simp add: driver_call_def)
  have "char_of (51 :: nat) = CHR ''3''" by code_simp
  then have "log_text zeros ex_line = Some ''queue_close: 3 packet(s) still left in the queue.''"
    by (simp add: digit_def digits.simps digit_char_def)
  with log_lines_whole [OF _ calm_laws booted_reachable l, of zeros 0]
  show "TRACE 0 LOG_WARN ''queue_close: 3 packet(s) still left in the queue.'' =
      Some (Some (''kvnet!queue_close: 3 packet(s) still left in the queue.'' @ [CHR 0x0A]))"
    by (simp add: printed_def MODULE_NAME_def)
next
  obtain s a v where s: "reachable calm s" "gs_vnet s = Some (a, v)" using loaded_reachable by blast
  then have v: "vnet_dev s = Some v" by (simp add: vnet_dev_def)
  then have "driver_call s (stats_call (vn_stats (net_dev v)))" by (simp add: driver_call_def)
  from log_lines_whole [OF _ calm_laws s(1) this, of zeros 1] v
  show "\<exists>s v t. vnet_dev s = Some v \<and> log_text zeros (stats_call (vn_stats (net_dev v))) = Some t \<and>
      TRACE 1 LOG_DBG t = Some (Some (printed LOG_DBG t))"
    by (auto simp: stats_call_def)
qed

lemma send_line_overruns_witness:
  "\<exists>t. log_text zeros (LOG_DBG, fst (snd send_line), [A_str ''net_dev_send()'', A_ptr 0, A_word 60, A_word 60,
      A_str ''kvnet0'', A_ptr 0, A_word 0, A_word 0, A_str ''no'', A_ptr 0, A_word 0, A_word 0, A_ptr 0, A_ptr 0,
      A_ptr 0, A_ptr 0, A_ptr 0, A_ptr 0, A_ptr 0, A_ptr 0]) = Some t \<and> TRACE 1 LOG_DBG t = None"
  using send_line_overruns [where d = 1 and P = zeros and c = "(LOG_DBG, fst (snd send_line),
      [A_str ''net_dev_send()'', A_ptr 0, A_word 60, A_word 60,
      A_str ''kvnet0'', A_ptr 0, A_word 0, A_word 0, A_str ''no'', A_ptr 0, A_word 0, A_word 0, A_ptr 0, A_ptr 0,
      A_ptr 0, A_ptr 0, A_ptr 0, A_ptr 0, A_ptr 0, A_ptr 0])"]
  by (simp add: send_line_def msg_def)

lemma packet_accounting_witness:
  "\<exists>s a v xs. running s a v xs \<and>
     1 = tx_packets (vn_stats (net_dev v)) + tx_dropped (vn_stats (net_dev v)) + of_nat (length xs)"
proof -
  obtain s t where r: "dstep calm booted Load 0 s"
      "dsteps calm s [(Open_file, 0), (Dev_open, 0), (Dev_xmit 0x30 (ex_skb NULL), 0)] t"
    using calm_run by blast
  from packet_accounting [OF calm_laws booted_unloaded r] show ?thesis by auto
qed

section \<open>Interface and module\<close>

lemma results_typed_witness:
  "\<exists>s r s'. reachable calm s \<and> dispatch calm Open_file s = Some (r, s') \<and> - 4095 \<le> r \<and> r \<le> 0"
proof -
  obtain s a v where s: "reachable calm s" "gs_vnet s = Some (a, v)" "loaded s a v"
    using loaded_reachable by blast
  then have may: "may_call calm s Open_file" by (simp add: is_loaded_def)
  obtain t where t: "refines s t" using reachable_refines [OF s(1) calm_laws] by blast
  from step_simulates [OF t calm_laws may] obtain r s' where r: "dispatch calm Open_file s = Some (r, s')"
    by (auto simp: simulates_def)
  from results_typed [OF calm_laws calm_errno s(1) may r] s(1) r show ?thesis
    by (auto simp: MAX_ERRNO_def)
qed

lemma registration_undone_witness:
  "\<exists>r s1 s2. io_dev_add calm fresh_state = Some (r, s1) \<and> io_dev_remove s1 = Some (0, s2) \<and>
     held_of s2 = Some [Block 0x1000]"
  using registration_undone [OF fresh_fields(1,2) _ calm_chrdev] by (fastforce simp: zero_vnet_def)

lemma load_outcome_witness:
  "(\<exists>r s. module_start calm booted = Some (r, s) \<and> (r \<noteq> 0 \<longrightarrow> unloaded s)) \<and> module_start no_memory booted = None"
proof
  have "k_kmalloc calm (ktrace booted) (alloc_size (k_sizeof_vnet calm)) \<noteq> NULL" by (simp add: calm_def)
  with load_outcome [OF booted_unloaded calm_chrdev]
  show "\<exists>r s. module_start calm booted = Some (r, s) \<and> (r \<noteq> 0 \<longrightarrow> unloaded s)" by auto
  have "chrdev_laws no_memory" using variant_laws(1) by (simp add: kernel_laws_def)
  from load_outcome [OF booted_unloaded this] show "module_start no_memory booted = None"
    by (simp add: no_memory_def)
qed

lemma module_start_no_memory_witness: "module_start no_memory booted = None"
  by (rule module_start_no_memory) (simp_all add: booted_def no_memory_def)

section \<open>Reading and writing\<close>

text \<open>A request that says that it has two pointers and has room for one.\<close>

lemma request_checked_witness:
  "\<exists>t. fetch_header short_request 12 booted = Some (Inl (- EINVAL), t) \<and> held_of t = Some []"
proof -
  have bs: "k_memcpy_fromiovecend short_request (ktrace booted @ [Kmalloc 12 0x1000]) 12 = Some (take 12 (header_bytes 2 [0x100, 0x200]))"
    "length (take 12 (header_bytes 2 [0x100, 0x200])) = unat (12 :: u64)"
    by (simp_all add: short_request_def length_header_bytes)
  have p: "(0x1000 :: addr) = k_kmalloc short_request (ktrace booted) 12"
    by (simp add: short_request_def calm_def booted_def)
  from request_checked [OF _ _ p _ bs] obtain count t where
    c: "hdr_count (map Some (take 12 (header_bytes 2 [0x100, 0x200]))) = Some count"
    and t: "if count \<noteq> 0 \<and> 4 + 8 * unat count \<le> length (take 12 (header_bytes 2 [0x100, 0x200]))
       then fetch_header short_request 12 booted =
           Some (Inr (\<lparr>kb_addr = 0x1000, kb_mem = map Some (take 12 (header_bytes 2 [0x100, 0x200]))\<rparr>, count), t)
       else fetch_header short_request 12 booted = Some (Inl (- EINVAL), t) \<and> held_of t = held_of booted"
    by (fastforce split: if_splits)
  have "hdr_count (map Some (header_bytes 2 [0x100])) = Some 2"
    by (rule hdr_count_header [where ptrs = "[0x100]" and rest = "[]"]) simp
  moreover have "take 12 (header_bytes 2 [0x100, 0x200]) = header_bytes 2 [0x100]" by (simp add: header_bytes_def)
  ultimately have "count = 2" using c by simp
  with t booted_unloaded show ?thesis by (auto simp: length_header_bytes unloaded_def)
qed

lemma ex_dev_valid: "vn_device (net_dev ex_vnet) \<noteq> NULL"
  by (simp add: ex_fields)

lemma calm_out: "k_memcpy_toiovec calm h bs"
  by (simp add: calm_def)

lemma read_batch_witness:
  "\<exists>s w es. io_read_to_iovec calm 20 ex_state = Some (20, s) \<and> drv_inv s 0x1000 w [] \<and>
     ktrace s = ktrace ex_state @ es \<and> freed es = [0x10, 0x20] \<and>
     copied es = [(0x104, replicate 60 0x11), (0x204, replicate 60 0x11)]"
  using read_batch [OF ex_inv ex_dev_valid ex_request _ ex_user calm_out]
  by (fastforce simp: frames_def pool_of_def ex_fields payload_def ex_skb_def fitted_def pkt_data_def)

lemma read_fault_loses_packet_witness:
  "\<exists>s w es. io_read_to_iovec bad_user 20 ex_state = Some (- EFAULT, s) \<and> drv_inv s 0x1000 w [0x20] \<and>
     ktrace s = ktrace ex_state @ es \<and> freed es = [0x10] \<and> copied es = []"
  using read_fault_loses_packet [OF ex_inv ex_dev_valid variant_requests(1)]
  by (fastforce simp: bad_user_def)

lemma io_write_exact_witness:
  "\<exists>s es. io_write_from_iovec calm 20 ex_state = Some (20, s) \<and> ktrace s = ktrace ex_state @ es \<and>
     rx_frames es = [replicate 86 7, replicate 86 7]"
  using io_write_exact [OF ex_inv ex_dev_valid calm_skb calm_strips ex_fresh ex_request ex_writable calm_out]
  by fastforce

lemma write_wrap_panics_witness:
  "kernel_laws huge_user \<and> io_write_from_iovec huge_user 20 ex_state = None"
proof
  show "io_write_from_iovec huge_user 20 ex_state = None"
  proof (rule write_wrap_panics [OF variant_requests(2) variant_laws(3)])
    have "unat (0xFFFFFFFE :: u32) = 0xFFFFFFFE" by (simp only: unsigned_numeral) simp
    then show "2 ^ 32 \<le> unat (0xFFFFFFFE :: u32) + unat (k_net_ip_align huge_user)"
      by (simp add: huge_user_def calm_def)
  qed (simp_all add: huge_user_def calm_def)
qed (rule variant_laws(2))

section \<open>The whole path\<close>

lemma xmit_then_read_witness:
  "\<exists>t r t' es. send_all calm [(0x30 :: addr, ex_skb NULL)] ex_state = Some t \<and>
     io_read_to_iovec calm 20 t = Some (r, t') \<and> ktrace t' = ktrace t @ es \<and>
     copied es = [(0x104, replicate 60 0x11), (0x204, replicate 60 0x11)]"
proof -
  have "sendable [(0x30, ex_skb NULL)] ex_state"
    by (simp add: sendable_def ex_fields skb_linear_def ex_skb_def)
  from xmit_then_read [OF ex_running ex_readings(2) this, of calm] obtain t where
    t: "send_all calm [(0x30, ex_skb NULL)] ex_state = Some t"
    and r: "\<And>len ptrs rest cap. good_header calm t len ptrs rest \<Longrightarrow> distinct ptrs \<Longrightarrow>
       user_ok calm (ktrace t) (set ptrs) cap \<Longrightarrow> (\<And>h bs. k_memcpy_toiovec calm h bs) \<Longrightarrow>
       \<exists>r t' es. io_read_to_iovec calm len t = Some (r, t') \<and> ktrace t' = ktrace t @ es \<and>
          copied es = map (\<lambda>(p, b). fitted cap p b) (zip ptrs
            (take 256 (frames ex_state [0x10, 0x20] @ map (payload \<circ> snd) [(0x30 :: addr, ex_skb NULL)])))"
    by blast
  from r [OF ex_request _ ex_user calm_out] t show ?thesis
    by (fastforce simp: frames_def pool_of_def ex_fields payload_def ex_skb_def fitted_def pkt_data_def)
qed

lemma read_interleaved_witness:
  "\<exists>rd s' w ys es.
     interleaved calm (map Some (header_bytes 2 [0x100, 0x200])) [Fetch, Send 0x30 (ex_skb NULL), Fetch]
       \<lparr>rd_index = 0, rd_ret = 0, rd_live = True\<rparr> ex_state = Some (rd, s') \<and>
     rd_ret rd = 2 \<and> rd_live rd \<and> drv_inv s' 0x1000 w ys \<and> frames s' ys = [payload (ex_skb NULL)] \<and>
     copied es = [(0x104, replicate 60 0x11), (0x204, replicate 60 0x11)]"
proof -
  let ?cs = "[Fetch, Send 0x30 (ex_skb NULL), Fetch]"
  have ps: "sendable (sent ?cs) ex_state"
    by (simp add: sendable_def ex_fields skb_linear_def ex_skb_def)
  have hdr: "hdr_pkt (map Some (header_bytes 2 [0x100, 0x200])) (int i) = Some ([0x100, 0x200] ! i)"
    if "i < length [0x100 :: addr, 0x200]" for i
    by (rule hdr_pkt_header [where rest = "[]", OF _ that]) simp
  have fr: "frames ex_state [0x10, 0x20] = [payload (ex_skb NULL), payload (ex_skb NULL)]"
    by (simp add: frames_def pool_of_def ex_fields payload_def ex_skb_def)
  have spec: "list_interleaved (capacity ex_vnet) ?cs True (frames ex_state [0x10, 0x20]) =
      ([payload (ex_skb NULL), payload (ex_skb NULL)], [payload (ex_skb NULL)], True)"
    by (simp add: fr capacity_def ex_fields)
  show ?thesis
    using read_interleaved [OF ex_inv ex_dev_valid ex_readings(2) ps _ hdr _ ex_user spec]
    by (fastforce simp: payload_def ex_skb_def fitted_def pkt_data_def)
qed

lemma stop_during_read_witness:
  "\<exists>rd s' w es.
     meanwhile calm (map Some (header_bytes 2 [0x100, 0x200])) 0x5000 [Stop, Round, Stop, Round, Stop, Stop]
       \<lparr>rd_index = 0, rd_ret = 0, rd_live = True\<rparr> Close_disable ex_state = Some (rd, Close_done, s') \<and>
     rd_ret rd = 1 \<and> \<not> rd_live rd \<and> drv_inv s' 0x1000 w [] \<and>
     tx_dropped (vn_stats (net_dev w)) = tx_dropped (vn_stats (net_dev ex_vnet)) + 1 \<and>
     copied es = [(0x104, replicate 60 0x11)]"
proof -
  let ?cs = "[Stop, Round, Stop, Round, Stop, Stop]"
  have hdr: "hdr_pkt (map Some (header_bytes 2 [0x100, 0x200])) (int i) = Some ([0x100, 0x200] ! i)"
    if "i < length [0x100 :: addr, 0x200]" for i
    by (rule hdr_pkt_header [where rest = "[]", OF _ that]) simp
  have fr: "frames ex_state [0x10, 0x20] = [payload (ex_skb NULL), payload (ex_skb NULL)]"
    by (simp add: frames_def pool_of_def ex_fields payload_def ex_skb_def)
  have d: "1 = min (length [0x10 :: addr, 0x20]) (rounds_before 1 ?cs)" by simp
  show ?thesis
    using stop_during_read [OF ex_inv _ _ hdr _ ex_user d, where dev = "0x5000"] unfolding fr
    by (fastforce simp: payload_def ex_skb_def fitted_def pkt_data_def)
qed

lemma blocking_read_waits_witness:
  "\<exists>t. idle_naps calm [\<lparr>nap_calls = [Dev_xmit 0x30 (ex_skb NULL)], nap_signal = False\<rparr>] idle_state = Some t \<and>
     blocking_loop calm (map Some (header_bytes 1 [0x100])) [\<lparr>nap_calls = [Dev_xmit 0x30 (ex_skb NULL)], nap_signal = False\<rparr>] [0] 0
         \<lparr>t_waiting = True, t_sleeping = True\<rparr> idle_state =
       map_option (\<lambda>(r, u). (Returned r, \<lparr>t_waiting = True, t_sleeping = False\<rparr>, u)) (io_read_loop calm (map Some (header_bytes 1 [0x100])) [0] 0 t)"
proof -
  let ?b = "ex_skb NULL"
  have n: "no_packet idle_state" and dev: "vn_device (net_dev idle_vnet) \<noteq> NULL"
    by (simp_all add: no_packet_def vnet_dev_def idle_state_def idle_vnet_def ex_vnet_def IS_PTR_VALID_def)
  have I: "drv_inv idle_state 0x1000 idle_vnet []" using running_facts(1) [OF idle_running] .
  from take_packet_empty [OF I] take_no_packet [OF n]
  have d: "drv_inv (tried idle_state) 0x1000 idle_vnet []" by auto
  then have up: "up_of (tried idle_state)" by (simp add: drv_inv_def idle_vnet_def)
  have sd: "sendable [(0x30, ?b)] (tried idle_state)"
    by (simp add: sendable_def tried_def idle_state_def skb_linear_def ex_skb_def)
  from send_one [OF d dev up sd, of calm] obtain t w where
    t: "net_dev_send calm 0x30 (the_dev (tried idle_state)) (handed 0x30 ?b (tried idle_state)) = Some (0, t)"
      "drv_inv t 0x1000 w [0x30]"
    by (auto simp: capacity_def idle_vnet_def ex_vnet_def module_cfg_def)
  have "the_dev (tried idle_state) \<noteq> NULL" using d dev by (simp add: the_dev_inv)
  then have "may_call calm (tried idle_state) (Dev_xmit 0x30 ?b)" using sd by (auto simp: sendable_def)
  then have e: "enter calm (Dev_xmit 0x30 ?b) (tried idle_state) = (0, t)" using t(1) by (simp add: enter_def)
  have i: "idle_naps calm [\<lparr>nap_calls = [Dev_xmit 0x30 ?b], nap_signal = False\<rparr>] idle_state = Some t"
    by (simp add: n others_def e)
  have "vnet_dev t \<noteq> None" "\<not> no_packet t"
    using t(2) by (auto simp: inv_defs queue_rep_def no_packet_def vnet_dev_def IS_PTR_VALID_def)
  from blocking_read_waits [OF i this, of "[0]" "map Some (header_bytes 1 [0x100])" "[]"] i show ?thesis by simp
qed

lemma blocking_read_ignores_cancel_witness:
  "\<exists>t. blocking_read calm 20
      (\<lparr>nap_calls = [Ioctl_file KVNET_IOCTL_CANCEL_PENDING_READ 0], nap_signal = False\<rparr> #
       replicate 1000 \<lparr>nap_calls = [], nap_signal = False\<rparr>) idle_state =
     Some (Away, \<lparr>t_waiting = True, t_sleeping = False\<rparr>, t)"
proof -
  have "io_opened (io_dev idle_vnet) \<noteq> 0" by (simp add: idle_vnet_def ex_vnet_def)
  from blocking_read_ignores_cancel [OF idle_running this ex_request] show ?thesis by blast
qed


lemma reader_wakes_for_data_witness:
  "\<exists>mk t. io_dev_poll ex_state = Some (mk, t) \<and> user_events mk \<noteq> 0"
  using reader_wakes_for_data [OF ex_running] by (auto simp: ex_fields)

lemma cancel_missed_iff_witness:
  "\<exists>r. race_run calm [Poller, Cancel_set, Cancel_wake, Poller, Poller] (race_start idle_state) = Some r \<and>
     gs_vnet (r_drv r) = Some (0x1000, cancel_vnet idle_vnet) \<and> asleep r"
proof -
  let ?es = "[Poller, Cancel_set, Cancel_wake, Poller, Poller]"
  have "io_canceled (io_dev idle_vnet) = 0" by (simp add: idle_vnet_def ex_fields)
  moreover have "?es \<in> shuffles [Poller, Poller, Poller] [Cancel_set, Cancel_wake]"
    by (simp add: poll_cancel_schedules)
  ultimately show ?thesis using cancel_missed_iff [OF idle_running, of ?es calm] by simp
qed

lemma packet_wakes_poller_witness:
  "\<exists>r w ys. race_run calm [Poller, Poller, Send_queue 0x30 (ex_skb NULL), Poller, Send_wake]
       (race_start ex_state) = Some r \<and> drv_inv (r_drv r) 0x1000 w ys \<and>
     (asleep r \<and> ys \<noteq> [] \<longrightarrow> 0 < r_owed r)"
proof -
  let ?es = "[Poller, Poller, Send_queue 0x30 (ex_skb NULL), Poller, Send_wake]"
  have "sendable (race_sent ?es) ex_state"
    by (simp add: sendable_def ex_fields skb_linear_def ex_skb_def)
  from packet_wakes_poller [OF ex_running ex_dev_valid this, of calm] show ?thesis .
qed

text \<open>The loop polls, falls asleep, and is cancelled.\<close>

lemma cancelled_loop_ends_witness:
  "\<exists>q r. quit_run calm 20 (replicate 4 Loop @ replicate 4 Cancel) (quit_start idle_state) = Some q \<and>
     quit_run calm 20 (replicate 5 Loop) q = Some r \<and> ended r"
proof -
  let ?es = "replicate 4 Loop @ replicate 4 Cancel"
  have op: "io_opened (io_dev idle_vnet) \<noteq> 0" by (simp add: idle_vnet_def ex_fields)
  have sd: "sendable (quit_sent ?es) idle_state" by (simp add: sendable_def numeral_eq_Suc)
  from cancelled_loop_ends [OF idle_running op sd calm_iovec, of 20] obtain q r where
    q: "quit_run calm 20 ?es (quit_start idle_state) = Some q" "quit_run calm 20 (replicate 5 Loop) q = Some r"
      "q_cancel q = X_done \<longrightarrow> ended r \<or> q_missed q" by auto
  have none: "user_events (POLLOUT OR POLLWRNORM) = 0" by (simp only: user_events_values)
  have "q_cancel q = X_done \<and> \<not> q_missed q"
    using q(1) none
    by (auto simp: numeral_eq_Suc quit_start_def loop_section_def cancel_section_def poll_check_def poll_join_def
        poll_test_def cancel_set_def io_dev_wakeup_def vnet_dev_def vnet_upd_def with_queue_def queue_is_empty_def
        acquire_lock_def release_lock_def log_def idle_state_def idle_vnet_def ex_state_def ex_vnet_def onto_def)
  with q show ?thesis by blast
qed

lemma readers_share_queue_witness:
  "\<exists>R t w hist es. run_readers calm (\<lambda>_. map Some (header_bytes 2 [0x100, 0x200])) (\<lambda>_. 2)
       [True, False, True, False, False, True] (\<lambda>_. reading_start) ex_state = Some (R, t) \<and>
     map snd hist = take (length hist) [0x10, 0x20] \<and> (\<forall>j. r_taken (R j) = taken_by j hist) \<and>
     ktrace t = ktrace ex_state @ es \<and> distinct (freed es) \<and>
     (in_hands R = {} \<longrightarrow> drv_inv t 0x1000 w (drop (length hist) [0x10, 0x20]))"
proof -
  have "hdr_pkt (map Some (header_bytes 2 [0x100, 0x200])) (int i) = Some ([0x100, 0x200] ! i)"
    if "i < 2" for i
    by (rule hdr_pkt_header [where rest = "[]"]) (use that in simp_all)
  then have hdr: "\<forall>j :: bool. \<forall>i<2. hdr_pkt (map Some (header_bytes 2 [0x100, 0x200])) (int i) \<noteq> None" by simp
  have start: "\<forall>j :: bool. reading_start = reading_start" by simp
  show ?thesis
    using readers_share_queue [where R = "\<lambda>_. reading_start" and N = "\<lambda>_. 2" and K = calm
        and M = "\<lambda>_. map Some (header_bytes 2 [0x100, 0x200])" and js = "[True, False, True, False, False, True]",
        OF ex_inv start hdr]
    by (elim exE conjE, intro exI conjI)
qed

lemma counts_lost_witness:
  "\<exists>R t w. run_readers calm (\<lambda>_. []) (\<lambda>_. 0) [True, False, True, False]
       (\<lambda>_. reading_start\<lparr>r_pc := R_packets 0x10 60\<rparr>) ex_state = Some (R, t) \<and> gs_vnet t = Some (0x1000, w) \<and>
     tx_packets (vn_stats (net_dev w)) = tx_packets (vn_stats (net_dev ex_vnet)) + 1"
proof -
  let ?js = "[True, False, True, False]"
  have "gs_vnet ex_state = Some (0x1000, ex_vnet)" by (simp add: ex_state_def)
  moreover have "?js \<in> shuffles [True, True] [False, False]" by simp
  ultimately show ?thesis
    using counts_lost [of ex_state "0x1000" ex_vnet True False "\<lambda>_. reading_start\<lparr>r_pc := R_packets 0x10 60\<rparr>"
      "0x10" 60 "0x10" 60 ?js calm "\<lambda>_. []" "\<lambda>_. 0"] by simp
qed

lemma open_race_witness:
  "\<exists>t r q p. open_run naming [First, Second, First, First, Second, Second] (O_check, O_check, closed_state) =
       Some (O_done r, O_done q, t) \<and> file_is_open t \<and> dom (netdevs t) = {p} \<and> the_dev t = NULL \<and>
     (\<exists>u. io_dev_close naming t = Some (0, u) \<and> dom (netdevs u) = {p})"
proof -
  let ?es = "[First, Second, First, First, Second, Second]"
  have "named_in (ktrace closed_state) = {}" by (simp add: named_in_def closed_state_def ex_state_def)
  moreover have "?es \<in> shuffles [First, First, First] [Second, Second, Second]" by (simp add: open_schedules)
  moreover have "\<not> serial ?es" by (simp add: serial_def)
  ultimately show ?thesis using open_race [OF closed_loaded naming_one, of ?es] by fastforce
qed

section \<open>Checksums and dumps\<close>

lemma checksum_correct_witness: "checksum [0x45, 0x00, 0x01, 0x02] 4 = Some 0xFDB9 \<and> checksum [0x45] 2 = None"
  using checksum_correct [of 4 "[0x45, 0x00, 0x01, 0x02]"] checksum_correct [of 2 "[0x45]"]
  by (simp add: oc_def)

lemma ex_checksum: "checksum [0x45, 0x00, 0x01, 0x02] 4 = Some 0xFDB9"
  by (simp add: checksum_def checksum_loop.simps checksum_fold_def)

lemma le_bytes_two: "le_bytes 2 n = [of_nat (n mod 256), of_nat (n div 256 mod 256)]"
  by (simp add: numeral_2_eq_2)

lemma checksum_verifies_witness: "checksum [0x45, 0x00, 0x01, 0x02, 0xB9, 0xFD] 6 = Some 0"
  using checksum_verifies [of "[0x45, 0x00, 0x01, 0x02]" "0xFDB9"] ex_checksum by (simp add: le_bytes_two)

lemma adjust_checksum_recompute_witness:
  "adjust_checksum 0xFDB9 [0x01, 0x02] [0x03, 0x04] 2 = checksum [0x45, 0x00, 0x03, 0x04] 4"
  using adjust_checksum_recompute [of "[0x45, 0x00]" "[0x01, 0x02]" "[0x03, 0x04]" "[]" "0xFDB9"] ex_checksum
  by simp

lemma dump_eth_frame_None_witness:
  "dump_eth_frame (Some (replicate 12 0 @ [0x08, 0x06] @ replicate 8 0)) 22 = None"
  using dump_eth_frame_None [of 22 "replicate 12 0 @ [0x08, 0x06] @ replicate 8 0"]
  by (simp add: eth_proto_def be_val_def)

section \<open>The library\<close>

lemma kvnet_read_returns_witness:
  "\<exists>st u. kvnet_read cancelled_os (Some \<lparr>u_count = 2, u_pkt = [0x100, 0x200]\<rparr>) 20 dev_state =
     Some (st, Some \<lparr>u_count = 2, u_pkt = [0x100, 0x200]\<rparr>, u) \<and> KVNET_STATUS st = ucast KVNET_READ_CANCELLED"
proof -
  have n: "interrupted cancelled_os dev_state n \<longleftrightarrow> n < 2" "poll_answer cancelled_os dev_state 2 = (1, U_POLLERR, False)" for n
    by (simp_all add: interrupted_def poll_answer_def poll_history_def cancelled_os_def dev_state_def)
  show ?thesis
    using conjunct2 [OF kvnet_read_returns [of dev_state 20 cancelled_os "\<lparr>u_count = 2, u_pkt = [0x100, 0x200]\<rparr>"],
        rule_format, OF _ _ _ _ _ n(2) refl] n(1)
    by (simp add: dev_state_def)
qed

lemma library_descriptors_witness:
  "\<exists>sts s. lib_calls calm_os [Call_open 1, Call_open 1, Call_close] (initial_lib Map.empty) = Some (sts, s) \<and>
     fds_of s = Some []"
proof -
  obtain sts s where r: "lib_calls calm_os [Call_open 1, Call_open 1, Call_close] (initial_lib Map.empty) =
      Some (sts, s)" by (simp add: split_def)
  then have "fdesc s = - 1"
    by (auto simp: kvnet_open_def kvnet_close_def initial_lib_def calm_os_def lib_simps)
  with r library_descriptors [OF r] show ?thesis by simp
qed

section \<open>The example program\<close>

lemma client_frees_all_witness: "\<exists>c. pktLoop ex_env calm_os ex_client = Some c \<and> c_live c = []"
proof -
  have "read_packets ex_env calm_os (map Some (pointers ex_env 64)) (at_loop ex_env calm_os 64 ex_client) =
      Some (at_loop ex_env calm_os 64 ex_client)"
    by (subst read_packets.simps) (simp add: ex_env_def)
  with client_frees_all [OF ex_client_info(1) ex_env_distinct ex_client_info(2)] show ?thesis by simp
qed

lemma client_alloc_failure_witness: "pktLoop short_env calm_os ex_client = None"
proof -
  have "distinct (e_malloc short_env 0 # pointers short_env 2)"
    "NULL \<notin> set (e_malloc short_env 0 # pointers short_env 2)" "e_malloc short_env (Suc 2) = NULL"
    by (simp_all add: short_env_def ex_env_def pointers_def upt_rec)
  from client_alloc_failure [OF ex_client_info(1) this(1,2) ex_client_info(2) _ this(3)] show ?thesis by simp
qed

lemma client_descriptor_open_witness:
  "\<exists>s. p_loop s = L_start \<and> fdesc (lib_of s) \<noteq> - 1 \<and> fds_of (lib_of s) = Some [fdesc (lib_of s)]"
proof -
  obtain s where s: "prog_reachable ex_env ex_stack [] s" "p_loop s = L_start"
    using quitting_run(1) [of ex_stack] ex_stack_open by auto
  with client_descriptor_open [OF s(1)] show ?thesis by (auto simp: running_loop_def)
qed

section \<open>The whole system\<close>

lemma sent_packets_read_witness:
  "\<exists>l st hdr' l'. kvnet_read ex_stack (Some \<lparr>u_count = 2, u_pkt = [0x100, 0x200]\<rparr>) 20 l = Some (st, Some hdr', l') \<and>
     KVNET_SUCCEEDED st \<and> u_count hdr' = 1 \<and>
     upkts l' = fill_packets [(0x100, payload (ex_skb NULL))] ex_memory"
proof -
  define l where "l = snd (kvnet_open ex_stack 0 (initial_lib Map.empty))"
  have dev: "on_device (driver_os calm ex_world closed_state calm_os) l"
    unfolding l_def ex_stack_def by (rule on_device_open) (rule on_device_initial)
  have l: "fdesc l = 3" "utrace l = [U_open Kvnet_file 3]"
    using ex_stack_open by (simp_all add: l_def kvnet_open_def os_open_def initial_lib_def Let_def)
  define h where "h = utrace l @ [U_poll (fdesc l) (U_POLLIN OR U_POLLERR) (- 1) 1]"
  define u where "u = network calm [Dev_open] (driver_after calm ex_world closed_state (utrace l))"
  from ex_up [OF u_def [unfolded l(2)]] obtain a v where
    v: "running u a v []" "io_opened (io_dev v) \<noteq> 0" "io_canceled (io_dev v) = 0" "up_of u" by blast
  have "skbs u = Map.empty" using running_facts(1) [OF v(1)] by (simp add: inv_defs)
  then have snd: "sendable [(0x30, ex_skb NULL)] u" by (simp add: sendable_def skb_linear_def ex_skb_def)
  have net: "w_net ex_world (utrace l) = [Dev_open] @ xmits [(0x30, ex_skb NULL)]" "w_net ex_world h = []"
    by (simp_all add: ex_world_def l h_def)
  let ?hdr = "\<lparr>u_count = 2, u_pkt = [0x100, 0x200]\<rparr>"
  have rq: "request calm s (ucast (20 :: u32)) (u_pkt ?hdr) (w_mem ex_world h)" for s
    using ex_request [of s] ex_user [of "ktrace s"] calm_out
    by (auto simp: request_def ex_world_def ex_memory_def)
  have "w_hdr ex_world h = ?hdr" by (simp add: ex_world_def)
  from sent_packets_read [OF dev _ _ net(1) u_def v(1-4) snd _ h_def net(2) rq this] l(1) obtain st l' where
    "kvnet_read ex_stack (Some ?hdr) 20 l = Some (st, Some (?hdr\<lparr>u_count := of_nat 1\<rparr>), l')" "KVNET_SUCCEEDED st"
    "upkts l' = fill_packets (zip [0x100, 0x200] [payload (ex_skb NULL)]) ex_memory"
    unfolding ex_stack_def by (fastforce simp: ex_world_def)
  then show ?thesis by (intro exI [of _ l] exI [of _ st]) auto
qed

end
