(* ===== verification/Spec2Isabelle.thy ===== *)
theory Spec2Isabelle
  imports Witnesses
begin

text \<open>
  A verification of the KVNET virtual network driver for Linux (\<open>src/drivers/vpn/linux\<close>), its
  user-space library (\<open>src/libkvnet/src\<close>) and its example program. The
  driver gives a VPN client a network interface: packets that the system sends out through
  \<open>kvnet\<close> are queued, the client reads them from \<open>/dev/kvnet\<close>, and packets that the client
  writes there come in through the interface.

  The parts, in the order of the theories, and the sources each models:

  \<^item> \<^bold>\<open>Prelude\<close>: words, addresses, error numbers, bytes and blocks of memory.
  \<^item> \<^bold>\<open>Kernel\<close>: the boundary with the Linux kernel, which is not part of the sources. Its
    answers are a parameter, the record \<open>kernel\<close> of functions of the history of calls; each
    call is an event in the trace. What the driver owns is explicit: the socket buffers
    handed to it (\<open>skbs\<close>), its net devices (\<open>netdevs\<close>), and, read off the trace, the queue's
    lock (\<open>lock_of\<close>), the memory and registrations held (\<open>held_of\<close>) and whether the
    interface is up (\<open>up_of\<close>). Using anything else is a fault, the result \<open>None\<close>.
  \<^item> \<^bold>\<open>Utils\<close> (\<open>utils.c\<close>, \<open>utils.h\<close>): locks, allocation, and \<open>trace\<close> with its two buffers.
  \<^item> \<^bold>\<open>Queue\<close> (\<open>queue.c\<close>, \<open>queue.h\<close>, \<open>lin_specific.h\<close>): the linked list of packets with its
    head, tail, size and lock. The locale \<open>packet_queue\<close> is the contract of a FIFO that does
    not own its elements' memory; \<open>raw_q\<close> and \<open>locked_q\<close> interpret it on the two versions of
    the operations, and give the behaviour of scripts and of draining.
  \<^item> \<^bold>\<open>Lifecycle\<close>: the locale of a resource that is added and removed, and its iteration.
    It is interpreted on \<open>vnet_init\<close>/\<open>vnet_close\<close>, \<open>net_dev_add\<close>/\<open>net_dev_remove\<close>,
    \<open>io_dev_open\<close>/\<open>io_dev_close\<close>, \<open>module_start\<close>/\<open>module_stop\<close> and \<open>kvnet_open\<close>/\<open>kvnet_close\<close>.
  \<^item> \<^bold>\<open>Vnet\<close> (\<open>vnet.c\<close>, \<open>vnet.h\<close>): the driver's one object, a record like \<open>struct vnet\<close>.
  \<^item> \<^bold>\<open>Net_Dev\<close> and \<^bold>\<open>Net_Dev_Inv\<close> (\<open>net_dev.c\<close>): the interface's operations, the callbacks
    the kernel runs while it registers a device, and the invariant \<open>drv_inv\<close> they keep: the
    queue is a well-formed list of exactly the buffers owned, within its limit, and empty
    while the interface is down.
  \<^item> \<^bold>\<open>Kvnet_Hdr\<close> (\<open>defs.h\<close>, \<open>ioctl.h\<close>, and what \<open>io_read.c\<close> and \<open>io_write.c\<close> share): the
    packed header of a request, byte by byte, its length check, and its return.
  \<^item> \<^bold>\<open>Io_Read\<close> (\<open>io_read.c\<close>) and \<^bold>\<open>Io_Write\<close> (\<open>io_write.c\<close>): a whole read and a whole write.
    For each: it is safe whatever the kernel and the user do (\<open>io_read_safe\<close>,
    \<open>io_write_safe\<close>), and it does exactly what it should when the user's memory is
    accessible (\<open>io_read_exact\<close>, \<open>io_write_exact\<close>). \<^bold>\<open>Blocking_Read\<close>: the read of the build with
    \<open>USE_BLOCKING_READ\<close>, which waits for packets itself; the history of its naps is an argument.
  \<^item> \<^bold>\<open>Io_Dev\<close> (\<open>io_dev.c\<close>): the file operations, and the registration of the device with its
    undoing after a failure at any point.
  \<^item> \<^bold>\<open>Init\<close> (\<open>init.c\<close>): loading and unloading.
  \<^item> \<^bold>\<open>Driver\<close>: the dispatch tables, when the kernel may call what (\<open>may_call\<close>), the laws it
    keeps (\<open>kernel_laws\<close>), steps and reachable states. \<^bold>\<open>Driver_Spec\<close>: the abstract machine
    of the driver (\<open>spec_step\<close>: loaded, open, cancelled, up, a list of waiting packets) and
    the simulation, one lemma per entry point. \<^bold>\<open>Results\<close>: the values each entry may return.
    \<^bold>\<open>Accounting\<close>: what becomes of every packet handed to the driver, read off its counters.
  \<^item> \<^bold>\<open>Traffic\<close>: packets sent, then read; a read that faults.
  \<^item> Handlers that run at the same time on different processors. Each theory cuts the handlers
    it is about into the sections between which another processor can come (at their accesses to
    shared data and where the queue's lock is free), proves the handler equal to the sequence of
    its sections, and runs the sections in any order. \<^bold>\<open>Read_Rounds\<close>: what one round of a read does.
    \<^bold>\<open>Interleave\<close>: packets sent between the rounds, against the same on a bounded list.
    \<^bold>\<open>Stop_Race\<close>: the interface taken down between the rounds of a read. \<^bold>\<open>Readers\<close>: any number of
    reads of the file at once (each packet goes to one of them; the counters can miss packets).
    \<^bold>\<open>Wakeups\<close>: a \<open>poll\<close> beside senders (no packet is missed) and beside a cancellation (one order
    misses it). \<^bold>\<open>Quitting\<close>: the example's packet loop, whose \<open>poll\<close> sleeps until it is woken, beside
    \<open>cancel_loop\<close>, senders and signals: the cancelled loop ends, but for that one order.
    \<^bold>\<open>Open_Race\<close>: two opens (only the serial orders are right).
  \<^item> \<^bold>\<open>Kvnet_Lib\<close> (\<open>kvnet.c\<close>, \<open>status.h\<close>, \<open>api.h\<close>): the library, with the operating system's
    answers as the record \<open>os\<close>; \<open>kvnet_read\<close>'s loop may never end and is a
    \<open>partial_function\<close>. \<^bold>\<open>System\<close>: the driver's \<open>poll\<close> and the library's read together.
    \<^bold>\<open>Lib_Calls\<close>: what a process that uses only the library has called before.
  \<^item> \<^bold>\<open>Client\<close> (\<open>main.cpp\<close>): the example's packet loop and its memory. \<^bold>\<open>Client_Threads\<close>: its
    \<open>main\<close>, the loop and the signal handler as threads whose accesses to shared data interleave.
  \<^item> \<^bold>\<open>Stack\<close>: the program on its library on the driver. The library's operating system is built
    from the driver (\<open>driver_os\<close>): a call on \<open>/dev/kvnet\<close> is an entry of \<open>Driver\<close>, run on the state
    that the calls before it and the network stack have left, and what the driver copies to the
    user becomes the memory of the process. A call is one step, a \<open>poll\<close> without events ends with a
    signal, and wake-ups play no part.
  \<^item> \<^bold>\<open>Checksum\<close> and \<^bold>\<open>Dump\<close> (\<open>utils.c\<close>): the Internet checksum, its incremental update, and
    the packet dumps as lists of lines.
  \<^item> \<^bold>\<open>Format\<close> and \<^bold>\<open>Log_Lines\<close> (the calls of \<open>TRACE\<close> in all files): what \<open>vsnprintf\<close> makes of the
    driver's formats, how long its output can be, and for each function the table of the lines it
    logs. The tables' lines and the dumps' fit the buffers of \<open>trace\<close>; that of the counters fits as five
    of them are zero in every reachable state; that of \<open>net_dev_send\<close> never fits.
  \<^item> \<^bold>\<open>Examples\<close> and \<^bold>\<open>Witnesses\<close>: a kernel that keeps all laws, a booted machine, a running
    driver with two packets, and each property applied to them.

  The properties that span components are below; those of one component stand in its
  theory. Integers keep their width: \<open>int\<close> results of handlers that are only compared and
  returned are \<open>int\<close>, lengths, counters and sizes are words that wrap. There is no fuel: the
  loops over a request run over the list of its indices, the flush of the queue and the
  library's loops are partial functions whose end is proved.

  Laws assumed of the kernel, all of them documented behaviour: \<open>netdev_laws\<close> (registering
  does not open the interface, unregistering stops it if it is up), \<open>iovec_laws\<close> and
  \<open>skb_laws\<close> (copies have the length asked for, and a buffer has the room it was allocated
  with) and \<open>chrdev_laws\<close> (error pointers carry an error, major numbers are not negative). They say
  nothing of what a user stores in a request, nor that there is memory: the two calls that fault are
  those of \<open>faulting\<close>, loading without memory for the object and a write of a length that wraps
  around, and \<open>entry_faults_iff\<close> shows that there are no others. \<open>skb_tight\<close>, used only to show the
  panic, says that a buffer has at most about twice the room asked for. Reads and writes are below
  2 GB, the limit of the VFS, and the packets handed to \<open>net_dev_send\<close> are linear, as the device asks
  for no other. \<open>quitting_ends\<close> rests on \<open>device_laws\<close>, which \<open>Stack\<close> proves of the driver
  (\<open>driver_os_laws\<close>) for processes whose packets are accessible (\<open>world_laws\<close>), and on \<open>malloc\<close> having
  memory (\<open>enough_memory\<close>). \<open>errno_laws\<close> says that the kernel's own errors are between \<open>- 4095\<close> and
  \<open>- 1\<close>, and \<open>one_name\<close> that it does not register two interfaces under one name.

  The handlers are modelled without their calls of \<open>TRACE\<close>, which change nothing but the kernel's
  log: \<open>Log_Lines\<close> shows of each line on its own that \<open>trace\<close> keeps it whole, and of the one line of
  which it does not (\<open>send_line_overruns\<close>) what it does. The theorems about the driver hold therefore while
  the debug switch is off, as it is in the sources, or that line is mended. A pointer is printed with
  16 characters, as on 64-bit kernels.

  Not modelled: when a handler logs which line; of the build with \<open>USE_BLOCKING_READ\<close>, which \<open>hdrs.h\<close>
  leaves commented out, anything but its read (its \<open>aio\<close> functions only omit the test of \<open>O_NONBLOCK\<close>); interleavings other than
  those named above (everywhere else an entry point runs to its end; in \<open>Open_Race\<close> the kernel's
  registration of a device is one section, in \<open>Interleave\<close> and \<open>Stop_Race\<close> a round of the read is
  one, as only its access to the queue and to counters of its own is shared; in \<open>Readers\<close> only the
  loops of reads are interleaved, not with senders; in \<open>Quitting\<close> the driver's read is one; in
  \<open>Client_Threads\<close> and \<open>Stack\<close> a call of the library is one step, so what a cancellation inside a \<open>poll\<close>
  does is \<open>cancel_missed_iff\<close> and \<open>cancelled_loop_ends\<close> and not \<open>quitting_ends\<close>); 32-bit builds; the
  messages of the example program; the Docker files.
\<close>

section \<open>The driver in any order of calls\<close>

text \<open>
  (C1) The driver implements its abstract machine: whatever calls are made on it since it
  was loaded, in any order the kernel allows and with any answers of a kernel that keeps
  its laws, each returned a value that the machine allows at that point, and the packets
  waiting, the file, its cancellation and the interface are as the machine says.
\<close>

theorem driver_refines_machine:
  assumes "kernel_laws K" and "unloaded s" and "dsteps K s es s'"
  shows "\<exists>t. spec_steps spec_off es t \<and> refines s' t"
proof -
  from assms(2) have "refines s spec_off" by (simp add: refines_def)
  from steps_refine [OF this assms(1,3)] show ?thesis .
qed

theorem driver_refines_machine_witness:
  "\<exists>s t. dsteps calm booted [(Load, 0)] s \<and> spec_steps spec_off [(Load, 0)] t \<and> refines s t"
proof -
  obtain s where "dstep calm booted Load 0 s" using booted_load by blast
  then have d: "dsteps calm booted [(Load, 0)] s" by simp
  with driver_refines_machine [OF calm_laws booted_unloaded d] show ?thesis by blast
qed

text \<open>
  (C3) In every state the driver can reach, under any order of entry calls and any answers of a
  kernel that keeps its laws: the transmit queue is a well-formed list of at most 256
  packets; the socket buffers the driver owns are exactly the queued ones; the queue lock
  is free, and was never taken twice nor held over a call that may sleep; nothing is queued
  while the interface is down; the driver owns a net device exactly while \<open>/dev/kvnet\<close> is
  open; and it holds its object and its four registrations, nothing else.
\<close>

theorem driver_invariant:
  assumes K: "kernel_laws K" and s: "reachable K s" and g: "gs_vnet s = Some (a, v)"
  shows "\<exists>xs rs. queue_rep (vn_queue (net_dev v)) (skbs s) xs \<and> dom (skbs s) = set xs \<and>
    length xs \<le> 256 \<and> lock_of s = Some False \<and> (\<not> up_of s \<longrightarrow> xs = []) \<and>
    dom (netdevs s) = (if io_opened (io_dev v) \<noteq> 0 then {vn_device (net_dev v)} else {}) \<and>
    held_of s = Some (rs @ [Block a]) \<and> length rs = 4"
proof -
  from driver_inv_loaded [OF reachable_inv [OF s K] g] obtain xs where run: "running s a v xs" ..
  from run have "length xs \<le> 256" by (auto simp: running_def drv_ok_def inv_defs module_cfg_def)
  moreover have "dom (netdevs s) = (if io_opened (io_dev v) \<noteq> 0 then {vn_device (net_dev v)} else {})"
    using running_facts [OF run] by (auto simp: inv_defs dev_wf_def split: if_splits)
  moreover have "\<not> up_of s \<longrightarrow> xs = []" "lock_of s = Some False" "dom (skbs s) = set xs"
    "queue_rep (vn_queue (net_dev v)) (skbs s) xs"
    using running_facts(1,9) [OF run] by (auto simp: inv_defs)
  moreover obtain rs where "held_of s = Some (rs @ [Block a])" "length rs = 4"
    using run by (auto simp: running_def)
  ultimately show ?thesis by blast
qed

theorem driver_invariant_witness:
  "\<exists>s a v xs. reachable calm s \<and> gs_vnet s = Some (a, v) \<and>
     queue_rep (vn_queue (net_dev v)) (skbs s) xs \<and> length xs \<le> 256 \<and> lock_of s = Some False"
  using loaded_reachable driver_invariant [OF calm_laws] by blast

text \<open>What makes an entry fault, without the code of the write: a length that wraps around.\<close>

lemma loop_overrun_wraps:
  "loop_overrun K m js s \<Longrightarrow>
     \<exists>h p n. k_get_user K h p = Some n \<and> 2 ^ 32 \<le> unat n + unat (k_net_ip_align K)"
proof (induction js arbitrary: s)
  case (Cons i js)
  then show ?case by (fastforce simp: skb_overrun_def Let_def split: option.splits prod.splits)
qed simp

lemma faulting_cause:
  assumes "faulting K e s"
  shows "e = Load \<and> k_kmalloc K (ktrace s) (alloc_size (k_sizeof_vnet K)) = NULL \<or>
    (\<exists>flags iv h p n. e = Write_file flags iv \<and> k_get_user K h p = Some n \<and>
       2 ^ 32 \<le> unat n + unat (k_net_ip_align K))"
proof (cases e)
  case (Write_file flags iv)
  with assms obtain m js t where "loop_overrun K m js t"
    by (auto simp: write_overrun_def split: option.splits prod.splits sum.splits)
  from loop_overrun_wraps [OF this] Write_file show ?thesis by blast
qed (use assms in simp_all)

text \<open>
  (C2) Which calls fault: of the entry points that the kernel may call in a reachable state, every
  one returns a value and leaves a state that is reachable again, but for those that \<open>faulting\<close>
  names, and these do fault. There are two: loading without memory for the module's object
  (\<open>module_start_no_memory\<close>), and a write in which the user gives a packet a length that wraps
  around \<open>2 ^ 32\<close> with the alignment and gets a buffer too small for it (\<open>write_wrap_panics\<close>).
  Otherwise no handler dereferences a bad pointer, frees a packet twice, or loops for ever.
\<close>

theorem entry_faults_iff:
  assumes "kernel_laws K" and "reachable K s" and "may_call K s e"
  shows "(if faulting K e s then dispatch K e s = None
      else \<exists>r s'. dispatch K e s = Some (r, s') \<and> reachable K s') \<and>
    (faulting K e s \<longrightarrow>
       e = Load \<and> k_kmalloc K (ktrace s) (alloc_size (k_sizeof_vnet K)) = NULL \<or>
       (\<exists>flags iv h p n. e = Write_file flags iv \<and> k_get_user K h p = Some n \<and>
          2 ^ 32 \<le> unat n + unat (k_net_ip_align K)))"
proof -
  obtain t where "refines s t" using reachable_refines [OF assms(2,1)] by blast
  from step_simulates [OF this assms(1,3)] have sim: "simulates K e s t" .
  have "\<exists>r s'. dispatch K e s = Some (r, s') \<and> reachable K s'" if "\<not> faulting K e s"
  proof -
    from sim that obtain r s' where r: "dispatch K e s = Some (r, s')" by (auto simp: simulates_def)
    with assms(3) have "dstep K s e r s'" by (rule dstep.call)
    with r assms(2) show ?thesis by (blast intro: reachable.step)
  qed
  with sim faulting_cause [of K e s] show ?thesis by (simp add: simulates_def)
qed

theorem entry_faults_iff_witness:
  "(\<exists>s r s'. reachable calm s \<and> dispatch calm Open_file s = Some (r, s') \<and> reachable calm s') \<and>
   dispatch no_memory Load booted = None"
proof
  obtain s a v where s: "reachable calm s" "gs_vnet s = Some (a, v)" using loaded_reachable by blast
  then have "may_call calm s Open_file" by (simp add: is_loaded_def)
  from entry_faults_iff [OF calm_laws s(1) this] have
    "\<exists>r s'. dispatch calm Open_file s = Some (r, s') \<and> reachable calm s'" by (simp only: faulting.simps if_False)
  with s(1) show "\<exists>s r s'. reachable calm s \<and> dispatch calm Open_file s = Some (r, s') \<and> reachable calm s'" by blast
  have "may_call no_memory booted Load" "faulting no_memory Load booted"
    by (simp_all add: no_memory_def is_loaded_def booted_def)
  with entry_faults_iff [OF variant_laws(1) reachable.init [OF booted_unloaded], of Load]
  show "dispatch no_memory Load booted = None" by simp
qed

text \<open>
  (C4) No leak: in a reachable state in which the module is not loaded, because it was
  unloaded or because loading failed at any point, the driver owns no packet, no net
  device, no memory and no registration.
\<close>

theorem unloaded_owns_nothing:
  assumes "kernel_laws K" and "reachable K s" and "gs_vnet s = None"
  shows "skbs s = Map.empty \<and> netdevs s = Map.empty \<and> held_of s = Some [] \<and> \<not> up_of s"
proof -
  from driver_inv_unloaded [OF reachable_inv [OF assms(2,1)] assms(3)] show ?thesis
    by (simp add: unloaded_def)
qed

theorem unloaded_owns_nothing_witness:
  "\<exists>s t. dstep calm booted Load 0 s \<and> held_of s \<noteq> Some [] \<and> dstep calm s Unload 0 t \<and> held_of t = Some []"
proof -
  obtain s a v where s: "dstep calm booted Load 0 s" "loaded s a v" using booted_load by blast
  from module_stop_loaded [OF s(2)] obtain t where t: "module_stop s = Some t" "unloaded t" by blast
  have "is_loaded s" "\<not> file_is_open s" "held_of s \<noteq> Some []"
    using s(2) by (auto simp: loaded_def drv_ok_def inv_defs is_loaded_def file_is_open_def)
  with t(1) have d: "dstep calm s Unload 0 t" "held_of s \<noteq> Some []" by (auto intro: dstep.call)
  with s(1) have "reachable calm t" by (blast intro: reachable.step booted_reachable)
  with unloaded_owns_nothing [OF calm_laws this] t(2) d s(1) show ?thesis by (auto simp: unloaded_def)
qed

end
